(* ===== verification/Prelude.thy ===== *)
theory Prelude
  imports Main "HOL-Library.Word" "HOL-Library.List_Lexorder"
begin

section \<open>Shared vocabulary of the chibidb development\<close>

text \<open>
  The types, byte-level operations and generic lemmas that every component theory uses:
  \<^item> bytes, words and the crate's \<open>Error\<close>/\<open>Result\<close> (\<open>src/src/error.rs\<close>), with a panic of the
    Rust runtime as one more error value;
  \<^item> checked indexing and slicing (\<open>xs[i]\<close>, \<open>xs[a..b]\<close>, \<open>copy_from_slice\<close>), which panic out of
    range as Rust does;
  \<^item> little- and big-endian integer codings (\<open>to_le_bytes\<close>, \<open>from_le_bytes\<close>, \<open>to_be_bytes\<close>);
  \<^item> sorted association lists, the model of \<open>BTreeMap\<close>.

  A \<open>usize\<close> is a \<open>nat\<close>; a cast \<open>n as u16\<close> that is then stored is the encoding itself, which
  keeps only the low bytes, so truncation is part of the model.
\<close>

named_theorems res_simps \<open>rewriting of results and checked accesses\<close>
named_theorems byte_simps \<open>rewriting of integer codings\<close>

type_synonym byte = "8 word"
type_synonym u16 = "16 word"
type_synonym u32 = "32 word"
type_synonym u64 = "64 word"

subsection \<open>Errors and results\<close>

datatype error =
    Syntax string "nat option"
  | Runtime string
  | PageFull
  | Retry
  | Unsupported
  | Panic

datatype 'a result = Ok 'a | Err error

fun bindR :: "'a result \<Rightarrow> ('a \<Rightarrow> 'b result) \<Rightarrow> 'b result" where
  "bindR (Ok x) f = f x"
| "bindR (Err e) f = Err e"

fun is_ok :: "'a result \<Rightarrow> bool" where
  "is_ok (Ok _) = True"
| "is_ok (Err _) = False"

lemma bindR_Ok_iff [res_simps]: "bindR m f = Ok y \<longleftrightarrow> (\<exists>x. m = Ok x \<and> f x = Ok y)"
  by (cases m) auto

lemma bindR_Err_iff: "bindR m f = Err e \<longleftrightarrow> m = Err e \<or> (\<exists>x. m = Ok x \<and> f x = Err e)"
  by (cases m) auto

lemma bindR_assoc [simp]: "bindR (bindR m f) g = bindR m (\<lambda>x. bindR (f x) g)"
  by (cases m) auto

lemma bindR_Ok_right [simp]: "bindR m Ok = m"
  by (cases m) auto

lemma bindR_cong [fundef_cong]:
  "m = m' \<Longrightarrow> (\<And>x. m' = Ok x \<Longrightarrow> f x = f' x) \<Longrightarrow> bindR m f = bindR m' f'"
  by (cases m') auto

text \<open>\<open>for x in xs { acc = f(acc, x)?; }\<close>: a fallible left fold.\<close>

fun foldR :: "('s \<Rightarrow> 'a \<Rightarrow> 's result) \<Rightarrow> 's \<Rightarrow> 'a list \<Rightarrow> 's result" where
  "foldR f s [] = Ok s"
| "foldR f s (x # xs) = bindR (f s x) (\<lambda>s'. foldR f s' xs)"

text \<open>\<open>iter().map(f).collect::<Result<Vec<_>>>()\<close>: the first error wins.\<close>

fun mapR :: "('a \<Rightarrow> 'b result) \<Rightarrow> 'a list \<Rightarrow> 'b list result" where
  "mapR f [] = Ok []"
| "mapR f (x # xs) = bindR (f x) (\<lambda>y. bindR (mapR f xs) (\<lambda>ys. Ok (y # ys)))"

lemma mapR_cong [fundef_cong]:
  "xs = ys \<Longrightarrow> (\<And>x. x \<in> set ys \<Longrightarrow> f x = g x) \<Longrightarrow> mapR f xs = mapR g ys"
  by (induction xs arbitrary: ys) auto

lemma mapR_Ok_iff: "mapR f xs = Ok ys \<longleftrightarrow> list_all2 (\<lambda>x y. f x = Ok y) xs ys"
proof (induction xs arbitrary: ys)
  case (Cons x xs)
  then show ?case by (cases ys; cases "f x") (auto simp: bindR_Ok_iff)
qed auto

lemma mapR_append: "mapR f (xs @ ys) = bindR (mapR f xs) (\<lambda>us. bindR (mapR f ys) (\<lambda>vs. Ok (us @ vs)))"
proof (induction xs)
  case (Cons x xs)
  then show ?case by (cases "f x"; cases "mapR f xs") auto
qed simp

lemma mapR_Err: "mapR f xs = Err e \<Longrightarrow> \<exists>x \<in> set xs. f x = Err e"
  by (induction xs) (auto simp: bindR_Err_iff)

lemma mapR_Ok [simp]: "mapR (\<lambda>x. Ok (f x)) xs = Ok (map f xs)"
  by (induction xs) auto

lemma foldR_append: "foldR f s (xs @ ys) = bindR (foldR f s xs) (\<lambda>s'. foldR f s' ys)"
  by (induction xs arbitrary: s) auto

lemma foldR_cong [fundef_cong]:
  "s = s' \<Longrightarrow> xs = ys \<Longrightarrow> (\<And>a x. x \<in> set ys \<Longrightarrow> f a x = g a x) \<Longrightarrow> foldR f s xs = foldR g s' ys"
proof (induction xs arbitrary: s s' ys)
  case (Cons x xs)
  then show ?case by (cases ys) (auto intro!: bindR_cong)
qed simp

lemma foldR_invariant:
  assumes "foldR f s xs = Ok s'" and "P s"
    and "\<And>a x b. P a \<Longrightarrow> x \<in> set xs \<Longrightarrow> f a x = Ok b \<Longrightarrow> P b"
  shows "P s'"
  using assms
proof (induction xs arbitrary: s)
  case (Cons x xs)
  from Cons.prems(1) obtain t where t: "f s x = Ok t" "foldR f t xs = Ok s'"
    by (auto simp: res_simps)
  have "P t"
    by (rule Cons.prems(3) [OF Cons.prems(2) _ t(1)]) simp
  with t(2) show ?case
    by (rule Cons.IH) (use Cons.prems(3) in auto)
qed simp

text \<open>Code that cannot panic; the rules compose.\<close>

named_theorems no_panic \<open>operations that never panic\<close>

definition safe :: "'a result \<Rightarrow> bool" where
  "safe r \<longleftrightarrow> r \<noteq> Err Panic"

lemma safe_simps [simp]: "safe (Ok x)" "safe (Err e) \<longleftrightarrow> e \<noteq> Panic"
  by (auto simp: safe_def)

lemma bindR_no_panic [no_panic]:
  "safe m \<Longrightarrow> (\<And>x. m = Ok x \<Longrightarrow> safe (f x)) \<Longrightarrow> safe (bindR m f)"
  by (cases m) auto

lemma mapR_no_panic [no_panic]: "(\<And>x. x \<in> set xs \<Longrightarrow> safe (f x)) \<Longrightarrow> safe (mapR f xs)"
  by (induction xs) (auto intro!: bindR_no_panic)

lemma foldR_no_panic [no_panic]: "(\<And>a x. safe (f a x)) \<Longrightarrow> safe (foldR f a xs)"
  by (induction xs arbitrary: a) (auto intro!: no_panic)

subsection \<open>Searching\<close>

text \<open>\<open>iter().position(p)\<close>.\<close>

fun position :: "('a \<Rightarrow> bool) \<Rightarrow> 'a list \<Rightarrow> nat option" where
  "position P [] = None"
| "position P (x # xs) = (if P x then Some 0 else map_option Suc (position P xs))"

lemma position_Some:
  "position P xs = Some i \<Longrightarrow> \<exists>a b. xs = a @ xs ! i # b \<and> length a = i \<and> P (xs ! i)"
proof (induction P xs arbitrary: i rule: position.induct)
  case (2 P x xs)
  show ?case
  proof (cases "P x")
    case False
    with 2(2) obtain j where j: "position P xs = Some j" "i = Suc j" by auto
    from 2(1) [OF False j(1)] obtain a b where "xs = a @ xs ! j # b" "length a = j" "P (xs ! j)" by blast
    with j(2) show ?thesis by (intro exI [of _ "x # a"] exI [of _ b]) auto
  qed (use 2(2) in auto)
qed simp

lemma position_None: "position P xs = None \<longleftrightarrow> (\<forall>x \<in> set xs. \<not> P x)"
  by (induction xs) auto

lemma position_bound: "position P xs = Some i \<Longrightarrow> i < length xs \<and> P (xs ! i)"
  by (induction xs arbitrary: i) (auto split: if_splits)

subsection \<open>Checked indexing and slicing\<close>

definition subl :: "'a list \<Rightarrow> nat \<Rightarrow> nat \<Rightarrow> 'a list" where
  "subl xs a b = take (b - a) (drop a xs)"

definition patch :: "'a list \<Rightarrow> nat \<Rightarrow> 'a list \<Rightarrow> 'a list" where
  "patch xs a ys = take a xs @ ys @ drop (a + length ys) xs"

definition idx :: "'a list \<Rightarrow> nat \<Rightarrow> 'a result" where
  "idx xs i = (if i < length xs then Ok (xs ! i) else Err Panic)"

definition rng :: "'a list \<Rightarrow> nat \<Rightarrow> nat \<Rightarrow> 'a list result" where
  "rng xs a b = (if a \<le> b \<and> b \<le> length xs then Ok (subl xs a b) else Err Panic)"

definition put_rng :: "'a list \<Rightarrow> nat \<Rightarrow> 'a list \<Rightarrow> 'a list result" where
  "put_rng xs a ys = (if a + length ys \<le> length xs then Ok (patch xs a ys) else Err Panic)"

lemma length_subl [simp]: "length (subl xs a b) = min (b - a) (length xs - a)"
  by (simp add: subl_def)

lemma length_patch: "a + length ys \<le> length xs \<Longrightarrow> length (patch xs a ys) = length xs"
  by (simp add: patch_def)

lemma idx_Ok [res_simps]: "i < length xs \<Longrightarrow> idx xs i = Ok (xs ! i)"
  by (simp add: idx_def)

lemma rng_Ok [res_simps]: "a \<le> b \<Longrightarrow> b \<le> length xs \<Longrightarrow> rng xs a b = Ok (subl xs a b)"
  by (simp add: rng_def)

lemma put_rng_Ok [res_simps]: "a + length ys \<le> length xs \<Longrightarrow> put_rng xs a ys = Ok (patch xs a ys)"
  by (simp add: put_rng_def)

lemma subl_append1: "b \<le> length xs \<Longrightarrow> subl (xs @ ys) a b = subl xs a b"
  by (simp add: subl_def)

lemma subl_append2: "length xs \<le> a \<Longrightarrow> subl (xs @ ys) a b = subl ys (a - length xs) (b - length xs)"
  by (simp add: subl_def)

lemma subl_full [simp]: "subl xs 0 (length xs) = xs"
  by (simp add: subl_def)

lemma subl_prefix: "subl (xs @ ys) 0 (length xs) = xs"
  by (simp add: subl_def)

lemma subl_mid: "n = length xs \<Longrightarrow> m = n + length ys \<Longrightarrow> subl (xs @ ys @ zs) n m = ys"
  by (simp add: subl_def)

lemma rng_mid: "n = length xs \<Longrightarrow> m = n + length ys \<Longrightarrow> rng (xs @ ys @ zs) n m = Ok ys"
  by (simp add: rng_def subl_mid)

lemma subl_empty [simp]: "subl xs a a = []"
  by (simp add: subl_def)

lemma subl_subl: "b' \<le> b - a \<Longrightarrow> subl (subl xs a b) a' b' = subl xs (a + a') (a + b')"
  by (simp add: subl_def drop_take min_def add.commute)

lemma nth_subl: "i < b - a \<Longrightarrow> b \<le> length xs \<Longrightarrow> subl xs a b ! i = xs ! (a + i)"
  by (simp add: subl_def)

lemma subl_eq_nth: "b \<le> length xs \<Longrightarrow> b \<le> length ys \<Longrightarrow>
    (\<And>i. a \<le> i \<Longrightarrow> i < b \<Longrightarrow> xs ! i = ys ! i) \<Longrightarrow> subl xs a b = subl ys a b"
  by (rule nth_equalityI) (auto simp: nth_subl)

lemma nth_patch: "a + length ys \<le> length xs \<Longrightarrow> i < length xs \<Longrightarrow>
    patch xs a ys ! i = (if a \<le> i \<and> i < a + length ys then ys ! (i - a) else xs ! i)"
  by (auto simp: patch_def nth_append)

lemma subl_patch_same: "a + length ys \<le> length xs \<Longrightarrow> b = a + length ys \<Longrightarrow>
    subl (patch xs a ys) a b = ys"
  by (simp add: patch_def subl_def)

lemma subl_patch_disjoint: "a + length ys \<le> length xs \<Longrightarrow> d \<le> length xs \<Longrightarrow>
    d \<le> a \<or> a + length ys \<le> c \<Longrightarrow> subl (patch xs a ys) c d = subl xs c d"
  by (rule subl_eq_nth) (auto simp: length_patch nth_patch)

lemma subl_split: "a \<le> b \<Longrightarrow> b \<le> c \<Longrightarrow> subl xs a c = subl xs a b @ subl xs b c"
proof -
  assume le: "a \<le> b" "b \<le> c"
  have "take (c - a) (drop a xs) = take ((b - a) + (c - b)) (drop a xs)"
    using le by simp
  also have "\<dots> = take (b - a) (drop a xs) @ take (c - b) (drop (b - a) (drop a xs))"
    by (rule take_add)
  finally show ?thesis
    using le by (simp add: subl_def)
qed

subsection \<open>Little- and big-endian integers\<close>

text \<open>\<open>le_enc k n\<close> is the \<open>k\<close>-byte \<open>to_le_bytes\<close> of \<open>n\<close> cast to \<open>8 k\<close> bits.\<close>

fun le_enc :: "nat \<Rightarrow> nat \<Rightarrow> byte list" where
  "le_enc 0 n = []"
| "le_enc (Suc k) n = word_of_nat n # le_enc k (n div 256)"

fun le_dec :: "byte list \<Rightarrow> nat" where
  "le_dec [] = 0"
| "le_dec (b # bs) = unat b + 256 * le_dec bs"

definition be_enc :: "nat \<Rightarrow> nat \<Rightarrow> byte list" where
  "be_enc k n = rev (le_enc k n)"

definition be_dec :: "byte list \<Rightarrow> nat" where
  "be_dec bs = le_dec (rev bs)"

lemma length_le_enc [simp]: "length (le_enc k n) = k"
  by (induction k arbitrary: n) auto

lemma length_be_enc [simp]: "length (be_enc k n) = k"
  by (simp add: be_enc_def)

lemma unat_byte_of_nat: "unat (word_of_nat n :: byte) = n mod 256"
  by (simp add: unat_of_nat)

lemma le_dec_enc [byte_simps]: "le_dec (le_enc k n) = n mod 256 ^ k"
  by (induction k arbitrary: n) (auto simp: unat_byte_of_nat mod_mult2_eq)

lemma le_dec_enc_small: "n < 256 ^ k \<Longrightarrow> le_dec (le_enc k n) = n"
  by (simp add: le_dec_enc)

lemma le_dec_bound: "le_dec bs < 256 ^ length bs"
proof (induction bs)
  case (Cons b bs)
  have "unat b < 256"
    using unsigned_less [of b] by simp
  with Cons.IH show ?case by simp
qed simp

lemma le_enc_dec: "length bs = k \<Longrightarrow> le_enc k (le_dec bs) = bs"
proof (induction bs arbitrary: k)
  case (Cons b bs)
  have b: "unat b < 256"
    using unsigned_less [of b] by simp
  have "word_of_nat (unat b + 256 * le_dec bs) = (word_of_nat (unat b) :: byte)"
    by (rule word_of_nat_eq_iff [THEN iffD2]) (simp add: take_bit_eq_mod)
  with Cons b show ?case by auto
qed simp

lemma be_dec_enc [byte_simps]: "be_dec (be_enc k n) = n mod 256 ^ k"
  by (simp add: be_dec_def be_enc_def le_dec_enc)

lemma le_enc_inject: "m < 256 ^ k \<Longrightarrow> n < 256 ^ k \<Longrightarrow> le_enc k m = le_enc k n \<longleftrightarrow> m = n"
  by (metis le_dec_enc_small)

lemma be_enc_inject: "m < 256 ^ k \<Longrightarrow> n < 256 ^ k \<Longrightarrow> be_enc k m = be_enc k n \<longleftrightarrow> m = n"
  by (simp add: be_enc_def le_enc_inject)

lemma unat_u8_of_nat: "n < 2 ^ 8 \<Longrightarrow> unat (word_of_nat n :: byte) = n"
  by (simp add: unat_of_nat)

lemma unat_u16_of_nat: "n < 2 ^ 16 \<Longrightarrow> unat (word_of_nat n :: u16) = n"
  by (simp add: unat_of_nat)

lemma unat_u32_of_nat: "n < 2 ^ 32 \<Longrightarrow> unat (word_of_nat n :: u32) = n"
  by (simp add: unat_of_nat)

lemma unat_u64_of_nat: "n < 2 ^ 64 \<Longrightarrow> unat (word_of_nat n :: u64) = n"
  by (simp add: unat_of_nat)

lemma unat_u8_bound: "unat (w :: byte) < 256"
  by (rule order_less_le_trans [OF unsigned_less]) simp

lemma unat_u16_bound: "unat (w :: u16) < 65536"
  by (rule order_less_le_trans [OF unsigned_less]) simp

lemma unat_u32_bound: "unat (w :: u32) < 4294967296"
  by (rule order_less_le_trans [OF unsigned_less]) simp

lemma unat_u64_bound: "unat (w :: u64) < 18446744073709551616"
  by (rule order_less_le_trans [OF unsigned_less]) simp

lemma word_succ_less:
  assumes "x \<noteq> (- 1 :: u64)"
  shows "x < x + 1"
proof -
  have "x < - 1" using assms word_order.not_eq_extremum by blast
  then have "unat x < 2 ^ 64 - 1"
    by (simp add: word_less_nat_alt unsigned_minus_1_eq_mask mask_eq_exp_minus_1)
  then show ?thesis by (simp add: word_less_nat_alt unat_word_ariths)
qed

text \<open>The length of a \<open>w\<close>-bit word's encoding fits, so words round-trip exactly.\<close>

lemma le_dec_unat16 [byte_simps]: "le_dec (le_enc 2 (unat (w :: u16))) = unat w"
  by (rule le_dec_enc_small) (use unat_u16_bound [of w] in simp)

lemma le_dec_unat32 [byte_simps]: "le_dec (le_enc 4 (unat (w :: u32))) = unat w"
  by (rule le_dec_enc_small) (use unat_u32_bound [of w] in simp)

lemma le_dec_unat64 [byte_simps]: "le_dec (le_enc 8 (unat (w :: u64))) = unat w"
  by (rule le_dec_enc_small) (use unat_u64_bound [of w] in simp)

text \<open>\<open>u32::from_le_bytes(bs[a..a + 4])\<close> and its like, where the range is known to be inside.\<close>

definition dec_u16 :: "byte list \<Rightarrow> nat \<Rightarrow> u16" where "dec_u16 bs a = word_of_nat (le_dec (subl bs a (a + 2)))"
definition dec_u32 :: "byte list \<Rightarrow> nat \<Rightarrow> u32" where "dec_u32 bs a = word_of_nat (le_dec (subl bs a (a + 4)))"
definition dec_u64 :: "byte list \<Rightarrow> nat \<Rightarrow> u64" where "dec_u64 bs a = word_of_nat (le_dec (subl bs a (a + 8)))"

lemma dec_words:
  "length xs = a \<Longrightarrow> dec_u16 (xs @ le_enc 2 (unat w16) @ ys) a = w16"
  "length xs = a \<Longrightarrow> dec_u32 (xs @ le_enc 4 (unat w32) @ ys) a = w32"
  "length xs = a \<Longrightarrow> dec_u64 (xs @ le_enc 8 (unat w64) @ ys) a = w64"
  by (simp_all add: dec_u16_def dec_u32_def dec_u64_def subl_mid le_dec_unat16 le_dec_unat32 le_dec_unat64)

subsection \<open>Lexicographic order of equal-length encodings\<close>

lemma less_append_same: "(zs @ xs < zs @ ys) = (xs < (ys :: 'a :: linorder list))"
  by (induction zs) auto

lemma less_append_diff: "length xs = length ys \<Longrightarrow> xs \<noteq> ys \<Longrightarrow>
    (xs @ us < ys @ vs) = (xs < (ys :: 'a :: linorder list))"
  by (induction xs ys rule: list_induct2) auto

lemma be_enc_snoc: "be_enc (Suc k) n = be_enc k (n div 256) @ [word_of_nat n]"
  by (simp add: be_enc_def)

lemma byte_of_nat_less: "(word_of_nat m :: byte) < word_of_nat n \<longleftrightarrow> m mod 256 < n mod 256"
  by (simp add: word_less_nat_alt unat_byte_of_nat)

lemma be_enc_less: "m < 256 ^ k \<Longrightarrow> n < 256 ^ k \<Longrightarrow> be_enc k m < be_enc k n \<longleftrightarrow> m < n"
proof (induction k arbitrary: m n)
  case 0
  then show ?case by simp
next
  case (Suc k)
  have dm: "m div 256 < 256 ^ k" and dn: "n div 256 < 256 ^ k"
    using Suc.prems by (auto simp: less_mult_imp_div_less mult.commute)
  show ?case
  proof (cases "m div 256 = n div 256")
    case True
    then have "m < n \<longleftrightarrow> m mod 256 < n mod 256"
      by (metis mult_div_mod_eq nat_add_left_cancel_less)
    with True show ?thesis
      by (simp add: be_enc_snoc less_append_same byte_of_nat_less)
  next
    case False
    then have ne: "be_enc k (m div 256) \<noteq> be_enc k (n div 256)"
      using be_enc_inject [OF dm dn] by simp
    have "m < n \<longleftrightarrow> m div 256 < n div 256"
      using False by (metis div_le_mono leD le_neq_implies_less linorder_le_cases not_le)
    with ne show ?thesis
      by (simp add: be_enc_snoc less_append_diff Suc.IH [OF dm dn])
  qed
qed

subsection \<open>Sorted association lists\<close>

abbreviation ascending :: "('k :: linorder \<times> 'v) list \<Rightarrow> bool" where
  "ascending kvs \<equiv> sorted_wrt (<) (map fst kvs)"

text \<open>
  A \<open>BTreeMap\<close> is an association list in ascending key order: \<open>get\<close> is \<^const>\<open>map_of\<close>, iteration is
  the list itself. \<open>bt_or_insert\<close> is \<open>entry(k).or_insert(v)\<close>.
\<close>

fun bt_insert :: "'k :: linorder \<Rightarrow> 'v \<Rightarrow> ('k \<times> 'v) list \<Rightarrow> ('k \<times> 'v) list" where
  "bt_insert k v [] = [(k, v)]"
| "bt_insert k v ((k', v') # m) =
     (if k < k' then (k, v) # (k', v') # m else if k = k' then (k, v) # m else (k', v') # bt_insert k v m)"

definition bt_or_insert :: "'k :: linorder \<Rightarrow> 'v \<Rightarrow> ('k \<times> 'v) list \<Rightarrow> ('k \<times> 'v) list" where
  "bt_or_insert k v m = (case map_of m k of None \<Rightarrow> bt_insert k v m | Some _ \<Rightarrow> m)"

definition bt_remove :: "'k :: linorder \<Rightarrow> ('k \<times> 'v) list \<Rightarrow> ('k \<times> 'v) list" where
  "bt_remove k m = filter (\<lambda>(k', v). k' \<noteq> k) m"

definition bt_range :: "'k :: linorder \<Rightarrow> 'k \<Rightarrow> ('k \<times> 'v) list \<Rightarrow> ('k \<times> 'v) list" where
  "bt_range a b m = filter (\<lambda>(k, v). a \<le> k \<and> k < b) m"

named_theorems bt_simps \<open>ordered maps as functions\<close>

lemma map_of_bt_insert [bt_simps]: "ascending m \<Longrightarrow> map_of (bt_insert k v m) = (map_of m)(k \<mapsto> v)"
  by (induction k v m rule: bt_insert.induct) (auto simp: fun_eq_iff map_of_eq_None_iff)

lemma set_bt_insert_keys [simp]: "fst ` set (bt_insert k v m) = insert k (fst ` set m)"
  by (induction k v m rule: bt_insert.induct) auto

lemma in_bt_insertD: "(a, b) \<in> set (bt_insert k v m) \<Longrightarrow> a = k \<or> (a, b) \<in> set m"
  by (induction k v m rule: bt_insert.induct) (auto split: if_splits)

lemma ascending_bt_insert [intro, simp]: "ascending m \<Longrightarrow> ascending (bt_insert k v m)"
  by (induction k v m rule: bt_insert.induct) (fastforce dest: in_bt_insertD)+

lemma ascending_filter [intro, simp]: "ascending m \<Longrightarrow> ascending (filter P m)"
  by (induction m) auto

lemma map_of_bt_or_insert [bt_simps]:
  "ascending m \<Longrightarrow> map_of (bt_or_insert k v m) = (\<lambda>k'. case map_of m k' of None \<Rightarrow> if k' = k then Some v else None | Some x \<Rightarrow> Some x)"
  by (auto simp: bt_or_insert_def bt_simps fun_eq_iff split: option.splits)

lemma ascending_bt_or_insert [intro, simp]: "ascending m \<Longrightarrow> ascending (bt_or_insert k v m)"
  by (simp add: bt_or_insert_def split: option.splits)

lemma map_of_bt_remove [bt_simps]: "map_of (bt_remove k m) = (map_of m)(k := None)"
  by (induction m) (auto simp: bt_remove_def fun_eq_iff)

lemma ascending_bt_remove [intro, simp]: "ascending m \<Longrightarrow> ascending (bt_remove k m)"
  by (simp add: bt_remove_def)

lemma map_of_filter_ascending [bt_simps]:
  "ascending m \<Longrightarrow> map_of (filter (\<lambda>(k, v). P k v) m) k = (case map_of m k of None \<Rightarrow> None | Some v \<Rightarrow> if P k v then Some v else None)"
  by (induction m) (auto simp: map_of_eq_None_iff split: option.splits)

lemma map_of_bt_range [bt_simps]:
  "ascending m \<Longrightarrow> map_of (bt_range a b m) k = (if a \<le> k \<and> k < b then map_of m k else None)"
  by (simp add: bt_range_def map_of_filter_ascending split: option.splits)

lemma ascending_distinct: "ascending m \<Longrightarrow> distinct (map fst m)"
  by (metis strict_sorted_iff)

lemma ascending_map_of_inject:
  assumes "ascending xs" "ascending ys" "map_of xs = map_of ys"
  shows "xs = ys"
proof -
  have d: "distinct (map fst xs)" "distinct (map fst ys)"
    using assms(1,2) by (auto intro: ascending_distinct)
  then have eq: "set xs = set ys"
    using assms(3) by (simp add: map_of_inject_set)
  have "sorted (map fst xs)" "sorted (map fst ys)"
    using assms(1,2) strict_sorted_iff by auto
  with d eq show ?thesis
    by (intro map_sorted_distinct_set_unique [where f = fst]) (auto simp: distinct_map)
qed

subsection \<open>Hash sets\<close>

text \<open>
  A \<open>HashSet\<close> is a list without duplicates whose order stands for the iteration order; a \<open>HashMap\<close> is a map,
  and \<open>entry(k).or_default()\<close> reads a set of such a map.
\<close>

definition or_default :: "'a list option \<Rightarrow> 'a list" where
  "or_default v = (case v of None \<Rightarrow> [] | Some xs \<Rightarrow> xs)"

definition hs_insert :: "'a \<Rightarrow> 'a list \<Rightarrow> 'a list" where
  "hs_insert x xs = (if x \<in> set xs then xs else x # xs)"

definition hs_remove :: "'a \<Rightarrow> 'a list \<Rightarrow> 'a list" where
  "hs_remove x xs = filter (\<lambda>y. y \<noteq> x) xs"

lemma set_hs_insert [simp]: "set (hs_insert x xs) = insert x (set xs)"
  by (auto simp: hs_insert_def)

lemma set_hs_remove [simp]: "set (hs_remove x xs) = set xs - {x}"
  by (auto simp: hs_remove_def)

lemma set_fold_hs_insert [simp]: "set (fold hs_insert xs ys) = set xs \<union> set ys"
  by (induction xs arbitrary: ys) auto

lemma or_default_simps [simp]: "or_default None = []" "or_default (Some xs) = xs"
  by (simp_all add: or_default_def)

lemma distinct_hs_insert [simp]: "distinct (hs_insert x xs) = distinct xs"
  by (simp add: hs_insert_def)

lemma distinct_hs_remove [simp]: "distinct xs \<Longrightarrow> distinct (hs_remove x xs)"
  by (simp add: hs_remove_def)

end
