(* ===== verification/Coding.thy ===== *)
theory Coding
  imports Prelude
begin

unbundle bit_operations_syntax

section \<open>Variable- and fixed-width integers of the LSM files\<close>

text \<open>
  \<open>src/src/storage/lsm/coding.rs\<close>: LEB128 varints (seven payload bits per byte, high bit set
  while more bytes follow) and little-endian \<open>u32\<close>. A writer appends to the buffer; a reader
  takes the data and a position and returns the value with the advanced position. The two widths
  share one loop, polymorphic in the word length.
\<close>

text \<open>The bytes the loop \<open>while value >= 0x80 { push; value >>= 7 } push\<close> pushes.\<close>

lemma unat_drop_bit_7: "unat (drop_bit 7 v) = unat v div 128"
  unfolding unat_drop_bit_eq by (simp add: drop_bit_eq_div)

function varint_bytes :: "'a :: len word \<Rightarrow> byte list" where
  "varint_bytes value =
     (if 0x80 \<le> unat value
      then (ucast value OR 0x80) # varint_bytes (drop_bit 7 value)
      else [ucast value])"
  by pat_completeness auto

termination
  by (relation "measure unat") (auto simp: unat_drop_bit_7)

declare varint_bytes.simps [simp del]

definition put_varint32 :: "byte list \<Rightarrow> u32 \<Rightarrow> byte list" where
  "put_varint32 buf value = buf @ varint_bytes value"

definition put_varint64 :: "byte list \<Rightarrow> u64 \<Rightarrow> byte list" where
  "put_varint64 buf value = buf @ varint_bytes value"

definition take_byte :: "byte list \<Rightarrow> nat \<Rightarrow> (byte \<times> nat) result" where
  "take_byte data pos =
     (if pos < length data then Ok (data ! pos, pos + 1) else Err (Runtime ''truncated varint''))"

fun get_varint :: "string \<Rightarrow> byte list \<Rightarrow> nat list \<Rightarrow> nat \<Rightarrow> 'a :: len word \<Rightarrow> ('a word \<times> nat) result" where
  "get_varint msg data [] pos res = Err (Runtime msg)"
| "get_varint msg data (shift # shifts) pos res =
     bindR (take_byte data pos) (\<lambda>(byte, pos').
       let res' = res OR push_bit shift (ucast (byte AND 0x7f))
       in if byte AND 0x80 = 0 then Ok (res', pos') else get_varint msg data shifts pos' res')"

definition varint_shifts :: "nat \<Rightarrow> nat list" where
  "varint_shifts n = map (\<lambda>i. 7 * i) [0..<n]"

definition get_varint32 :: "byte list \<Rightarrow> nat \<Rightarrow> (u32 \<times> nat) result" where
  "get_varint32 data pos = get_varint ''varint32 overflows 32 bits'' data (varint_shifts 5) pos 0"

definition get_varint64 :: "byte list \<Rightarrow> nat \<Rightarrow> (u64 \<times> nat) result" where
  "get_varint64 data pos = get_varint ''varint64 overflows 64 bits'' data (varint_shifts 10) pos 0"

definition put_fixed32 :: "byte list \<Rightarrow> u32 \<Rightarrow> byte list" where
  "put_fixed32 buf value = buf @ le_enc 4 (unat value)"

definition take_n :: "byte list \<Rightarrow> nat \<Rightarrow> nat \<Rightarrow> (byte list \<times> nat) result" where
  "take_n data pos n =
     (if pos + n > length data then Err (Runtime ''truncated block data'')
      else Ok (subl data pos (pos + n), pos + n))"

definition get_fixed32 :: "byte list \<Rightarrow> nat \<Rightarrow> (u32 \<times> nat) result" where
  "get_fixed32 data pos = bindR (take_n data pos 4) (\<lambda>(b, pos'). Ok (word_of_nat (le_dec b), pos'))"

subsection \<open>Round trips\<close>

lemma take_bit_unat_self: "unat v < 2 ^ k \<Longrightarrow> take_bit k v = v"
  by (simp add: word_unat_eq_iff unsigned_take_bit_eq take_bit_nat_eq_self)

lemma bit_unat_less: "unat v < 2 ^ k \<Longrightarrow> bit v n \<Longrightarrow> n < k"
  by (metis bit_take_bit_iff take_bit_unat_self)

lemma bit_unat_128: "unat v < 128 \<Longrightarrow> bit v n \<Longrightarrow> n < 7"
  using bit_unat_less [of v 7 n] by simp

lemma byte_0x7f: "(0x7f :: byte) = mask 7"
  by (simp add: mask_eq_exp_minus_1)

lemma byte_0x80: "(0x80 :: byte) = push_bit 7 1"
  by simp

lemma cont_byte_payload: "(ucast v OR 0x80 :: byte) AND 0x7f = ucast (take_bit 7 v)"
  unfolding byte_0x7f byte_0x80
  by (rule bit_word_eqI) (auto simp: bit_simps simp del: push_bit_of_1)

lemma cont_byte_flag: "(ucast v OR 0x80 :: byte) AND 0x80 \<noteq> 0"
proof
  assume "(ucast v OR 0x80 :: byte) AND 0x80 = 0"
  then have "bit ((ucast v OR 0x80 :: byte) AND 0x80) 7 = bit (0 :: byte) 7" by simp
  then show False by (simp add: bit_simps)
qed

lemma last_byte_payload: "unat v < 128 \<Longrightarrow> (ucast v :: byte) AND 0x7f = ucast v"
  unfolding byte_0x7f
  by (rule bit_word_eqI) (auto simp: bit_simps dest: bit_unat_128)

lemma last_byte_flag: "unat v < 128 \<Longrightarrow> (ucast v :: byte) AND 0x80 = 0"
  unfolding byte_0x80
  by (rule bit_word_eqI) (auto simp: bit_simps simp del: push_bit_of_1 dest: bit_unat_128)

lemma ucast_byte_small: "unat v < 128 \<Longrightarrow> ucast (ucast v :: byte) = v"
  by (rule bit_word_eqI) (fastforce simp: bit_simps dest: bit_unat_128)

lemma ucast_byte_take7: "ucast (ucast (take_bit 7 v) :: byte) = take_bit 7 v"
  by (rule bit_word_eqI) (auto simp: bit_simps)

lemma push_bit_recombine:
  "push_bit s (take_bit 7 v) OR push_bit (s + 7) (drop_bit 7 v) = push_bit s v" for v :: "'a :: len word"
proof (rule bit_word_eqI)
  fix n
  show "bit (push_bit s (take_bit 7 v) OR push_bit (s + 7) (drop_bit 7 v)) n = bit (push_bit s v) n"
  proof (cases "n - s < 7")
    case False
    then have "7 + (n - (s + 7)) = n - s" by simp
    with False show ?thesis by (auto simp: bit_simps)
  qed (auto simp: bit_simps)
qed

lemma get_varint_encoded:
  assumes "unat v < 2 ^ (7 * n)" and "0 < n" and "pos = length pre"
  shows "get_varint msg (pre @ varint_bytes v @ post) (map (\<lambda>i. 7 * i) [j..<j + n]) pos res
       = Ok (res OR push_bit (7 * j) v, pos + length (varint_bytes v))"
  using assms
proof (induction n arbitrary: v pre pos j res)
  case 0
  then show ?case by simp
next
  case (Suc n)
  have shifts: "map (\<lambda>i. 7 * i) [j..<j + Suc n] = (7 * j) # map (\<lambda>i. 7 * i) [Suc j..<Suc j + n]"
    by (simp add: upt_rec)
  show ?case
  proof (cases "0x80 \<le> unat v")
    case True
    let ?b = "ucast v OR 0x80 :: byte"
    have enc: "varint_bytes v = ?b # varint_bytes (drop_bit 7 v)"
      using True by (subst varint_bytes.simps) simp
    have n: "0 < n"
      using True Suc.prems(1) by (cases n) auto
    have small: "unat (drop_bit 7 v) < 2 ^ (7 * n)"
      using Suc.prems(1) by (simp add: unat_drop_bit_7 power_add less_mult_imp_div_less mult.commute)
    have "get_varint msg ((pre @ [?b]) @ varint_bytes (drop_bit 7 v) @ post)
            (map (\<lambda>i. 7 * i) [Suc j..<Suc j + n]) (Suc pos) (res OR push_bit (7 * j) (ucast (?b AND 0x7f)))
        = Ok ((res OR push_bit (7 * j) (ucast (?b AND 0x7f))) OR push_bit (7 * Suc j) (drop_bit 7 v),
              Suc pos + length (varint_bytes (drop_bit 7 v)))"
      by (rule Suc.IH) (use small n Suc.prems(3) in simp_all)
    moreover have "(res OR push_bit (7 * j) (ucast (?b AND 0x7f))) OR push_bit (7 * Suc j) (drop_bit 7 v)
        = res OR push_bit (7 * j) v"
      using push_bit_recombine [of "7 * j" v]
      by (simp add: cont_byte_payload ucast_byte_take7 or.assoc add.commute)
    ultimately show ?thesis
      using cont_byte_flag [of v] Suc.prems(3) unfolding shifts enc
      by (simp add: take_byte_def nth_append Let_def)
  next
    case False
    then have "varint_bytes v = [ucast v]"
      by (subst varint_bytes.simps) simp
    with False Suc.prems(3) show ?thesis
      unfolding shifts
      by (simp add: take_byte_def nth_append Let_def last_byte_payload last_byte_flag ucast_byte_small)
  qed
qed

lemma get_varint32_encoded [byte_simps]:
  "pos = length pre \<Longrightarrow> get_varint32 (pre @ varint_bytes v @ post) pos = Ok (v, pos + length (varint_bytes v))"
  using get_varint_encoded [of v 5 pos pre "''varint32 overflows 32 bits''" post 0 0] unat_u32_bound [of v]
  by (simp add: get_varint32_def varint_shifts_def)

lemma get_varint64_encoded [byte_simps]:
  "pos = length pre \<Longrightarrow> get_varint64 (pre @ varint_bytes v @ post) pos = Ok (v, pos + length (varint_bytes v))"
  using get_varint_encoded [of v 10 pos pre "''varint64 overflows 64 bits''" post 0 0] unat_u64_bound [of v]
  by (simp add: get_varint64_def varint_shifts_def)

lemma get_fixed32_encoded [byte_simps]:
  "pos = length pre \<Longrightarrow> get_fixed32 (pre @ le_enc 4 (unat v) @ post) pos = Ok (v, pos + 4)"
  by (simp add: get_fixed32_def take_n_def subl_mid le_dec_unat32)

lemma varint_bytes_nonempty [simp]: "varint_bytes v \<noteq> []"
  by (subst varint_bytes.simps) simp

lemma varint_bytes_length: "unat v < 2 ^ (7 * n) \<Longrightarrow> 0 < n \<Longrightarrow> length (varint_bytes v) \<le> n"
proof (induction n arbitrary: v)
  case (Suc n)
  show ?case
  proof (cases "0x80 \<le> unat v")
    case True
    have "0 < n"
      using True Suc.prems(1) by (cases n) auto
    moreover have "unat (drop_bit 7 v) < 2 ^ (7 * n)"
      using Suc.prems(1) by (simp add: unat_drop_bit_7 power_add less_mult_imp_div_less mult.commute)
    ultimately have "length (varint_bytes (drop_bit 7 v)) \<le> n"
      by (intro Suc.IH)
    with True show ?thesis by (subst varint_bytes.simps) simp
  qed (subst varint_bytes.simps, simp)
qed simp

lemma varint32_length: "length (varint_bytes (v :: u32)) \<le> 5"
  by (rule varint_bytes_length) (use unat_u32_bound [of v] in simp_all)

lemma varint64_length: "length (varint_bytes (v :: u64)) \<le> 10"
  by (rule varint_bytes_length) (use unat_u64_bound [of v] in simp_all)

lemma get_varint_pos:
  "get_varint msg data shifts pos res = Ok (v, pos') \<Longrightarrow> pos < pos' \<and> pos' \<le> length data"
  by (induction msg data shifts pos res rule: get_varint.induct)
    (fastforce simp: take_byte_def Let_def split: if_splits)+

text \<open>
  Every integer the tables store comes back: reading after the bytes already in a buffer
  returns the value that was appended there and the position right after its encoding, whatever
  follows. This holds for 32- and 64-bit varints over the whole range of the type and for
  fixed 32-bit fields; varints take at most 5 and 10 bytes.
\<close>

lemma coding_roundtrip:
  fixes v :: u32 and w :: u64
  shows "get_varint32 (put_varint32 buf v @ rest) (length buf) = Ok (v, length (put_varint32 buf v)) \<and>
    get_varint64 (put_varint64 buf w @ rest) (length buf) = Ok (w, length (put_varint64 buf w)) \<and>
    get_fixed32 (put_fixed32 buf v @ rest) (length buf) = Ok (v, length (put_fixed32 buf v)) \<and>
    length (put_varint32 [] v) \<le> 5 \<and> length (put_varint64 [] w) \<le> 10"
  by (simp add: put_varint32_def put_varint64_def put_fixed32_def get_varint32_encoded
      get_varint64_encoded get_fixed32_encoded varint32_length varint64_length)

end
