(* ===== verification/Block.thy ===== *)
theory Block
  imports Coding
begin

section \<open>Sorted string table data blocks\<close>

text \<open>
  \<open>src/src/storage/lsm/block.rs\<close>: a block is a run of prefix-compressed entries followed by an
  array of restart offsets. The record \<open>block_builder\<close> is \<open>BlockBuilder\<close>, \<open>block\<close> is \<open>Block\<close> and
  \<open>decoded_entry\<close> is \<open>DecodedEntry\<close>. The loops of \<open>get\<close> and \<open>entries\<close> terminate because every
  decoded entry ends after it starts (\<open>decode_progress\<close>).

  The lemmas show that a parsed block lists exactly the entries added to its builder and that a
  lookup (binary search over the restarts, then a linear scan) is the association of the key.
\<close>

record block_builder =
  bb_buffer :: "byte list"
  bb_restarts :: "u32 list"
  bb_counter :: nat
  bb_last_key :: "byte list"
  bb_restart_interval :: nat

definition DEFAULT_RESTART_INTERVAL :: nat where
  "DEFAULT_RESTART_INTERVAL = 16"

definition bb_new :: "nat \<Rightarrow> block_builder" where
  "bb_new restart_interval =
     \<lparr>bb_buffer = [], bb_restarts = [0], bb_counter = 0, bb_last_key = [],
      bb_restart_interval = max restart_interval 1\<rparr>"

definition bb_is_empty :: "block_builder \<Rightarrow> bool" where
  "bb_is_empty b \<longleftrightarrow> bb_buffer b = []"

definition bb_size_estimate :: "block_builder \<Rightarrow> nat" where
  "bb_size_estimate b = length (bb_buffer b) + length (bb_restarts b) * 4 + 4"

fun common_prefix :: "byte list \<Rightarrow> byte list \<Rightarrow> nat" where
  "common_prefix (a # as) (b # bs) = (if a = b then Suc (common_prefix as bs) else 0)"
| "common_prefix _ _ = 0"

definition bb_add :: "block_builder \<Rightarrow> byte list \<Rightarrow> byte list \<Rightarrow> block_builder" where
  "bb_add b key value =
     (let (shared, restarts, counter) =
            (if bb_counter b < bb_restart_interval b
             then (common_prefix (bb_last_key b) key, bb_restarts b, bb_counter b)
             else (0, bb_restarts b @ [word_of_nat (length (bb_buffer b))], 0));
          non_shared = length key - shared;
          buffer = put_varint32 (bb_buffer b) (word_of_nat shared);
          buffer = put_varint32 buffer (word_of_nat non_shared);
          buffer = put_varint32 buffer (word_of_nat (length value));
          buffer = buffer @ drop shared key;
          buffer = buffer @ value
      in b\<lparr>bb_buffer := buffer, bb_restarts := restarts, bb_counter := counter + 1, bb_last_key := key\<rparr>)"

definition bb_finish :: "block_builder \<Rightarrow> byte list \<times> block_builder" where
  "bb_finish b =
     (let restarts = (if bb_buffer b = [] then [] else bb_restarts b);
          buffer = fold (\<lambda>r buf. put_fixed32 buf r) restarts (bb_buffer b);
          buffer = put_fixed32 buffer (word_of_nat (length restarts))
      in (buffer, b\<lparr>bb_buffer := [], bb_restarts := [0], bb_counter := 0, bb_last_key := []\<rparr>))"

record block =
  bk_data :: "byte list"
  bk_restarts :: "u32 list"
  bk_restart_array_start :: nat

fun read_restarts :: "byte list \<Rightarrow> nat \<Rightarrow> nat \<Rightarrow> u32 list result" where
  "read_restarts data rpos 0 = Ok []"
| "read_restarts data rpos (Suc n) =
     bindR (get_fixed32 data rpos) (\<lambda>(r, rpos'). bindR (read_restarts data rpos' n) (\<lambda>rs. Ok (r # rs)))"

fun check_restarts :: "nat \<Rightarrow> u32 option \<Rightarrow> u32 list \<Rightarrow> unit result" where
  "check_restarts ras previous [] = Ok ()"
| "check_restarts ras previous (restart # rs) =
     (if unat restart \<ge> max ras 1 then Err (Runtime ''block restart offset out of range'')
      else if (case previous of None \<Rightarrow> False | Some prev \<Rightarrow> restart \<le> prev)
      then Err (Runtime ''block restart offsets are not sorted'')
      else check_restarts ras (Some restart) rs)"

definition block_parse :: "byte list \<Rightarrow> block result" where
  "block_parse data =
     (if length data < 4 then Err (Runtime ''block is too short'')
      else bindR (get_fixed32 data (length data - 4)) (\<lambda>(num, _).
        let num_restarts = unat num; restart_bytes = num_restarts * 4 in
        if restart_bytes \<ge> 2 ^ 64 then Err (Runtime ''block restart count overflows'')
        else if length data < 4 + restart_bytes then Err (Runtime ''block restart array is truncated'')
        else let ras = length data - 4 - restart_bytes in
          bindR (read_restarts data ras num_restarts) (\<lambda>restarts.
          bindR (check_restarts ras None restarts) (\<lambda>_.
            Ok \<lparr>bk_data = data, bk_restarts = restarts, bk_restart_array_start = ras\<rparr>))))"

definition block_is_empty :: "block \<Rightarrow> bool" where
  "block_is_empty b \<longleftrightarrow> bk_restarts b = []"

record decoded_entry =
  de_shared :: nat
  de_non_shared :: nat
  de_value_len :: nat
  de_key_offset :: nat
  de_value_offset :: nat
  de_next :: nat
  de_key :: "byte list"

definition block_decode :: "block \<Rightarrow> nat \<Rightarrow> decoded_entry result" where
  "block_decode b offset =
     (if offset \<ge> bk_restart_array_start b then Err (Runtime ''block entry offset out of range'')
      else bindR (get_varint32 (bk_data b) offset) (\<lambda>(shared, pos).
        bindR (get_varint32 (bk_data b) pos) (\<lambda>(non_shared, pos).
        bindR (get_varint32 (bk_data b) pos) (\<lambda>(value_len, pos).
          let key_offset = pos; value_offset = key_offset + unat non_shared;
              next = value_offset + unat value_len in
          if next > bk_restart_array_start b
          then Err (Runtime ''block entry runs past the restart array'')
          else Ok \<lparr>de_shared = unat shared, de_non_shared = unat non_shared,
                   de_value_len = unat value_len, de_key_offset = key_offset,
                   de_value_offset = value_offset, de_next = next, de_key = []\<rparr>))))"

definition entry_at :: "block \<Rightarrow> nat \<Rightarrow> decoded_entry result" where
  "entry_at b offset =
     bindR (block_decode b offset) (\<lambda>entry.
       if de_shared entry \<noteq> 0 then Err (Runtime ''restart entry must not share a prefix'')
       else bindR (rng (bk_data b) (de_key_offset entry) (de_key_offset entry + de_non_shared entry))
         (\<lambda>key. Ok (entry\<lparr>de_key := key\<rparr>)))"

definition block_first_key :: "block \<Rightarrow> byte list option result" where
  "block_first_key b =
     (case bk_restarts b of
        [] \<Rightarrow> Ok None
      | offset # _ \<Rightarrow> bindR (entry_at b (unat offset)) (\<lambda>e. Ok (Some (de_key e))))"

lemma get_varint32_pos: "get_varint32 data pos = Ok (v, pos') \<Longrightarrow> pos < pos' \<and> pos' \<le> length data"
  unfolding get_varint32_def by (rule get_varint_pos)

lemma decode_progress:
  assumes "block_decode b off = Ok e"
  shows "off < de_next e" "de_next e \<le> bk_restart_array_start b"
    "de_key_offset e + de_non_shared e = de_value_offset e"
    "de_value_offset e + de_value_len e = de_next e"
  using assms
  by (fastforce simp: block_decode_def res_simps Let_def split: if_splits dest!: get_varint32_pos)+

text \<open>The binary search of \<open>get\<close>: the number of restarts whose key is below \<open>key\<close>.\<close>

function restart_search :: "block \<Rightarrow> byte list \<Rightarrow> nat \<Rightarrow> nat \<Rightarrow> nat result" where
  "restart_search b key left right =
     (if left < right
      then let mid = (left + right) div 2 in
        bindR (idx (bk_restarts b) mid) (\<lambda>r.
        bindR (entry_at b (unat r)) (\<lambda>e.
          if de_key e < key then restart_search b key (mid + 1) right
          else restart_search b key left mid))
      else Ok left)"
  by pat_completeness auto

termination
  by (relation "measure (\<lambda>(b, key, left, right). right - left)") auto

declare restart_search.simps [simp del]

text \<open>The scan of \<open>get\<close> from a restart, rebuilding each key in \<open>current\<close>.\<close>

function block_scan :: "block \<Rightarrow> byte list \<Rightarrow> byte list \<Rightarrow> nat \<Rightarrow> byte list option result" where
  "block_scan b key current offset =
     (if offset < bk_restart_array_start b
      then bindR (block_decode b offset) (\<lambda>entry.
        bindR (rng (bk_data b) (de_key_offset entry) (de_key_offset entry + de_non_shared entry)) (\<lambda>suffix.
          let current' = take (de_shared entry) current @ suffix in
          if current' < key then block_scan b key current' (de_next entry)
          else if current' = key
          then bindR (rng (bk_data b) (de_value_offset entry) (de_value_offset entry + de_value_len entry))
                 (\<lambda>value. Ok (Some value))
          else Ok None))
      else Ok None)"
  by pat_completeness auto

termination
  by (relation "measure (\<lambda>(b, key, current, offset). bk_restart_array_start b - offset)")
    (auto dest: decode_progress)

declare block_scan.simps [simp del]

definition block_get :: "block \<Rightarrow> byte list \<Rightarrow> byte list option result" where
  "block_get b key =
     (if bk_restarts b = [] then Ok None
      else bindR (restart_search b key 0 (length (bk_restarts b))) (\<lambda>left.
        bindR (if left = 0 then Ok 0
               else bindR (idx (bk_restarts b) (left - 1)) (\<lambda>r. Ok (unat r))) (\<lambda>start.
          block_scan b key [] start)))"

function block_entries_from ::
  "block \<Rightarrow> byte list \<Rightarrow> nat \<Rightarrow> (byte list \<times> byte list) list result" where
  "block_entries_from b current offset =
     (if offset < bk_restart_array_start b
      then bindR (block_decode b offset) (\<lambda>entry.
        bindR (rng (bk_data b) (de_key_offset entry) (de_key_offset entry + de_non_shared entry)) (\<lambda>suffix.
        bindR (rng (bk_data b) (de_value_offset entry) (de_value_offset entry + de_value_len entry)) (\<lambda>value.
          let current' = take (de_shared entry) current @ suffix in
          bindR (block_entries_from b current' (de_next entry)) (\<lambda>out. Ok ((current', value) # out)))))
      else Ok [])"
  by pat_completeness auto

termination
  by (relation "measure (\<lambda>(b, current, offset). bk_restart_array_start b - offset)")
    (auto dest: decode_progress)

declare block_entries_from.simps [simp del]

definition block_entries :: "block \<Rightarrow> (byte list \<times> byte list) list result" where
  "block_entries b = block_entries_from b [] 0"

subsection \<open>The layout of a finished block\<close>

definition entry_head :: "nat \<Rightarrow> byte list \<Rightarrow> byte list \<Rightarrow> byte list" where
  "entry_head s k v = varint_bytes (word_of_nat s :: u32) @ varint_bytes (word_of_nat (length k - s) :: u32)
     @ varint_bytes (word_of_nat (length v) :: u32)"

definition entry_bytes :: "nat \<Rightarrow> byte list \<Rightarrow> byte list \<Rightarrow> byte list" where
  "entry_bytes s k v = entry_head s k v @ drop s k @ v"

fun run_shared :: "nat \<Rightarrow> nat \<Rightarrow> byte list \<Rightarrow> byte list \<Rightarrow> nat" where
  "run_shared ri c lk k = (if c < ri then common_prefix lk k else 0)"

fun run_counter :: "nat \<Rightarrow> nat \<Rightarrow> nat" where
  "run_counter ri c = Suc (if c < ri then c else 0)"

fun run_bytes :: "nat \<Rightarrow> nat \<Rightarrow> byte list \<Rightarrow> (byte list \<times> byte list) list \<Rightarrow> byte list" where
  "run_bytes ri c lk [] = []"
| "run_bytes ri c lk ((k, v) # kvs) =
     entry_bytes (run_shared ri c lk k) k v @ run_bytes ri (run_counter ri c) k kvs"

text \<open>Where a run restarts: the offset of each full key with the entries from there on.\<close>

fun run_restarts ::
  "nat \<Rightarrow> nat \<Rightarrow> nat \<Rightarrow> byte list \<Rightarrow> (byte list \<times> byte list) list \<Rightarrow>
   (nat \<times> (byte list \<times> byte list) list) list" where
  "run_restarts ri pos c lk [] = []"
| "run_restarts ri pos c lk ((k, v) # kvs) =
     (if c < ri then [] else [(pos, (k, v) # kvs)]) @
     run_restarts ri (pos + length (entry_bytes (run_shared ri c lk k) k v)) (run_counter ri c) k kvs"

definition small_entries :: "(byte list \<times> byte list) list \<Rightarrow> bool" where
  "small_entries kvs \<longleftrightarrow> (\<forall>(k, v) \<in> set kvs. length k < 2 ^ 32 \<and> length v < 2 ^ 32)"

lemma small_entries_Cons [simp]:
  "small_entries ((k, v) # kvs) \<longleftrightarrow> length k < 2 ^ 32 \<and> length v < 2 ^ 32 \<and> small_entries kvs"
  by (simp add: small_entries_def)

lemma common_prefix_le: "common_prefix a b \<le> length b"
  by (induction a b rule: common_prefix.induct) auto

lemma common_prefix_take: "take (common_prefix a b) a = take (common_prefix a b) b"
  by (induction a b rule: common_prefix.induct) auto

lemma take_common_prefix_drop: "take (common_prefix a b) a @ drop (common_prefix a b) b = b"
  by (metis append_take_drop_id common_prefix_take)

lemma common_prefix_Nil [simp]: "common_prefix [] b = 0"
  by (cases b) auto

lemma run_key_rebuilt: "take (run_shared ri c lk k) lk @ drop (run_shared ri c lk k) k = k"
  by (simp add: take_common_prefix_drop)

lemma run_shared_le: "run_shared ri c lk k \<le> length k"
  by (simp add: common_prefix_le)

lemma run_bytes_restart: "0 < ri \<Longrightarrow> ri \<le> c \<Longrightarrow> run_bytes ri c lk kvs = run_bytes ri 0 [] kvs"
  by (cases kvs) auto

lemma entry_bytes_nonempty: "0 < length (entry_bytes s k v)"
  by (simp add: entry_bytes_def entry_head_def)

lemma decode_entry:
  assumes data: "bk_data b = pre @ entry_bytes s k v @ post"
    and ras: "length pre + length (entry_bytes s k v) \<le> bk_restart_array_start b"
    and s: "s \<le> length k" and len: "length k < 2 ^ 32" "length v < 2 ^ 32"
    and off: "off = length pre" and ko: "ko = length pre + length (entry_head s k v)"
  shows "block_decode b off = Ok \<lparr>de_shared = s, de_non_shared = length k - s, de_value_len = length v,
      de_key_offset = ko, de_value_offset = ko + (length k - s),
      de_next = length pre + length (entry_bytes s k v), de_key = []\<rparr>" (is ?dec)
    and "rng (bk_data b) ko (ko + (length k - s)) = Ok (drop s k)" (is ?key)
    and "rng (bk_data b) (ko + (length k - s)) (ko + (length k - s) + length v) = Ok v" (is ?val)
proof -
  let ?a = "varint_bytes (word_of_nat s :: u32)" and ?b = "varint_bytes (word_of_nat (length k - s) :: u32)"
    and ?c = "varint_bytes (word_of_nat (length v) :: u32)" and ?rest = "drop s k @ v @ post"
  have d1: "bk_data b = pre @ ?a @ (?b @ ?c @ ?rest)"
    and d2: "bk_data b = (pre @ ?a) @ ?b @ (?c @ ?rest)"
    and d3: "bk_data b = (pre @ ?a @ ?b) @ ?c @ ?rest"
    by (simp_all add: data entry_bytes_def entry_head_def)
  have v1: "get_varint32 (bk_data b) (length pre) = Ok (word_of_nat s, length pre + length ?a)"
    by (subst d1) (simp add: get_varint32_encoded)
  have v2: "get_varint32 (bk_data b) (length pre + length ?a)
      = Ok (word_of_nat (length k - s), length pre + length ?a + length ?b)"
    unfolding d2 by (rule trans [OF get_varint32_encoded]) simp_all
  have v3: "get_varint32 (bk_data b) (length pre + length ?a + length ?b)
      = Ok (word_of_nat (length v), length pre + length ?a + length ?b + length ?c)"
    unfolding d3 by (rule trans [OF get_varint32_encoded]) simp_all
  have ko': "length pre + length ?a + length ?b + length ?c = ko"
    by (simp add: ko entry_head_def)
  have next': "ko + (length k - s) + length v = length pre + length (entry_bytes s k v)"
    by (simp add: ko entry_bytes_def)
  have ns: "length k - s < 2 ^ 32" "s < 2 ^ 32"
    using s len by auto
  have "\<not> bk_restart_array_start b \<le> length pre"
    using ras entry_bytes_nonempty [of s k v] by linarith
  with ras show ?dec
    by (simp add: block_decode_def off v1 v2 v3 ko' next' Let_def ns [THEN unat_u32_of_nat]
        len [THEN unat_u32_of_nat] del: of_nat_diff)
  have k: "bk_data b = (pre @ entry_head s k v) @ drop s k @ (v @ post)"
    and v: "bk_data b = (pre @ entry_head s k v @ drop s k) @ v @ post"
    by (simp_all add: data entry_bytes_def)
  show ?key
    unfolding k by (rule rng_mid) (simp_all add: ko)
  show ?val
    unfolding v by (rule rng_mid) (simp_all add: ko)
qed

lemma entries_run:
  assumes "bk_data b = pre @ run_bytes ri c lk kvs @ post"
    and "bk_restart_array_start b = length pre + length (run_bytes ri c lk kvs)"
    and "small_entries kvs" and "off = length pre"
  shows "block_entries_from b lk off = Ok kvs"
  using assms
proof (induction kvs arbitrary: pre c lk off)
  case Nil
  then show ?case by (subst block_entries_from.simps) simp
next
  case (Cons kv kvs)
  obtain k v where kv: "kv = (k, v)" by (cases kv)
  let ?s = "run_shared ri c lk k"
  let ?e = "entry_bytes ?s k v"
  let ?r = "run_bytes ri (run_counter ri c) k kvs"
  have data: "bk_data b = pre @ ?e @ (?r @ post)"
    using Cons.prems(1) kv by simp
  have ras: "length pre + length ?e \<le> bk_restart_array_start b"
    using Cons.prems(2) kv by simp
  have len: "length k < 2 ^ 32" "length v < 2 ^ 32" "small_entries kvs"
    using Cons.prems(3) kv by auto
  note dec = decode_entry [OF data ras run_shared_le len(1,2) Cons.prems(4) refl]
  have next_: "block_entries_from b k (length pre + length ?e) = Ok kvs"
    by (rule Cons.IH [of "pre @ ?e" "run_counter ri c"]) (use Cons.prems kv len in simp_all)
  have "off < bk_restart_array_start b"
    using ras Cons.prems(4) entry_bytes_nonempty [of ?s k v] by linarith
  then show ?case
    by (subst block_entries_from.simps)
      (simp add: dec kv run_key_rebuilt next_ del: run_shared.simps)
qed

lemma scan_run:
  assumes "bk_data b = pre @ run_bytes ri c lk kvs @ post"
    and "bk_restart_array_start b = length pre + length (run_bytes ri c lk kvs)"
    and "small_entries kvs" and "ascending kvs" and "off = length pre"
  shows "block_scan b key lk off = Ok (map_of kvs key)"
  using assms
proof (induction kvs arbitrary: pre c lk off)
  case Nil
  then show ?case by (subst block_scan.simps) simp
next
  case (Cons kv kvs)
  obtain k v where kv: "kv = (k, v)" by (cases kv)
  let ?s = "run_shared ri c lk k"
  let ?e = "entry_bytes ?s k v"
  have data: "bk_data b = pre @ ?e @ (run_bytes ri (run_counter ri c) k kvs @ post)"
    using Cons.prems(1) kv by simp
  have ras: "length pre + length ?e \<le> bk_restart_array_start b"
    using Cons.prems(2) kv by simp
  have len: "length k < 2 ^ 32" "length v < 2 ^ 32" "small_entries kvs"
    using Cons.prems(3) kv by auto
  note dec = decode_entry [OF data ras run_shared_le len(1,2) Cons.prems(5) refl]
  have next_: "block_scan b key k (length pre + length ?e) = Ok (map_of kvs key)"
    by (rule Cons.IH [of "pre @ ?e" "run_counter ri c"]) (use Cons.prems kv len in simp_all)
  have later: "key < k \<Longrightarrow> map_of kvs key = None"
    using Cons.prems(4) kv by (auto simp: map_of_eq_None_iff)
  have "off < bk_restart_array_start b"
    using ras Cons.prems(5) entry_bytes_nonempty [of ?s k v] by linarith
  note step = this dec kv run_key_rebuilt next_
  consider "k < key" | "key = k" | "key < k" by (meson linorder_less_linear)
  then show ?case
  proof cases
    case 2
    then show ?thesis
      by (subst block_scan.simps) (simp add: step del: run_shared.simps)
  qed (subst block_scan.simps; auto simp: step later simp del: run_shared.simps)+
qed

lemma run_restarts_point:
  assumes "0 < ri" and "(p, ys) \<in> set (run_restarts ri pos c lk kvs)"
  shows "\<exists>xs bs. kvs = xs @ ys \<and> ys \<noteq> [] \<and> p = pos + length bs
    \<and> run_bytes ri c lk kvs = bs @ run_bytes ri 0 [] ys"
  using assms(2)
proof (induction kvs arbitrary: pos c lk)
  case (Cons kv kvs)
  obtain k v where kv: "kv = (k, v)" by (cases kv)
  let ?e = "entry_bytes (run_shared ri c lk k) k v"
  show ?case
  proof (cases "(p, ys) \<in> set (run_restarts ri (pos + length ?e) (run_counter ri c) k kvs)")
    case True
    from Cons.IH [OF this] obtain xs bs where
      "kvs = xs @ ys" "ys \<noteq> []" "p = pos + length (?e @ bs)"
      "run_bytes ri (run_counter ri c) k kvs = bs @ run_bytes ri 0 [] ys"
      by auto
    then show ?thesis
      using kv entry_bytes_nonempty [of "run_shared ri c lk k" k v]
      by (intro exI [of _ "kv # xs"] exI [of _ "?e @ bs"]) (auto simp del: run_shared.simps)
  next
    case False
    with Cons.prems kv have "\<not> c < ri" "p = pos" "ys = (k, v) # kvs"
      by (auto split: if_splits)
    then show ?thesis
      using run_bytes_restart [OF assms(1), of c lk ys] kv
      by (intro exI [of _ "[]"]) auto
  qed
qed simp

definition run_points :: "nat \<Rightarrow> (byte list \<times> byte list) list \<Rightarrow> (nat \<times> (byte list \<times> byte list) list) list" where
  "run_points ri kvs = (0, kvs) # run_restarts ri 0 0 [] kvs"

text \<open>Along the restart points the offsets grow and the remaining entries shrink.\<close>

definition later_point where
  "later_point a b \<longleftrightarrow> fst a < fst b \<and> (\<exists>us. us \<noteq> [] \<and> snd a = us @ snd b)"

lemma run_restarts_sorted:
  assumes "0 < ri"
  shows "sorted_wrt later_point (run_restarts ri pos c lk kvs)"
proof (induction kvs arbitrary: pos c lk)
  case (Cons kv kvs)
  obtain k v where kv: "kv = (k, v)" by (cases kv)
  let ?e = "entry_bytes (run_shared ri c lk k) k v"
  have "later_point (pos, kv # kvs) (p, ys)"
    if "(p, ys) \<in> set (run_restarts ri (pos + length ?e) (run_counter ri c) k kvs)" for p ys
    using run_restarts_point [OF assms that] entry_bytes_nonempty [of "run_shared ri c lk k" k v]
    by (auto simp: later_point_def simp del: run_shared.simps)
  with Cons.IH kv show ?case
    by (auto simp del: run_shared.simps run_counter.simps)
qed simp

lemma run_points_sorted:
  assumes "0 < ri" "kvs \<noteq> []"
  shows "sorted_wrt later_point (run_points ri kvs)"
proof -
  obtain k v r where kvs: "kvs = (k, v) # r" using assms(2) by (cases kvs) auto
  have "later_point (0, kvs) (p, ys)" if "(p, ys) \<in> set (run_restarts ri 0 0 [] kvs)" for p ys
  proof -
    have "(p, ys) \<in> set (run_restarts ri (length (entry_bytes 0 k v)) 1 k r)"
      using that assms(1) kvs by auto
    from run_restarts_point [OF assms(1) this] show ?thesis
      using entry_bytes_nonempty [of 0 k v] by (auto simp: later_point_def kvs)
  qed
  then show ?thesis
    unfolding run_points_def using run_restarts_sorted [OF assms(1)] by auto
qed

lemma run_points_point:
  assumes "0 < ri" "kvs \<noteq> []" "(p, ys) \<in> set (run_points ri kvs)"
  shows "\<exists>xs bs. kvs = xs @ ys \<and> ys \<noteq> [] \<and> p = length bs \<and> run_bytes ri 0 [] kvs = bs @ run_bytes ri 0 [] ys"
  using assms run_restarts_point [of ri p ys 0 0 "[]" kvs] unfolding run_points_def by fastforce

subsection \<open>Building and parsing a block\<close>

abbreviation bb_add_all :: "(byte list \<times> byte list) list \<Rightarrow> block_builder \<Rightarrow> block_builder" where
  "bb_add_all kvs b \<equiv> fold (\<lambda>(k, v) b. bb_add b k v) kvs b"

lemma bb_add_layout:
  fixes b :: block_builder
  defines "ri \<equiv> bb_restart_interval b" and "c \<equiv> bb_counter b" and "lk \<equiv> bb_last_key b"
  shows "bb_add b k v = \<lparr>bb_buffer = bb_buffer b @ entry_bytes (run_shared ri c lk k) k v,
      bb_restarts = bb_restarts b @ (if c < ri then [] else [word_of_nat (length (bb_buffer b))]),
      bb_counter = run_counter ri c, bb_last_key = k, bb_restart_interval = ri\<rparr>"
  by (cases b) (simp add: bb_add_def assms Let_def put_varint32_def entry_bytes_def entry_head_def)

lemma bb_add_all_layout:
  assumes "ri = bb_restart_interval b" "c = bb_counter b" "lk = bb_last_key b"
  shows "bb_buffer (bb_add_all kvs b) = bb_buffer b @ run_bytes ri c lk kvs"
    and "bb_restarts (bb_add_all kvs b)
      = bb_restarts b @ map (word_of_nat \<circ> fst) (run_restarts ri (length (bb_buffer b)) c lk kvs)"
    and "bb_restart_interval (bb_add_all kvs b) = bb_restart_interval b"
  using assms
  by (induction kvs arbitrary: b c lk)
    (auto simp: bb_add_layout simp del: run_shared.simps run_counter.simps)

lemma fold_put_fixed32: "fold (\<lambda>r buf. put_fixed32 buf r) rs buf = buf @ concat (map (\<lambda>r. le_enc 4 (unat r)) rs)"
  by (induction rs arbitrary: buf) (auto simp: put_fixed32_def)

definition run_offsets :: "nat \<Rightarrow> (byte list \<times> byte list) list \<Rightarrow> u32 list" where
  "run_offsets ri kvs = (if kvs = [] then [] else map (word_of_nat \<circ> fst) (run_points ri kvs))"

definition block_image :: "nat \<Rightarrow> (byte list \<times> byte list) list \<Rightarrow> byte list" where
  "block_image ri kvs = run_bytes ri 0 [] kvs @ concat (map (\<lambda>r. le_enc 4 (unat r)) (run_offsets ri kvs))
     @ le_enc 4 (unat (word_of_nat (length (run_offsets ri kvs)) :: u32))"

lemma run_bytes_eq_Nil [simp]: "run_bytes ri c lk kvs = [] \<longleftrightarrow> kvs = []"
  by (cases kvs) (auto simp: entry_bytes_def entry_head_def)

lemma bb_finish_image:
  "fst (bb_finish (bb_add_all kvs (bb_new ri))) = block_image (max ri 1) kvs"
  using bb_add_all_layout [OF refl refl refl, of kvs "bb_new ri"]
  by (simp add: bb_finish_def Let_def fold_put_fixed32 [unfolded put_fixed32_def] block_image_def run_offsets_def run_points_def
      bb_new_def put_fixed32_def comp_def)

lemma bb_finish_reset:
  "snd (bb_finish (bb_add_all kvs (bb_new ri))) = bb_new ri"
  using bb_add_all_layout [OF refl refl refl, of kvs "bb_new ri"]
  by (simp add: bb_finish_def Let_def bb_new_def)

lemma bb_finish_pair: "bb_finish (bb_add_all kvs (bb_new ri)) = (block_image (max ri 1) kvs, bb_new ri)"
  by (rule prod_eqI) (simp_all add: bb_finish_image bb_finish_reset)

lemma read_restarts_encoded:
  "pos = length pre \<Longrightarrow> read_restarts (pre @ concat (map (\<lambda>r. le_enc 4 (unat r)) rs) @ post) pos (length rs) = Ok rs"
proof (induction rs arbitrary: pre pos)
  case (Cons r rs)
  have "get_fixed32 (pre @ le_enc 4 (unat r) @ concat (map (\<lambda>r. le_enc 4 (unat r)) rs) @ post) pos = Ok (r, pos + 4)"
    using Cons.prems get_fixed32_encoded [of pos pre r] by (simp add: put_fixed32_def)
  with Cons.IH [of "pos + 4" "pre @ le_enc 4 (unat r)"] Cons.prems show ?case
    by simp
qed simp

lemma check_restarts_Ok:
  assumes "\<forall>r \<in> set rs. unat r < ras" "sorted_wrt (<) rs" "\<forall>p \<in> set_option prev. \<forall>r \<in> set rs. p < r"
  shows "check_restarts ras prev rs = Ok ()"
  using assms by (induction rs arbitrary: prev) (auto simp: not_le split: option.splits)

text \<open>The parsed form of a block image; every lookup lemma is about such a block.\<close>

definition block_of :: "nat \<Rightarrow> (byte list \<times> byte list) list \<Rightarrow> block" where
  "block_of ri kvs = \<lparr>bk_data = block_image ri kvs, bk_restarts = run_offsets ri kvs,
     bk_restart_array_start = length (run_bytes ri 0 [] kvs)\<rparr>"

definition fits_block :: "nat \<Rightarrow> (byte list \<times> byte list) list \<Rightarrow> bool" where
  "fits_block ri kvs \<longleftrightarrow> small_entries kvs \<and> length (run_bytes ri 0 [] kvs) < 2 ^ 32"

lemma length_run_restarts_le: "length (run_restarts ri pos c lk kvs) \<le> length kvs"
  by (induction ri pos c lk kvs rule: run_restarts.induct) auto

lemma length_kvs_le_run_bytes: "length kvs \<le> length (run_bytes ri c lk kvs)"
proof (induction ri c lk kvs rule: run_bytes.induct)
  case (2 ri c lk k v kvs)
  then show ?case
    unfolding run_bytes.simps length_append list.size
    using entry_bytes_nonempty [of "run_shared ri c lk k" k v] by linarith
qed simp

lemma length_run_offsets_le: "0 < ri \<Longrightarrow> length (run_offsets ri kvs) \<le> length kvs"
  by (cases kvs)
    (auto simp: run_offsets_def run_points_def length_run_restarts_le)

lemma run_points_offset_less:
  assumes "0 < ri" "kvs \<noteq> []" "(p, ys) \<in> set (run_points ri kvs)"
  shows "p < length (run_bytes ri 0 [] kvs)"
  using run_points_point [OF assms] by fastforce

lemma run_offsets_sorted:
  assumes "0 < ri" "length (run_bytes ri 0 [] kvs) < 2 ^ 32"
  shows "sorted_wrt (<) (run_offsets ri kvs)"
    and "\<forall>r \<in> set (run_offsets ri kvs). unat r < length (run_bytes ri 0 [] kvs)"
proof -
  have small: "fst q < 2 ^ 32 \<and> fst q < length (run_bytes ri 0 [] kvs)"
    if "q \<in> set (run_points ri kvs)" "kvs \<noteq> []" for q
    using run_points_offset_less [OF assms(1), of kvs "fst q" "snd q"] that assms(2) by simp
  show "\<forall>r \<in> set (run_offsets ri kvs). unat r < length (run_bytes ri 0 [] kvs)"
    using small unat_u32_of_nat by (auto simp: run_offsets_def)
  have "sorted_wrt (\<lambda>x y. word_of_nat (fst x) < (word_of_nat (fst y) :: u32)) (run_points ri kvs)"
    if "kvs \<noteq> []"
    by (rule sorted_wrt_mono_rel [OF _ run_points_sorted [OF assms(1) that]])
      (use small that in \<open>auto simp: later_point_def word_less_nat_alt unat_u32_of_nat simp del: unat_of_nat\<close>)
  then show "sorted_wrt (<) (run_offsets ri kvs)"
    by (simp add: run_offsets_def sorted_wrt_map)
qed

lemma block_parse_image:
  assumes "0 < ri" "fits_block ri kvs"
  shows "block_parse (block_image ri kvs) = Ok (block_of ri kvs)"
proof -
  let ?n = "length (run_offsets ri kvs)" and ?run = "run_bytes ri 0 [] kvs"
  let ?rs = "concat (map (\<lambda>r. le_enc 4 (unat r)) (run_offsets ri kvs))"
  have rs: "length ?rs = ?n * 4"
    by (induction "run_offsets ri kvs") (simp_all add: length_concat comp_def sum_list_triv)
  have n: "?n < 2 ^ 32"
    using assms length_run_offsets_le [of ri kvs] length_kvs_le_run_bytes [of kvs ri 0 "[]"]
    by (simp add: fits_block_def)
  have img: "block_image ri kvs = (?run @ ?rs) @ le_enc 4 (unat (word_of_nat ?n :: u32)) @ []"
    by (simp add: block_image_def)
  have "get_fixed32 (block_image ri kvs) (length (block_image ri kvs) - 4) = Ok (word_of_nat ?n, length (block_image ri kvs))"
    unfolding img by (rule trans [OF get_fixed32_encoded]) simp_all
  moreover have "read_restarts (block_image ri kvs) (length ?run) ?n = Ok (run_offsets ri kvs)"
    unfolding block_image_def by (rule read_restarts_encoded) simp
  moreover have "check_restarts (length ?run) None (run_offsets ri kvs) = Ok ()"
    using run_offsets_sorted [OF assms(1), of kvs] assms(2)
    by (intro check_restarts_Ok) (auto simp: fits_block_def)
  moreover have "length (block_image ri kvs) = length ?run + ?n * 4 + 4"
    by (simp add: block_image_def rs)
  ultimately show ?thesis
    using n by (simp add: block_parse_def block_of_def Let_def unat_u32_of_nat del: unat_of_nat)
qed

subsection \<open>Listing and looking up\<close>

lemma block_of_suffix:
  assumes "0 < ri" "kvs \<noteq> []" "(p, ys) \<in> set (run_points ri kvs)"
  obtains xs bs post where "kvs = xs @ ys" "ys \<noteq> []" "p = length bs"
    "bk_data (block_of ri kvs) = bs @ run_bytes ri 0 [] ys @ post"
    "bk_restart_array_start (block_of ri kvs) = length bs + length (run_bytes ri 0 [] ys)"
  using run_points_point [OF assms] that by (fastforce simp: block_of_def block_image_def)

lemma small_entries_append [simp]: "small_entries (xs @ ys) \<longleftrightarrow> small_entries xs \<and> small_entries ys"
  by (auto simp: small_entries_def)

lemma entry_at_point:
  assumes "0 < ri" "fits_block ri kvs" "kvs \<noteq> []" "(p, ys) \<in> set (run_points ri kvs)"
  shows "\<exists>e. entry_at (block_of ri kvs) p = Ok e \<and> de_key e = fst (hd ys)"
proof -
  from block_of_suffix [OF assms(1,3,4)] obtain xs bs post where
    ys: "kvs = xs @ ys" "ys \<noteq> []" "p = length bs"
    and data: "bk_data (block_of ri kvs) = bs @ run_bytes ri 0 [] ys @ post"
    and ras: "bk_restart_array_start (block_of ri kvs) = length bs + length (run_bytes ri 0 [] ys)"
    by metis
  obtain k v r where ysr: "ys = (k, v) # r" using ys(2) by (cases ys) auto
  have len: "length k < 2 ^ 32" "length v < 2 ^ 32"
    using assms(2) ys(1) ysr by (auto simp: fits_block_def)
  have d: "bk_data (block_of ri kvs) = bs @ entry_bytes 0 k v @ (run_bytes ri 1 k r @ post)"
    and a: "length bs + length (entry_bytes 0 k v) \<le> bk_restart_array_start (block_of ri kvs)"
    using data ras ysr assms(1) by auto
  note dec = decode_entry [OF d a _ len ys(3) refl, simplified]
  show ?thesis
    by (simp add: entry_at_def dec ysr)
qed

lemma restart_search_partition:
  assumes entry: "\<And>i. i < length (bk_restarts b) \<Longrightarrow>
      \<exists>e. entry_at b (unat (bk_restarts b ! i)) = Ok e \<and> de_key e = f i"
    and mono: "\<And>i j. i < j \<Longrightarrow> j < length (bk_restarts b) \<Longrightarrow> f i < f j"
    and "l \<le> r" "r \<le> length (bk_restarts b)"
    and "\<forall>i < l. f i < key" "\<forall>i. r \<le> i \<and> i < length (bk_restarts b) \<longrightarrow> key \<le> f i"
  shows "\<exists>m \<le> length (bk_restarts b). restart_search b key l r = Ok m \<and> (\<forall>i < m. f i < key)"
  using assms(3-6)
proof (induction "r - l" arbitrary: l r rule: less_induct)
  case less
  show ?case
  proof (cases "l < r")
    case True
    let ?m = "(l + r) div 2"
    have m: "l \<le> ?m" "?m < r" "?m < length (bk_restarts b)"
      using True less.prems(2) by auto
    from entry [OF m(3)] obtain e where
      e: "entry_at b (unat (bk_restarts b ! ?m)) = Ok e" "de_key e = f ?m" by blast
    have unfold: "restart_search b key l r = (if f ?m < key then restart_search b key (?m + 1) r
        else restart_search b key l ?m)"
      using True m(3) e by (subst restart_search.simps) (simp add: idx_Ok Let_def)
    have lower: "\<forall>i < ?m + 1. f i < key" if "f ?m < key"
      using that mono [of _ ?m] m(3) by (metis less_add_one less_antisym less_trans Suc_eq_plus1)
    have upper: "\<forall>i. ?m \<le> i \<and> i < length (bk_restarts b) \<longrightarrow> key \<le> f i" if "\<not> f ?m < key"
    proof (intro allI impI)
      fix i assume i: "?m \<le> i \<and> i < length (bk_restarts b)"
      have "key \<le> f ?m" using that by simp
      also have "f ?m \<le> f i" using i mono [of ?m i] by (cases "i = ?m") auto
      finally show "key \<le> f i" .
    qed
    show ?thesis
    proof (cases "f ?m < key")
      case True
      show ?thesis
        unfolding unfold if_P [OF True]
        by (rule less.hyps) (use m less.prems lower [OF True] in simp_all)
    next
      case False
      show ?thesis
        unfolding unfold if_not_P [OF False]
        by (rule less.hyps) (use m less.prems upper [OF False] in simp_all)
    qed
  next
    case False
    with less.prems show ?thesis by (subst restart_search.simps) auto
  qed
qed


lemma block_entries_of:
  assumes "0 < ri" "fits_block ri kvs"
  shows "block_entries (block_of ri kvs) = Ok kvs"
  unfolding block_entries_def
  by (rule entries_run [where pre = "[]" and c = 0])
    (use assms in \<open>auto simp: block_of_def block_image_def fits_block_def\<close>)

lemma map_of_ascending_suffix:
  assumes "ascending (xs @ ys)" "ys \<noteq> []" "fst (hd ys) \<le> k"
  shows "map_of (xs @ ys) k = map_of ys k"
proof -
  have "map_of xs k = None"
    using assms by (cases ys) (auto simp: map_of_eq_None_iff sorted_wrt_append)
  then show ?thesis
    by (auto simp: map_add_def split: option.splits)
qed

lemma points_keys_mono:
  assumes "0 < ri" "kvs \<noteq> []" "ascending kvs" "i < j" "j < length (run_points ri kvs)"
  shows "fst (hd (snd (run_points ri kvs ! i))) < fst (hd (snd (run_points ri kvs ! j)))"
proof -
  let ?a = "run_points ri kvs ! i" and ?b = "run_points ri kvs ! j"
  have "later_point ?a ?b"
    using sorted_wrt_nth_less [OF run_points_sorted [OF assms(1,2)]] assms(4,5) by simp
  then obtain us where us: "us \<noteq> []" "snd ?a = us @ snd ?b"
    by (auto simp: later_point_def)
  have a: "(fst ?a, snd ?a) \<in> set (run_points ri kvs)" "(fst ?b, snd ?b) \<in> set (run_points ri kvs)"
    using assms(4,5) by auto
  obtain xs where "kvs = xs @ snd ?a" "snd ?b \<noteq> []"
    using run_points_point [OF assms(1,2) a(1)] run_points_point [OF assms(1,2) a(2)] by blast
  with us assms(3) show ?thesis
    by (cases us; cases "snd ?b") (auto simp: sorted_wrt_append)
qed

lemma run_points_nonempty [simp]: "run_points ri kvs \<noteq> []"
  by (simp add: run_points_def)

lemma offset_of_point:
  assumes "0 < ri" "fits_block ri kvs" "kvs \<noteq> []" "i < length (run_points ri kvs)"
  shows "unat (bk_restarts (block_of ri kvs) ! i) = fst (run_points ri kvs ! i)"
proof -
  have "fst (run_points ri kvs ! i) < 2 ^ 32"
    using run_points_offset_less [OF assms(1,3), of "fst (run_points ri kvs ! i)" "snd (run_points ri kvs ! i)"]
      assms(2,4) by (simp add: fits_block_def)
  from unat_u32_of_nat [OF this] show ?thesis
    using assms(3,4) by (simp add: block_of_def run_offsets_def del: unat_of_nat)
qed

lemma scan_from_point:
  assumes "0 < ri" "fits_block ri kvs" "ascending kvs" "kvs \<noteq> []" "(p, ys) \<in> set (run_points ri kvs)"
    and le: "ys = kvs \<or> fst (hd ys) \<le> key"
  shows "block_scan (block_of ri kvs) key [] p = Ok (map_of kvs key)"
proof -
  from block_of_suffix [OF assms(1,4,5)] obtain xs bs post where
    ys: "kvs = xs @ ys" "ys \<noteq> []" "p = length bs"
    and data: "bk_data (block_of ri kvs) = bs @ run_bytes ri 0 [] ys @ post"
    and ras: "bk_restart_array_start (block_of ri kvs) = length bs + length (run_bytes ri 0 [] ys)"
    by metis
  have "small_entries ys" "ascending ys"
    using assms(2,3) ys(1) by (auto simp: fits_block_def sorted_wrt_append)
  from scan_run [OF data ras this ys(3)] show ?thesis
    using le map_of_ascending_suffix [of xs ys key] assms(3) ys by auto
qed

lemma block_get_of:
  assumes "0 < ri" "fits_block ri kvs" "ascending kvs"
  shows "block_get (block_of ri kvs) key = Ok (map_of kvs key)"
proof (cases "kvs = []")
  case True
  then show ?thesis by (simp add: block_get_def block_of_def run_offsets_def)
next
  case False
  let ?b = "block_of ri kvs" and ?pts = "run_points ri kvs"
  have rs: "length (bk_restarts ?b) = length ?pts" "bk_restarts ?b \<noteq> []"
    using False by (simp_all add: block_of_def run_offsets_def)
  note at = offset_of_point [OF assms(1,2) False]
  have entry: "\<exists>e. entry_at ?b (unat (bk_restarts ?b ! i)) = Ok e \<and> de_key e = fst (hd (snd (?pts ! i)))"
    if "i < length (bk_restarts ?b)" for i
    using entry_at_point [OF assms(1,2) False, of "fst (?pts ! i)" "snd (?pts ! i)"] that
    by (simp add: rs at)
  have "\<exists>m \<le> length (bk_restarts ?b). restart_search ?b key 0 (length ?pts) = Ok m
      \<and> (\<forall>i < m. fst (hd (snd (?pts ! i))) < key)"
    by (rule restart_search_partition [OF entry])
      (use points_keys_mono [OF assms(1) False assms(3)] in \<open>auto simp: rs(1)\<close>)
  then obtain m where m: "m \<le> length ?pts" "restart_search ?b key 0 (length ?pts) = Ok m"
    "\<forall>i < m. fst (hd (snd (?pts ! i))) < key"
    by (auto simp: rs(1))
  have "block_scan ?b key [] (if m = 0 then 0 else fst (?pts ! (m - 1))) = Ok (map_of kvs key)"
  proof (cases m)
    case 0
    then show ?thesis
      using scan_from_point [OF assms False, of 0 kvs] by (simp add: run_points_def)
  next
    case (Suc n)
    then have "fst (hd (snd (?pts ! n))) \<le> key" "n < length ?pts"
      using m(1,3) by (auto intro: less_imp_le)
    with Suc show ?thesis
      using scan_from_point [OF assms False, of "fst (?pts ! n)" "snd (?pts ! n)"] by simp
  qed
  then show ?thesis
    using m(1,2) at [of "m - 1"] rs by (cases m) (simp_all add: block_get_def idx_Ok)
qed

lemma block_first_key_of:
  assumes "0 < ri" "fits_block ri kvs"
  shows "block_first_key (block_of ri kvs) = Ok (map_option fst (if kvs = [] then None else Some (hd kvs)))"
proof (cases "kvs = []")
  case True
  then show ?thesis by (simp add: block_first_key_def block_of_def run_offsets_def)
next
  case False
  then have "bk_restarts (block_of ri kvs) = 0 # map (word_of_nat \<circ> fst) (run_restarts ri 0 0 [] kvs)"
    by (simp add: block_of_def run_offsets_def run_points_def)
  with False entry_at_point [OF assms False, of 0 kvs] show ?thesis
    by (auto simp: block_first_key_def run_points_def)
qed

text \<open>An entry takes at most 15 bytes beside its key and value, so small contents always fit.\<close>

definition entries_weight :: "(byte list \<times> byte list) list \<Rightarrow> nat" where
  "entries_weight kvs = sum_list (map (\<lambda>(k, v). 15 + length k + length v) kvs)"

lemma entries_weight_simps [simp]:
  "entries_weight [] = 0" "entries_weight ((k, v) # kvs) = 15 + length k + length v + entries_weight kvs"
  by (simp_all add: entries_weight_def)

lemma entry_bytes_weight: "length (entry_bytes s k v) \<le> 15 + length k + length v"
proof -
  have "length (varint_bytes (word_of_nat n :: u32)) \<le> 5" for n
    by (rule varint32_length)
  then have "length (entry_head s k v) \<le> 5 + (5 + 5)"
    unfolding entry_head_def length_append by (intro add_mono)
  then show ?thesis by (simp add: entry_bytes_def)
qed

lemma run_bytes_weight: "length (run_bytes ri c lk kvs) \<le> entries_weight kvs"
proof (induction ri c lk kvs rule: run_bytes.induct)
  case (2 ri c lk k v kvs)
  then show ?case
    unfolding run_bytes.simps length_append entries_weight_simps
    using entry_bytes_weight by (rule add_mono [rotated])
qed simp

lemma fits_block_weight:
  assumes "entries_weight kvs < 2 ^ 32"
  shows "fits_block ri kvs"
proof -
  have "small_entries kvs"
    using assms by (induction kvs) (auto simp: small_entries_def)
  then show ?thesis
    using run_bytes_weight [of ri 0 "[]" kvs] assms by (simp add: fits_block_def)
qed

text \<open>
  A block that was built from a sequence of entries and parsed back lists exactly these entries,
  reports the first key, and, when the keys were added in ascending order, looks up every key as the
  association list does: binary search over the restart keys followed by the linear scan never
  misses an entry and never invents one. The hypothesis is that keys, values and offsets fit the
  32-bit fields of the format.
\<close>

lemma block_roundtrip:
  assumes "fits_block (max ri 1) kvs" and "ascending kvs"
  shows "\<exists>b. block_parse (fst (bb_finish (fold (\<lambda>(k, v) b. bb_add b k v) kvs (bb_new ri)))) = Ok b \<and>
    block_entries b = Ok kvs \<and>
    block_first_key b = Ok (map_option fst (if kvs = [] then None else Some (hd kvs))) \<and>
    (\<forall>key. block_get b key = Ok (map_of kvs key))"
  using assms block_parse_image [of "max ri 1" kvs] block_entries_of [of "max ri 1" kvs]
    block_first_key_of [of "max ri 1" kvs] block_get_of [of "max ri 1" kvs]
  by (auto simp: bb_finish_image)

lemma block_roundtrip_witness:
  "\<exists>b. block_parse (fst (bb_finish (fold (\<lambda>(k, v) b. bb_add b k v) [([1], [7]), ([1, 2], [8, 9])] (bb_new 1)))) = Ok b \<and>
    block_get b [1, 2] = Ok (Some [8, 9]) \<and> block_get b [3] = Ok None"
proof -
  have "fits_block (max 1 1) [([1], [7]), ([1, 2], [8, 9])]"
    by (rule fits_block_weight) simp
  moreover have "ascending [([1 :: byte], [7 :: byte]), ([1, 2], [8, 9])]"
    by simp
  ultimately show ?thesis
    using block_roundtrip [of 1 "[([1], [7]), ([1, 2], [8, 9])]"] by auto
qed

text \<open>
  A finished builder is as new: \<open>finish\<close> hands out the block and leaves the builder in the
  state \<open>new\<close> made, whatever was added before.
\<close>

lemma block_builder_reusable:
  "snd (bb_finish (fold (\<lambda>(k, v) b. bb_add b k v) kvs (bb_new ri))) = bb_new ri"
  by (rule bb_finish_reset)

end
