(* ===== verification/Bloom.thy ===== *)
theory Bloom
  imports Prelude
begin

section \<open>Bloom filters over table keys\<close>

text \<open>
  \<open>src/src/storage/lsm/bloom.rs\<close>: a filter is a bit array followed by the number of probes per key.
  \<open>bloom_builder\<close> is \<open>BloomBuilder\<close>; a \<open>BloomFilter\<close> is its bytes. Hashes and probe positions are
  64-bit words, so \<open>wrapping_add\<close> and \<open>wrapping_mul\<close> are the word operations. Indexing the bit array
  panics out of range as in Rust; \<open>bloom_finish_Ok\<close> shows that it never does, and
  \<open>maybe_contains_finish\<close> that the filter has no false negatives.
\<close>

unbundle bit_operations_syntax

record bloom_builder =
  bl_hashes :: "u64 list"
  bl_bits_per_key :: nat

definition bloom_new :: "nat \<Rightarrow> bloom_builder" where
  "bloom_new bits_per_key = \<lparr>bl_hashes = [], bl_bits_per_key = max bits_per_key 1\<rparr>"

definition hash :: "byte list \<Rightarrow> u64" where
  "hash data = fold (\<lambda>b h. (h XOR ucast b) * 0x100000001b3) data 0xcbf29ce484222325"

definition bloom_add :: "bloom_builder \<Rightarrow> byte list \<Rightarrow> bloom_builder" where
  "bloom_add b key = b\<lparr>bl_hashes := bl_hashes b @ [hash key]\<rparr>"

definition key_count :: "bloom_builder \<Rightarrow> nat" where
  "key_count b = length (bl_hashes b)"

text \<open>
  \<open>(bits as f64 * 0.69).round().clamp(1.0, 30.0)\<close>: below 44 the product is never within 0.01 of a
  half, so rounding the floating-point product is rounding the fraction, and above it clamps to 30.
\<close>

definition probes :: "nat \<Rightarrow> nat" where
  "probes bits_per_key = min 30 (max 1 ((69 * bits_per_key + 50) div 100))"

definition bloom_delta :: "u64 \<Rightarrow> u64" where
  "bloom_delta h = drop_bit 17 h OR push_bit 15 h"

fun set_probes :: "nat \<Rightarrow> u64 \<Rightarrow> u64 \<Rightarrow> u64 \<Rightarrow> byte list \<Rightarrow> byte list result" where
  "set_probes 0 pos delta bits bitset = Ok bitset"
| "set_probes (Suc n) pos delta bits bitset =
     bindR (idx bitset (unat (pos div 8))) (\<lambda>b.
       set_probes n ((pos + delta) mod bits) delta bits
         (bitset[unat (pos div 8) := b OR push_bit (unat (pos mod 8)) 1]))"

definition bloom_finish :: "bloom_builder \<Rightarrow> byte list result" where
  "bloom_finish b =
     (let n = probes (bl_bits_per_key b) in
      if bl_hashes b = [] then Ok [word_of_nat n]
      else let bytes = max 8 ((length (bl_hashes b) * bl_bits_per_key b + 7) div 8);
               bits = word_of_nat (bytes * 8) in
        bindR (foldR (\<lambda>bitset h. set_probes n (h mod bits) (bloom_delta h) bits bitset)
                 (replicate bytes 0) (bl_hashes b))
          (\<lambda>bitset. Ok (bitset @ [word_of_nat n])))"

type_synonym bloom_filter = "byte list"

definition bloom_is_empty :: "bloom_filter \<Rightarrow> bool" where
  "bloom_is_empty data \<longleftrightarrow> length data \<le> 1"

fun test_probes :: "nat \<Rightarrow> u64 \<Rightarrow> u64 \<Rightarrow> u64 \<Rightarrow> byte list \<Rightarrow> bool result" where
  "test_probes 0 pos delta bits data = Ok True"
| "test_probes (Suc n) pos delta bits data =
     bindR (idx data (unat (pos div 8))) (\<lambda>b.
       if b AND push_bit (unat (pos mod 8)) 1 = 0 then Ok False
       else test_probes n ((pos + delta) mod bits) delta bits data)"

definition maybe_contains :: "bloom_filter \<Rightarrow> byte list \<Rightarrow> bool result" where
  "maybe_contains data key =
     (if bloom_is_empty data then Ok True
      else let n = unat (last data); bits = word_of_nat ((length data - 1) * 8); h = hash key
        in test_probes n (h mod bits) (bloom_delta h) bits data)"

subsection \<open>Set bits stay set\<close>

definition covers :: "byte list \<Rightarrow> byte list \<Rightarrow> bool" where
  "covers xs ys \<longleftrightarrow> length xs \<le> length ys \<and> (\<forall>i < length xs. \<forall>j. bit (xs ! i) j \<longrightarrow> bit (ys ! i) j)"

lemma covers_refl [simp]: "covers xs xs"
  by (simp add: covers_def)

lemma covers_trans: "covers xs ys \<Longrightarrow> covers ys zs \<Longrightarrow> covers xs zs"
  by (auto simp: covers_def)

lemma covers_append [simp]: "covers xs (xs @ ys)"
  by (simp add: covers_def nth_append)

lemma covers_or: "i < length xs \<Longrightarrow> covers xs (xs[i := xs ! i OR m])"
  by (auto simp: covers_def nth_list_update bit_or_iff)

lemma byte_bit_test: "(b :: byte) AND push_bit j 1 = 0 \<longleftrightarrow> \<not> bit b j"
  by (simp add: bit_iff_and_push_bit_not_eq_0)

lemma test_probes_mono:
  "covers xs ys \<Longrightarrow> test_probes n pos delta bits xs = Ok True \<Longrightarrow> test_probes n pos delta bits ys = Ok True"
  by (induction n pos delta bits xs rule: test_probes.induct)
    (auto simp: covers_def byte_bit_test idx_def simp del: push_bit_of_1 split: if_splits)

lemma unat_bits_of_length:
  "8 * length bs < 2 ^ 64 \<Longrightarrow> unat (word_of_nat (8 * length bs) :: u64) = 8 * length bs"
  by (rule unat_u64_of_nat)

lemma probe_in_range:
  assumes "bits = (word_of_nat (8 * length bs) :: u64)" "0 < length bs" "8 * length bs < 2 ^ 64"
  shows "unat (p mod bits) < 8 * length bs"
  using assms unat_bits_of_length [OF assms(3)] by (simp add: unat_mod_distrib)

lemma set_probes_spec:
  assumes "bits = word_of_nat (8 * length bs)" "0 < length bs" "8 * length bs < 2 ^ 64"
    and "unat pos < 8 * length bs"
  shows "\<exists>bs'. set_probes n pos delta bits bs = Ok bs' \<and> length bs' = length bs \<and> covers bs bs'
    \<and> test_probes n pos delta bits bs' = Ok True"
  using assms
proof (induction n arbitrary: pos bs)
  case (Suc n)
  let ?i = "unat (pos div 8)" and ?j = "unat (pos mod 8)"
  let ?bs = "bs[?i := bs ! ?i OR push_bit ?j 1]"
  have i: "?i < length bs"
    using Suc.prems(4) by (simp add: unat_div_distrib)
  have "?j < 8"
    by (simp add: unat_mod_distrib)
  with i have set_: "bit (?bs ! ?i) ?j"
    by (simp add: bit_or_iff bit_push_bit_iff del: push_bit_of_1)
  have "unat ((pos + delta) mod bits) < 8 * length ?bs"
    using probe_in_range [OF Suc.prems(1-3)] by simp
  with Suc.IH [of ?bs "(pos + delta) mod bits"] Suc.prems obtain bs' where
    bs': "set_probes n ((pos + delta) mod bits) delta bits ?bs = Ok bs'" "length bs' = length bs"
      "covers ?bs bs'" "test_probes n ((pos + delta) mod bits) delta bits bs' = Ok True"
    by auto
  have "bit (bs' ! ?i) ?j"
    using set_ bs'(3) i by (simp add: covers_def)
  moreover have "covers bs bs'"
    using covers_trans [OF covers_or [OF i] bs'(3)] .
  ultimately show ?case
    using i bs' by (auto simp: idx_Ok byte_bit_test simp del: push_bit_of_1)
qed simp

lemma set_all_probes_spec:
  assumes "bits = word_of_nat (8 * length bs)" "0 < length bs" "8 * length bs < 2 ^ 64"
  shows "\<exists>bs'. foldR (\<lambda>bitset h. set_probes n (h mod bits) (bloom_delta h) bits bitset) bs hs = Ok bs' \<and>
    length bs' = length bs \<and> covers bs bs' \<and>
    (\<forall>h \<in> set hs. test_probes n (h mod bits) (bloom_delta h) bits bs' = Ok True)"
  using assms
proof (induction hs arbitrary: bs)
  case (Cons h hs)
  from set_probes_spec [OF Cons.prems probe_in_range [OF Cons.prems]] obtain bs1 where
    1: "set_probes n (h mod bits) (bloom_delta h) bits bs = Ok bs1" "length bs1 = length bs" "covers bs bs1"
      "test_probes n (h mod bits) (bloom_delta h) bits bs1 = Ok True" by blast
  from Cons.IH [of bs1] Cons.prems 1(2) obtain bs2 where
    2: "foldR (\<lambda>bitset h. set_probes n (h mod bits) (bloom_delta h) bits bitset) bs1 hs = Ok bs2"
      "length bs2 = length bs1" "covers bs1 bs2"
      "\<forall>h \<in> set hs. test_probes n (h mod bits) (bloom_delta h) bits bs2 = Ok True" by auto
  from 1 2 show ?case
    using test_probes_mono [OF 2(3) 1(4)] by (auto intro: covers_trans)
qed simp

lemma probes_bound: "probes b \<le> 30"
  by (simp add: probes_def)

lemma unat_probes_byte: "unat (word_of_nat (probes b) :: byte) = probes b"
  by (rule unat_u8_of_nat) (use probes_bound [of b] in simp)

definition bloom_small :: "bloom_builder \<Rightarrow> bool" where
  "bloom_small b \<longleftrightarrow> length (bl_hashes b) * bl_bits_per_key b < 2 ^ 60"

lemma bloom_finish_Ok:
  assumes "bloom_small b"
  shows "\<exists>data. bloom_finish b = Ok data \<and> length data \<le> length (bl_hashes b) * bl_bits_per_key b + 10 \<and>
    (\<forall>key. hash key \<in> set (bl_hashes b) \<longrightarrow> maybe_contains data key = Ok True)"
proof (cases "bl_hashes b = []")
  case True
  then show ?thesis by (simp add: bloom_finish_def Let_def)
next
  case False
  define n where "n = probes (bl_bits_per_key b)"
  define bytes where "bytes = max 8 ((length (bl_hashes b) * bl_bits_per_key b + 7) div 8)"
  define bits :: u64 where "bits = word_of_nat (8 * bytes)"
  have small: "8 * bytes < 2 ^ 64" and pos: "0 < bytes"
    using assms by (auto simp: bytes_def bloom_small_def)
  from set_all_probes_spec [of bits "replicate bytes 0" n "bl_hashes b"] obtain bs where
    bs: "foldR (\<lambda>bitset h. set_probes n (h mod bits) (bloom_delta h) bits bitset) (replicate bytes 0) (bl_hashes b) = Ok bs"
      "length bs = bytes" "\<forall>h \<in> set (bl_hashes b). test_probes n (h mod bits) (bloom_delta h) bits bs = Ok True"
    using small pos by (auto simp: bits_def)
  have fin: "bloom_finish b = Ok (bs @ [word_of_nat n])"
    using False bs(1) by (simp add: bloom_finish_def Let_def n_def bytes_def bits_def mult.commute)
  have "maybe_contains (bs @ [word_of_nat n]) key = Ok True" if "hash key \<in> set (bl_hashes b)" for key
    using test_probes_mono [OF covers_append bs(3) [rule_format, OF that], of "[word_of_nat n]"] pos
    by (simp add: maybe_contains_def bloom_is_empty_def Let_def bs(2) n_def unat_probes_byte bits_def mult.commute
        del: unat_of_nat)
  moreover have "length (bs @ [word_of_nat n]) \<le> length (bl_hashes b) * bl_bits_per_key b + 10"
    by (auto simp: bs(2) bytes_def max_def)
  ultimately show ?thesis using fin by blast
qed

lemma test_probes_total:
  assumes "bits = word_of_nat (8 * n)" "0 < n" "8 * n < 2 ^ 64" "n \<le> length data" "unat pos < 8 * n"
  shows "\<exists>m. test_probes k pos delta bits data = Ok m"
  using assms(5)
proof (induction k arbitrary: pos)
  case (Suc k)
  have "unat (pos div 8) < length data"
    using Suc.prems assms(4) by (simp add: unat_div_distrib)
  moreover have "unat ((pos + delta) mod bits) < 8 * n"
    using probe_in_range [of bits "replicate n 0"] assms(1-3) by simp
  ultimately show ?case
    using Suc.IH by (auto simp: idx_Ok simp del: push_bit_of_1)
qed auto

lemma maybe_contains_total:
  assumes "8 * length data < 2 ^ 64"
  shows "\<exists>m. maybe_contains data key = Ok m"
proof (cases "bloom_is_empty data")
  case False
  define n where "n = length data - 1"
  have n: "0 < n" "8 * n < 2 ^ 64" "n \<le> length data"
    using False assms by (auto simp: bloom_is_empty_def n_def)
  have "unat (hash key mod word_of_nat (8 * n)) < 8 * n"
    using probe_in_range [of _ "replicate n 0"] n by simp
  from test_probes_total [OF refl n this] show ?thesis
    using False by (simp add: maybe_contains_def Let_def n_def mult.commute)
qed (auto simp: maybe_contains_def)

lemma bloom_add_all_hashes:
  "fold (\<lambda>k b. bloom_add b k) ks b = b\<lparr>bl_hashes := bl_hashes b @ map hash ks\<rparr>"
  by (induction ks arbitrary: b) (auto simp: bloom_add_def)

text \<open>
  C4: The Bloom filter has no false negatives: building a filter never fails, and every key that
  was added is answered with "maybe" by the finished filter, for every number of bits per key. The
  hypothesis bounds the size of the bit array by \<open>2 ^ 60\<close> bits.
\<close>

theorem bloom_no_false_negatives:
  assumes "length ks * max bits_per_key 1 < 2 ^ 60" and "k \<in> set ks"
  shows "\<exists>data. bloom_finish (fold (\<lambda>k b. bloom_add b k) ks (bloom_new bits_per_key)) = Ok data \<and>
    maybe_contains data k = Ok True"
  using bloom_finish_Ok [of "fold (\<lambda>k b. bloom_add b k) ks (bloom_new bits_per_key)"] assms
  by (auto simp: bloom_add_all_hashes bloom_new_def bloom_small_def)

theorem bloom_no_false_negatives_witness:
  "\<exists>data. bloom_finish (fold (\<lambda>k b. bloom_add b k) [[1, 2], [3]] (bloom_new 10)) = Ok data \<and>
    maybe_contains data [3] = Ok True"
  by (rule bloom_no_false_negatives) simp_all

end
