(* ===== verification/Sorted_Tables.thy ===== *)
theory Sorted_Tables
  imports Prelude
begin

section \<open>The interface of immutable sorted tables\<close>

text \<open>
  The LSM store reads its tables in two ways: a newest-first point lookup that skips tables whose key
  range excludes the key, and a merge that folds the entries of each table into an ordered map with
  \<open>or_insert\<close>, so that the first (newest) entry of a key wins. Both loops are written once here, for
  any table type; the locale \<open>sorted_table\<close> states what they need of a table, and its lemmas say what
  the loops compute. \<open>SSTable\<close> provides the operations and \<open>Store\<close> uses the results.
\<close>

fun newest_get :: "('t \<Rightarrow> 'k \<Rightarrow> bool) \<Rightarrow> ('t \<Rightarrow> 'k \<Rightarrow> 'v option result) \<Rightarrow> 't list \<Rightarrow> 'k \<Rightarrow> 'v option result" where
  "newest_get may get [] k = Ok None"
| "newest_get may get (t # ts) k =
     (if \<not> may t k then newest_get may get ts k
      else bindR (get t k) (\<lambda>r. case r of Some v \<Rightarrow> Ok (Some v) | None \<Rightarrow> newest_get may get ts k))"

definition merge_entries :: "('v \<Rightarrow> 'e) \<Rightarrow> ('k :: linorder \<times> 'v) list \<Rightarrow> ('k \<times> 'e) list \<Rightarrow> ('k \<times> 'e) list" where
  "merge_entries dec es m = fold (\<lambda>(k, v) m. bt_or_insert k (dec v) m) es m"

definition merge_newest ::
  "('t \<Rightarrow> ('k :: linorder \<times> 'v) list result) \<Rightarrow> ('v \<Rightarrow> 'e) \<Rightarrow> 't list \<Rightarrow> ('k \<times> 'e) list result" where
  "merge_newest iter dec ts = foldR (\<lambda>m t. bindR (iter t) (\<lambda>es. Ok (merge_entries dec es m))) [] ts"

lemma merge_entries_spec:
  "ascending m \<Longrightarrow> ascending (merge_entries dec es m) \<and>
     map_of (merge_entries dec es m) = (\<lambda>k. map_option dec (map_of es k)) ++ map_of m"
proof (induction es arbitrary: m)
  case (Cons e es)
  obtain k v where e: "e = (k, v)" by (cases e)
  from Cons.IH [of "bt_or_insert k (dec v) m"] Cons.prems show ?case
    by (auto simp: merge_entries_def e bt_simps map_add_def fun_eq_iff split: option.splits)
qed (simp add: merge_entries_def fun_eq_iff map_add_def split: option.splits)

locale sorted_table =
  fixes ok :: "'t \<Rightarrow> bool"
    and contents :: "'t \<Rightarrow> ('k :: linorder \<times> 'v) list"
    and get :: "'t \<Rightarrow> 'k \<Rightarrow> 'v option result"
    and iter :: "'t \<Rightarrow> ('k \<times> 'v) list result"
    and may_contain :: "'t \<Rightarrow> 'k \<Rightarrow> bool"
  assumes contents_ascending: "ok t \<Longrightarrow> ascending (contents t)"
    and get_contents: "ok t \<Longrightarrow> get t k = Ok (map_of (contents t) k)"
    and iter_contents: "ok t \<Longrightarrow> iter t = Ok (contents t)"
    and may_contain_complete: "ok t \<Longrightarrow> map_of (contents t) k \<noteq> None \<Longrightarrow> may_contain t k"
begin

text \<open>Concatenating the contents newest first gives the newest entry of every key.\<close>

lemma newest_get_contents:
  assumes "\<forall>t \<in> set ts. ok t"
  shows "newest_get may_contain get ts k = Ok (map_of (concat (map contents ts)) k)"
  using assms
proof (induction ts)
  case (Cons t ts)
  then have IH: "newest_get may_contain get ts k = Ok (map_of (concat (map contents ts)) k)" and t: "ok t"
    by auto
  show ?case
    using IH get_contents [OF t, of k] may_contain_complete [OF t, of k]
    by (cases "map_of (contents t) k") (auto simp: map_add_def split: option.splits)
qed simp

lemma merge_fold:
  assumes "\<forall>t \<in> set ts. ok t" "ascending m"
  shows "\<exists>m'. foldR (\<lambda>m t. bindR (iter t) (\<lambda>es. Ok (merge_entries dec es m))) m ts = Ok m' \<and> ascending m' \<and>
    map_of m' = (\<lambda>k. map_option dec (map_of (concat (map contents ts)) k)) ++ map_of m"
  using assms
proof (induction ts arbitrary: m)
  case (Cons t ts)
  let ?m = "merge_entries dec (contents t) m"
  have t: "iter t = Ok (contents t)"
    using Cons.prems by (simp add: iter_contents)
  have m: "ascending ?m" "map_of ?m = (\<lambda>k. map_option dec (map_of (contents t) k)) ++ map_of m"
    using merge_entries_spec [OF Cons.prems(2), of dec "contents t"] by auto
  from Cons.IH [OF _ m(1)] Cons.prems(1) obtain m' where
    "foldR (\<lambda>m t. bindR (iter t) (\<lambda>es. Ok (merge_entries dec es m))) ?m ts = Ok m'" "ascending m'"
    "map_of m' = (\<lambda>k. map_option dec (map_of (concat (map contents ts)) k)) ++ map_of ?m" by auto
  then show ?case
    by (auto simp: t m(2) map_add_def fun_eq_iff split: option.splits)
qed (auto simp: fun_eq_iff map_add_def split: option.splits)

lemma merge_newest_contents:
  assumes "\<forall>t \<in> set ts. ok t"
  obtains m where "merge_newest iter dec ts = Ok m" "ascending m"
    "map_of m = (\<lambda>k. map_option dec (map_of (concat (map contents ts)) k))"
  using merge_fold [OF assms, of "[]" dec] by (auto simp: merge_newest_def)

end

end
