(* ===== verification/SSTable.thy ===== *)
theory SSTable
  imports Block Bloom Sorted_Tables
begin

section \<open>Sorted string tables\<close>

text \<open>
  \<open>src/src/storage/lsm/sstable.rs\<close>: data blocks, a Bloom filter, an index block and a footer in one
  byte image. \<open>sst_builder\<close> is \<open>SSTableBuilder\<close>, \<open>sstable\<close> is \<open>SSTable\<close> (the \<open>Arc\<close>s only share),
  \<open>sst_scanner\<close> is \<open>SstableScanner\<close>; \<open>partition_point\<close> is the slice method of that name.

  The main lemma (\<open>sst_parse_build\<close>) describes the parsed form of a built image; from it follow
  lookup, iteration and the lazy scanner of a table built from ascending entries.
\<close>

definition MAGIC :: "byte list" where
  "MAGIC = [0x53, 0x53, 0x54, 0x42, 0x4C, 0x30, 0x30, 0x32]"

definition FOOTER_LEN :: nat where
  "FOOTER_LEN = 8 * 4 + 8"

definition DEFAULT_BLOCK_SIZE :: nat where
  "DEFAULT_BLOCK_SIZE = 4096"

definition BLOOM_BITS_PER_KEY :: nat where
  "BLOOM_BITS_PER_KEY = 10"

record block_handle =
  bh_offset :: u64
  bh_size :: u64

definition bh_encode :: "block_handle \<Rightarrow> byte list" where
  "bh_encode h = put_varint64 (put_varint64 [] (bh_offset h)) (bh_size h)"

definition bh_decode :: "byte list \<Rightarrow> block_handle result" where
  "bh_decode data =
     bindR (get_varint64 data 0) (\<lambda>(offset, pos).
     bindR (get_varint64 data pos) (\<lambda>(size, pos). Ok \<lparr>bh_offset = offset, bh_size = size\<rparr>))"

subsection \<open>Building\<close>

record sst_builder =
  sb_block_size :: nat
  sb_data :: "byte list"
  sb_index_block :: block_builder
  sb_current :: block_builder
  sb_bloom :: bloom_builder
  sb_last_key :: "byte list"
  sb_started :: bool
  sb_num_entries :: nat

definition sb_new :: "nat \<Rightarrow> nat \<Rightarrow> sst_builder" where
  "sb_new block_size restart_interval =
     \<lparr>sb_block_size = max block_size 64, sb_data = [], sb_index_block = bb_new restart_interval,
      sb_current = bb_new restart_interval, sb_bloom = bloom_new BLOOM_BITS_PER_KEY, sb_last_key = [],
      sb_started = False, sb_num_entries = 0\<rparr>"

definition sb_flush_block :: "sst_builder \<Rightarrow> sst_builder" where
  "sb_flush_block b =
     (if bb_is_empty (sb_current b) then b
      else let (block, current) = bb_finish (sb_current b);
               handle = \<lparr>bh_offset = word_of_nat (length (sb_data b)), bh_size = word_of_nat (length block)\<rparr>
        in b\<lparr>sb_current := current, sb_data := sb_data b @ block,
             sb_index_block := bb_add (sb_index_block b) (sb_last_key b) (bh_encode handle)\<rparr>)"

definition sb_add :: "sst_builder \<Rightarrow> byte list \<Rightarrow> byte list \<Rightarrow> sst_builder" where
  "sb_add b key value =
     (let b = b\<lparr>sb_started := True, sb_last_key := key, sb_current := bb_add (sb_current b) key value,
                sb_bloom := bloom_add (sb_bloom b) key, sb_num_entries := sb_num_entries b + 1\<rparr>
      in if bb_size_estimate (sb_current b) \<ge> sb_block_size b then sb_flush_block b else b)"

definition handle_footer :: "block_handle \<Rightarrow> byte list" where
  "handle_footer h = le_enc 8 (unat (bh_offset h)) @ le_enc 8 (unat (bh_size h))"

definition sb_finish :: "sst_builder \<Rightarrow> (byte list \<times> sst_builder) result" where
  "sb_finish b =
     (let b = sb_flush_block b in
      bindR (bloom_finish (sb_bloom b)) (\<lambda>filter.
        let filter_handle = \<lparr>bh_offset = word_of_nat (length (sb_data b)), bh_size = word_of_nat (length filter)\<rparr>;
            data = sb_data b @ filter;
            (index_block, ib) = bb_finish (sb_index_block b);
            index_handle = \<lparr>bh_offset = word_of_nat (length data), bh_size = word_of_nat (length index_block)\<rparr>;
            data = data @ index_block;
            data = data @ handle_footer filter_handle @ handle_footer index_handle @ MAGIC
        in Ok (data, b\<lparr>sb_index_block := ib, sb_data := []\<rparr>)))"

subsection \<open>Parsing\<close>

record sstable =
  st_data :: "byte list"
  st_index :: "(byte list \<times> block_handle) list"
  st_bloom :: bloom_filter
  st_first_key :: "byte list"
  st_last_key :: "byte list"
  st_file_no :: "u32 option"

definition slice_handle :: "byte list \<Rightarrow> block_handle \<Rightarrow> byte list result" where
  "slice_handle data h =
     (let start = unat (bh_offset h); stop = start + unat (bh_size h) in
      if stop \<ge> 2 ^ 64 then Err (Runtime ''sstable block handle overflows'')
      else if stop \<le> length data then Ok (subl data start stop)
      else Err (Runtime ''sstable block handle out of range''))"

definition read_u64 :: "byte list \<Rightarrow> nat \<Rightarrow> u64 result" where
  "read_u64 data pos = bindR (rng data pos (pos + 8)) (\<lambda>b. Ok (word_of_nat (le_dec b)))"

fun decode_index :: "(byte list \<times> byte list) list \<Rightarrow> (byte list \<times> block_handle) list result" where
  "decode_index [] = Ok []"
| "decode_index ((key, encoded) # es) =
     bindR (bh_decode encoded) (\<lambda>h. bindR (decode_index es) (\<lambda>index. Ok ((key, h) # index)))"

definition sst_parse :: "byte list \<Rightarrow> sstable result" where
  "sst_parse data =
     (if length data < FOOTER_LEN then Err (Runtime ''sstable is too short'')
      else let magic_at = length data - 8 in
        if drop magic_at data \<noteq> MAGIC then Err (Runtime ''sstable magic mismatch'')
        else let footer = length data - FOOTER_LEN in
          bindR (read_u64 data footer) (\<lambda>filter_offset.
          bindR (read_u64 data (footer + 8)) (\<lambda>filter_size.
          bindR (read_u64 data (footer + 16)) (\<lambda>index_offset.
          bindR (read_u64 data (footer + 24)) (\<lambda>index_size.
          bindR (slice_handle data \<lparr>bh_offset = filter_offset, bh_size = filter_size\<rparr>) (\<lambda>bloom.
          bindR (slice_handle data \<lparr>bh_offset = index_offset, bh_size = index_size\<rparr>) (\<lambda>index_data.
          bindR (block_parse index_data) (\<lambda>index_block.
          bindR (block_entries index_block) (\<lambda>entries.
          bindR (decode_index entries) (\<lambda>index.
          bindR (case index of
                   [] \<Rightarrow> Ok []
                 | (_, handle) # _ \<Rightarrow>
                     bindR (slice_handle data handle) (\<lambda>bytes.
                     bindR (block_parse bytes) (\<lambda>block.
                     bindR (block_first_key block) (\<lambda>k. Ok (case k of None \<Rightarrow> [] | Some key \<Rightarrow> key))))) (\<lambda>first_key.
            let last_key = (if index = [] then [] else fst (last index)) in
            Ok \<lparr>st_data = data, st_index = index, st_bloom = bloom, st_first_key = first_key,
                st_last_key = last_key, st_file_no = None\<rparr>)))))))))))"

definition with_file_no :: "sstable \<Rightarrow> u32 \<Rightarrow> sstable" where
  "with_file_no t n = t\<lparr>st_file_no := Some n\<rparr>"

definition num_blocks :: "sstable \<Rightarrow> nat" where
  "num_blocks t = length (st_index t)"

definition sst_first_key :: "sstable \<Rightarrow> byte list option result" where
  "sst_first_key t = Ok (if st_first_key t = [] then None else Some (st_first_key t))"

definition sst_last_key :: "sstable \<Rightarrow> byte list option" where
  "sst_last_key t = (if st_last_key t = [] then None else Some (st_last_key t))"

subsection \<open>Reading\<close>

definition sst_may_contain :: "sstable \<Rightarrow> byte list \<Rightarrow> bool" where
  "sst_may_contain t key \<longleftrightarrow> st_index t \<noteq> [] \<and> key \<ge> st_first_key t \<and> key \<le> st_last_key t"

definition sst_block :: "sstable \<Rightarrow> block_handle \<Rightarrow> block result" where
  "sst_block t h = bindR (slice_handle (st_data t) h) block_parse"

definition partition_point :: "('a \<Rightarrow> bool) \<Rightarrow> 'a list \<Rightarrow> nat" where
  "partition_point P xs = length (takeWhile P xs)"

definition sst_get :: "sstable \<Rightarrow> byte list \<Rightarrow> byte list option result" where
  "sst_get t key =
     bindR (maybe_contains (st_bloom t) key) (\<lambda>maybe.
       if \<not> maybe then Ok None
       else let pos = partition_point (\<lambda>(last_key, _). last_key < key) (st_index t) in
         if pos \<ge> length (st_index t) then Ok None
         else bindR (sst_block t (snd (st_index t ! pos))) (\<lambda>b. block_get b key))"

definition sst_iter :: "sstable \<Rightarrow> (byte list \<times> byte list) list result" where
  "sst_iter t =
     foldR (\<lambda>out (_, handle). bindR (sst_block t handle) (\<lambda>b. bindR (block_entries b) (\<lambda>es. Ok (out @ es))))
       [] (st_index t)"

record sst_scanner =
  sc_table :: sstable
  sc_next_block :: nat
  sc_current :: "(byte list \<times> byte list) list"

definition sst_scanner_of :: "sstable \<Rightarrow> sst_scanner" where
  "sst_scanner_of t = \<lparr>sc_table = t, sc_next_block = 0, sc_current = []\<rparr>"

function scanner_next :: "sst_scanner \<Rightarrow> ((byte list \<times> byte list) option \<times> sst_scanner) result" where
  "scanner_next s =
     (case sc_current s of
        entry # rest \<Rightarrow> Ok (Some entry, s\<lparr>sc_current := rest\<rparr>)
      | [] \<Rightarrow>
          if sc_next_block s \<ge> length (st_index (sc_table s)) then Ok (None, s)
          else let handle = snd (st_index (sc_table s) ! sc_next_block s) in
            bindR (sst_block (sc_table s) handle) (\<lambda>b.
            bindR (block_entries b) (\<lambda>es.
              scanner_next (s\<lparr>sc_next_block := sc_next_block s + 1, sc_current := es\<rparr>))))"
  by pat_completeness auto

termination
  by (relation "measure (\<lambda>s. length (st_index (sc_table s)) - sc_next_block s)") auto

declare scanner_next.simps [simp del]

subsection \<open>What a builder has written\<close>

type_synonym kvs = "(byte list \<times> byte list) list"

fun handles :: "nat \<Rightarrow> nat \<Rightarrow> kvs list \<Rightarrow> (byte list \<times> block_handle) list" where
  "handles ri off [] = []"
| "handles ri off (bl # bls) =
     (fst (last bl), \<lparr>bh_offset = word_of_nat off, bh_size = word_of_nat (length (block_image ri bl))\<rparr>)
     # handles ri (off + length (block_image ri bl)) bls"

definition blocks_image :: "nat \<Rightarrow> kvs list \<Rightarrow> byte list" where
  "blocks_image ri bls = concat (map (block_image ri) bls)"

definition index_entries :: "nat \<Rightarrow> kvs list \<Rightarrow> kvs" where
  "index_entries ri bls = map (\<lambda>(k, h). (k, bh_encode h)) (handles ri 0 bls)"

lemma blocks_image_simps [simp]:
  "blocks_image ri [] = []" "blocks_image ri (bl # bls) = block_image ri bl @ blocks_image ri bls"
  "blocks_image ri (bls @ bls') = blocks_image ri bls @ blocks_image ri bls'"
  by (simp_all add: blocks_image_def)

lemma length_handles [simp]: "length (handles ri off bls) = length bls"
  by (induction ri off bls rule: handles.induct) auto

lemma handles_snoc:
  "handles ri off (bls @ [bl]) = handles ri off bls @ handles ri (off + length (blocks_image ri bls)) [bl]"
  by (induction ri off bls rule: handles.induct) (auto simp: add.assoc)

definition sb_rep :: "nat \<Rightarrow> sst_builder \<Rightarrow> kvs list \<Rightarrow> kvs \<Rightarrow> kvs \<Rightarrow> bool" where
  "sb_rep ri b bls cur kvs \<longleftrightarrow>
     kvs = concat bls @ cur \<and> [] \<notin> set bls \<and> sb_data b = blocks_image (max ri 1) bls \<and>
     sb_index_block b = bb_add_all (index_entries (max ri 1) bls) (bb_new ri) \<and>
     sb_current b = bb_add_all cur (bb_new ri) \<and>
     (kvs \<noteq> [] \<longrightarrow> sb_last_key b = fst (last kvs)) \<and>
     bl_hashes (sb_bloom b) = map (hash \<circ> fst) kvs \<and> bl_bits_per_key (sb_bloom b) = 10"

lemma bb_add_all_empty: "bb_is_empty (bb_add_all cur (bb_new ri)) \<longleftrightarrow> cur = []"
  using bb_add_all_layout(1) [OF refl refl refl, of cur "bb_new ri"]
  by (simp add: bb_is_empty_def bb_new_def)

lemma sb_rep_new: "sb_rep ri (sb_new bs ri) [] [] []"
  by (simp add: sb_rep_def sb_new_def bloom_new_def BLOOM_BITS_PER_KEY_def index_entries_def)

lemma sb_rep_flush:
  assumes "sb_rep ri b bls cur kvs"
  shows "sb_rep ri (sb_flush_block b) (if cur = [] then bls else bls @ [cur]) [] kvs"
proof (cases "cur = []")
  case True
  with assms have "bb_is_empty (sb_current b)"
    using bb_add_all_empty [of cur ri] by (simp add: sb_rep_def)
  with assms True show ?thesis
    by (simp add: sb_flush_block_def)
next
  case False
  have fin: "bb_finish (bb_add_all cur (bb_new ri)) = (block_image (max ri 1) cur, bb_new ri)"
    by (rule bb_finish_pair)
  have cur: "sb_current b = bb_add_all cur (bb_new ri)" and last: "sb_last_key b = fst (last cur)"
    using assms False by (auto simp: sb_rep_def)
  have "\<not> bb_is_empty (sb_current b)"
    by (simp only: cur bb_add_all_empty False not_False_eq_True)
  then have fl: "sb_flush_block b = b\<lparr>sb_current := bb_new ri, sb_data := sb_data b @ block_image (max ri 1) cur,
     sb_index_block := bb_add (sb_index_block b) (fst (last cur))
       (bh_encode \<lparr>bh_offset = word_of_nat (length (sb_data b)),
          bh_size = word_of_nat (length (block_image (max ri 1) cur))\<rparr>)\<rparr>"
    by (simp add: sb_flush_block_def cur fin last)
  show ?thesis
    using assms False by (auto simp: sb_rep_def fl index_entries_def handles_snoc)
qed

lemma sb_rep_add:
  assumes "sb_rep ri b bls cur kvs"
  shows "\<exists>bls' cur'. sb_rep ri (sb_add b k v) bls' cur' (kvs @ [(k, v)])"
proof -
  let ?b = "b\<lparr>sb_started := True, sb_last_key := k, sb_current := bb_add (sb_current b) k v,
      sb_bloom := bloom_add (sb_bloom b) k, sb_num_entries := sb_num_entries b + 1\<rparr>"
  have "sb_rep ri ?b bls (cur @ [(k, v)]) (kvs @ [(k, v)])"
    using assms by (auto simp: sb_rep_def bloom_add_def)
  with sb_rep_flush [OF this] show ?thesis
    unfolding sb_add_def Let_def by auto
qed

abbreviation sb_add_all :: "kvs \<Rightarrow> sst_builder \<Rightarrow> sst_builder" where
  "sb_add_all kvs b \<equiv> fold (\<lambda>(k, v) b. sb_add b k v) kvs b"

lemma sb_rep_add_all:
  "sb_rep ri b bls cur kvs0 \<Longrightarrow> \<exists>bls' cur'. sb_rep ri (sb_add_all kvs b) bls' cur' (kvs0 @ kvs)"
proof (induction kvs arbitrary: b bls cur kvs0)
  case (Cons kv kvs)
  obtain k v where kv: "kv = (k, v)" by (cases kv)
  from sb_rep_add [OF Cons.prems, of k v] obtain bls' cur' where
    "sb_rep ri (sb_add b k v) bls' cur' (kvs0 @ [(k, v)])" by blast
  from Cons.IH [OF this] kv show ?case by simp
qed auto

definition sst_image :: "nat \<Rightarrow> kvs list \<Rightarrow> byte list \<Rightarrow> byte list" where
  "sst_image ri bls flt =
     (let data = blocks_image ri bls; index = block_image ri (index_entries ri bls)
      in data @ flt @ index @
         handle_footer \<lparr>bh_offset = word_of_nat (length data), bh_size = word_of_nat (length flt)\<rparr> @
         handle_footer \<lparr>bh_offset = word_of_nat (length data + length flt), bh_size = word_of_nat (length index)\<rparr> @
         MAGIC)"

lemma sb_finish_image:
  assumes "10 * length kvs < 2 ^ 60"
  obtains bls flt b where "concat bls = kvs" "[] \<notin> set bls"
    "sb_finish (sb_add_all kvs (sb_new bs ri)) = Ok (sst_image (max ri 1) bls flt, b)"
    "length flt \<le> 10 * length kvs + 10" "\<And>k. k \<in> fst ` set kvs \<Longrightarrow> maybe_contains flt k = Ok True"
proof -
  from sb_rep_add_all [OF sb_rep_new] obtain bls0 cur where
    "sb_rep ri (sb_add_all kvs (sb_new bs ri)) bls0 cur kvs" by fastforce
  from sb_rep_flush [OF this] obtain bls b0 where
    b0: "b0 = sb_flush_block (sb_add_all kvs (sb_new bs ri))" and rep: "sb_rep ri b0 bls [] kvs" by blast
  have bloom: "bl_hashes (sb_bloom b0) = map (hash \<circ> fst) kvs" "bl_bits_per_key (sb_bloom b0) = 10"
    and data: "sb_data b0 = blocks_image (max ri 1) bls"
    using rep by (simp_all add: sb_rep_def)
  from bloom have "bloom_small (sb_bloom b0)"
    using assms by (simp add: bloom_small_def)
  from bloom_finish_Ok [OF this] obtain flt where
    flt: "bloom_finish (sb_bloom b0) = Ok flt" "length flt \<le> 10 * length kvs + 10"
      "\<forall>key. hash key \<in> set (bl_hashes (sb_bloom b0)) \<longrightarrow> maybe_contains flt key = Ok True"
    using bloom by (auto simp: mult.commute)
  have fin: "bb_finish (sb_index_block b0) = (block_image (max ri 1) (index_entries (max ri 1) bls), bb_new ri)"
    using rep by (simp add: sb_rep_def bb_finish_pair)
  have "sb_finish (sb_add_all kvs (sb_new bs ri))
      = Ok (sst_image (max ri 1) bls flt, b0\<lparr>sb_index_block := bb_new ri, sb_data := []\<rparr>)"
    by (simp add: sb_finish_def b0 [symmetric] flt(1) fin sst_image_def data Let_def)
  moreover have "maybe_contains flt k = Ok True" if "k \<in> fst ` set kvs" for k
    using flt(3) that by (auto simp: bloom)
  ultimately show ?thesis
    using that rep flt(2) by (auto simp: sb_rep_def)
qed

subsection \<open>Sizes\<close>

text \<open>Entries of less than one GiB in total keep every offset and length within its field.\<close>

definition fits_table :: "kvs \<Rightarrow> bool" where
  "fits_table kvs \<longleftrightarrow> entries_weight kvs < 2 ^ 30"

lemma entries_weight_append [simp]: "entries_weight (xs @ ys) = entries_weight xs + entries_weight ys"
  by (simp add: entries_weight_def)

lemma length_le_weight: "15 * length kvs \<le> entries_weight kvs"
  by (induction kvs) auto

lemma last_key_weight: "kvs \<noteq> [] \<Longrightarrow> 15 + length (fst (last kvs)) \<le> entries_weight kvs"
  by (induction kvs) (auto split: if_splits)

lemma length_restart_array: "length (concat (map (\<lambda>r. le_enc 4 (unat r)) (rs :: u32 list))) = 4 * length rs"
  by (induction rs) auto

lemma block_image_weight: "0 < ri \<Longrightarrow> length (block_image ri kvs) \<le> entries_weight kvs + 4 * length kvs + 4"
  using run_bytes_weight [of ri 0 "[]" kvs] length_run_offsets_le [of ri kvs]
  by (simp add: block_image_def length_restart_array)

lemma block_image_weight2: "0 < ri \<Longrightarrow> kvs \<noteq> [] \<Longrightarrow> length (block_image ri kvs) \<le> 2 * entries_weight kvs"
  using block_image_weight [of ri kvs] length_le_weight [of kvs] by (cases kvs) auto

lemma blocks_image_weight:
  "0 < ri \<Longrightarrow> [] \<notin> set bls \<Longrightarrow> length (blocks_image ri bls) \<le> 2 * entries_weight (concat bls)"
proof (induction bls)
  case (Cons bl bls)
  then have "bl \<noteq> []" by auto
  with Cons show ?case using block_image_weight2 [of ri bl] by simp
qed simp

lemma bh_encode_length: "length (bh_encode h) \<le> 20"
  using varint64_length [of "bh_offset h"] varint64_length [of "bh_size h"]
  by (simp add: bh_encode_def put_varint64_def)

lemma index_weight:
  "[] \<notin> set bls \<Longrightarrow> entries_weight (map (\<lambda>(k, h). (k, bh_encode h)) (handles ri off bls)) \<le> 3 * entries_weight (concat bls)"
proof (induction ri off bls rule: handles.induct)
  case (2 ri off bl bls)
  then have "bl \<noteq> []" by auto
  with 2 show ?case
    using last_key_weight [of bl] bh_encode_length [of "\<lparr>bh_offset = word_of_nat off, bh_size = word_of_nat (length (block_image ri bl))\<rparr>"]
    by simp
qed simp

lemma fits_table_block:
  assumes "fits_table (concat bls)" "bl \<in> set bls"
  shows "fits_block ri bl"
proof (rule fits_block_weight)
  obtain xs ys where "bls = xs @ bl # ys" using assms(2) by (meson split_list)
  then show "entries_weight bl < 2 ^ 32" using assms(1) by (simp add: fits_table_def)
qed

lemma fits_table_index:
  assumes "fits_table (concat bls)" "[] \<notin> set bls"
  shows "fits_block ri (index_entries ri bls)"
  by (rule fits_block_weight)
    (use index_weight [OF assms(2), of ri 0] assms(1) in \<open>simp add: fits_table_def index_entries_def\<close>)

lemma length_handle_footer [simp]: "length (handle_footer h) = 16"
  by (simp add: handle_footer_def)

lemma length_MAGIC [simp]: "length MAGIC = 8"
  by (simp add: MAGIC_def)

lemma sst_image_small:
  assumes "fits_table (concat bls)" "[] \<notin> set bls" "0 < ri" "length flt \<le> 10 * length (concat bls) + 10"
  shows "length (sst_image ri bls flt) < 2 ^ 64"
proof -
  let ?w = "entries_weight (concat bls)" and ?idx = "index_entries ri bls"
  have "length (blocks_image ri bls) \<le> 2 * ?w"
    by (rule blocks_image_weight [OF assms(3,2)])
  moreover have "length flt \<le> ?w + 10"
    using assms(4) length_le_weight [of "concat bls"] by linarith
  moreover have "length (block_image ri ?idx) \<le> 2 * (3 * ?w) + 4"
    using block_image_weight [OF assms(3), of ?idx] length_le_weight [of ?idx]
      index_weight [OF assms(2), of ri 0] unfolding index_entries_def by linarith
  moreover have "length (sst_image ri bls flt)
      = length (blocks_image ri bls) + length flt + length (block_image ri ?idx) + 40"
    by (simp add: sst_image_def Let_def)
  moreover have "9 * ?w + 54 < 2 ^ 64"
    using assms(1) by (simp add: fits_table_def)
  ultimately show ?thesis by linarith
qed

subsection \<open>Reading a built table back\<close>

lemma slice_handle_mid:
  assumes "length (pre @ x @ post) < 2 ^ 64" "off = length pre" "n = length x"
  shows "slice_handle (pre @ x @ post) \<lparr>bh_offset = word_of_nat off, bh_size = word_of_nat n\<rparr> = Ok x"
proof -
  have "length pre < 2 ^ 64" "length x < 2 ^ 64"
    using assms(1) by auto
  then have "unat (word_of_nat off :: u64) = length pre" "unat (word_of_nat n :: u64) = length x"
    unfolding assms(2,3) by (auto intro!: unat_u64_of_nat simp del: unat_of_nat)
  then show ?thesis
    using assms(1) by (simp add: slice_handle_def subl_mid del: unat_of_nat)
qed

lemma bh_decode_encode: "bh_decode (bh_encode h) = Ok h"
proof -
  have 1: "get_varint64 (bh_encode h) 0 = Ok (bh_offset h, length (varint_bytes (bh_offset h)))"
    using get_varint64_encoded [of 0 "[]" "bh_offset h" "varint_bytes (bh_size h)"]
    by (simp add: bh_encode_def put_varint64_def)
  have 2: "get_varint64 (bh_encode h) (length (varint_bytes (bh_offset h)))
      = Ok (bh_size h, length (varint_bytes (bh_offset h)) + length (varint_bytes (bh_size h)))"
    using get_varint64_encoded [of _ "varint_bytes (bh_offset h)" "bh_size h" "[]"]
    by (simp add: bh_encode_def put_varint64_def)
  show ?thesis
    by (simp add: bh_decode_def 1 2)
qed

lemma decode_index_encoded: "decode_index (map (\<lambda>(k, h). (k, bh_encode h)) hs) = Ok hs"
  by (induction hs) (auto simp: bh_decode_encode)

lemma read_u64_mid:
  "pos = length pre \<Longrightarrow> read_u64 (pre @ le_enc 8 (unat w) @ post) pos = Ok w"
  by (simp add: read_u64_def rng_mid le_dec_unat64)

text \<open>The parsed form of an image, and the bounds under which it is what parsing returns.\<close>

definition sst_of :: "nat \<Rightarrow> kvs list \<Rightarrow> byte list \<Rightarrow> sstable" where
  "sst_of ri bls flt = \<lparr>st_data = sst_image ri bls flt, st_index = handles ri 0 bls, st_bloom = flt,
     st_first_key = (if bls = [] then [] else fst (hd (hd bls))),
     st_last_key = (if bls = [] then [] else fst (last (last bls))), st_file_no = None\<rparr>"

definition sst_ok :: "nat \<Rightarrow> kvs list \<Rightarrow> byte list \<Rightarrow> bool" where
  "sst_ok ri bls flt \<longleftrightarrow> 0 < ri \<and> [] \<notin> set bls \<and> fits_table (concat bls) \<and> length (sst_image ri bls flt) < 2 ^ 64"

lemma handles_nth:
  assumes "i < length bls"
  shows "handles ri off bls ! i = (fst (last (bls ! i)),
    \<lparr>bh_offset = word_of_nat (off + length (blocks_image ri (take i bls))),
     bh_size = word_of_nat (length (block_image ri (bls ! i)))\<rparr>)"
  using assms
proof (induction bls arbitrary: i off)
  case (Cons bl bls)
  then show ?case by (cases i) (simp_all add: add.assoc)
qed simp

lemma handles_eq_Nil [simp]: "handles ri off bls = [] \<longleftrightarrow> bls = []"
  by (cases bls) auto

lemma handles_last: "bls \<noteq> [] \<Longrightarrow> fst (last (handles ri off bls)) = fst (last (last bls))"
  by (induction ri off bls rule: handles.induct) auto

lemma slice_block:
  assumes "sst_ok ri bls flt" "i < length bls"
  shows "slice_handle (sst_image ri bls flt) (snd (handles ri 0 bls ! i)) = Ok (block_image ri (bls ! i))"
proof -
  have "bls = take i bls @ [bls ! i] @ drop (Suc i) bls"
    using assms(2) by (simp add: id_take_nth_drop)
  then have "blocks_image ri bls = blocks_image ri (take i bls) @ block_image ri (bls ! i) @ blocks_image ri (drop (Suc i) bls)"
    by (metis append.right_neutral blocks_image_simps append_assoc)
  then obtain post where
    img: "sst_image ri bls flt = blocks_image ri (take i bls) @ block_image ri (bls ! i) @ post"
    by (simp add: sst_image_def Let_def)
  show ?thesis
    using assms by (simp add: handles_nth img slice_handle_mid sst_ok_def del: of_nat_add)
qed

lemma sst_block_of:
  assumes "sst_ok ri bls flt" "i < length bls"
  shows "sst_block (sst_of ri bls flt) (snd (handles ri 0 bls ! i)) = Ok (block_of ri (bls ! i))"
  using slice_block [OF assms] fits_table_block [of bls "bls ! i" ri] assms
  by (simp add: sst_block_def sst_of_def block_parse_image sst_ok_def)


lemma sst_parse_footer:
  assumes ok: "sst_ok ri bls flt"
  shows "sst_parse (sst_image ri bls flt) =
    bindR (case handles ri 0 bls of
             [] \<Rightarrow> Ok []
           | (_, h) # _ \<Rightarrow> bindR (slice_handle (sst_image ri bls flt) h) (\<lambda>bytes. bindR (block_parse bytes) (\<lambda>b.
               bindR (block_first_key b) (\<lambda>k. Ok (case k of None \<Rightarrow> [] | Some key \<Rightarrow> key)))))
      (\<lambda>first_key. Ok ((sst_of ri bls flt)\<lparr>st_first_key := first_key,
          st_last_key := (if handles ri 0 bls = [] then [] else fst (last (handles ri 0 bls)))\<rparr>))"
proof -
  let ?img = "sst_image ri bls flt" and ?d = "blocks_image ri bls"
  let ?idx = "block_image ri (index_entries ri bls)"
  let ?fo = "word_of_nat (length ?d) :: u64" and ?fs = "word_of_nat (length flt) :: u64"
  let ?io = "word_of_nat (length ?d + length flt) :: u64" and ?is = "word_of_nat (length ?idx) :: u64"
  define body where "body = ?d @ flt @ ?idx"
  define foot where "foot = length body"
  have img: "?img = body @ le_enc 8 (unat ?fo) @ le_enc 8 (unat ?fs) @ le_enc 8 (unat ?io) @ le_enc 8 (unat ?is) @ MAGIC"
    by (simp add: sst_image_def Let_def handle_footer_def body_def)
  have len: "length ?img = foot + 40" and small: "length ?img < 2 ^ 64"
    using ok by (simp_all add: img sst_ok_def foot_def)
  have magic: "drop (32 + foot) ?img = MAGIC"
    by (simp add: img foot_def)
  have f: "read_u64 ?img foot = Ok ?fo" "read_u64 ?img (foot + 8) = Ok ?fs"
    "read_u64 ?img (foot + 16) = Ok ?io" "read_u64 ?img (foot + 24) = Ok ?is"
    using read_u64_mid [of foot body ?fo]
      read_u64_mid [of "foot + 8" "body @ le_enc 8 (unat ?fo)" ?fs]
      read_u64_mid [of "foot + 16" "body @ le_enc 8 (unat ?fo) @ le_enc 8 (unat ?fs)" ?io]
      read_u64_mid [of "foot + 24" "body @ le_enc 8 (unat ?fo) @ le_enc 8 (unat ?fs) @ le_enc 8 (unat ?io)" ?is]
    unfolding img foot_def by simp_all
  have s1: "slice_handle ?img \<lparr>bh_offset = ?fo, bh_size = ?fs\<rparr> = Ok flt"
    using slice_handle_mid [of ?d flt] small unfolding img body_def by simp
  have s2: "slice_handle ?img \<lparr>bh_offset = ?io, bh_size = ?is\<rparr> = Ok ?idx"
    using slice_handle_mid [of "?d @ flt" ?idx] small unfolding img body_def by simp
  have idx: "block_parse ?idx = Ok (block_of ri (index_entries ri bls))"
    "block_entries (block_of ri (index_entries ri bls)) = Ok (index_entries ri bls)"
    "decode_index (index_entries ri bls) = Ok (handles ri 0 bls)"
    using ok fits_table_index [of bls ri]
    by (simp_all add: sst_ok_def block_parse_image block_entries_of index_entries_def decode_index_encoded)
  show ?thesis
    unfolding sst_parse_def
    by (simp add: Let_def len magic f s1 s2 idx FOOTER_LEN_def sst_of_def cong: bindR_cong del: of_nat_add)
qed

lemma sst_parse_image:
  assumes ok: "sst_ok ri bls flt"
  shows "sst_parse (sst_image ri bls flt) = Ok (sst_of ri bls flt)"
proof (cases bls)
  case Nil
  then show ?thesis
    unfolding sst_parse_footer [OF ok] by (simp add: sst_of_def)
next
  case (Cons bl bls')
  have blk: "slice_handle (sst_image ri bls flt) (snd (handles ri 0 bls ! 0)) = Ok (block_image ri bl)"
    using slice_block [OF ok, of 0] Cons by simp
  have bl: "fits_block ri bl" "bl \<noteq> []" "0 < ri"
    using ok fits_table_block [of bls bl ri] Cons by (auto simp: sst_ok_def)
  have last: "fst (last (handles ri 0 bls)) = fst (last (last bls))"
    using Cons by (intro handles_last) simp
  obtain h hs where hs: "handles ri 0 bls = h # hs" using Cons by auto
  show ?thesis
    unfolding sst_parse_footer [OF ok] using blk bl last Cons
    by (simp add: hs block_parse_image block_first_key_of split: prod.splits) (simp add: sst_of_def)
qed

lemma foldR_blocks:
  assumes "sst_ok ri bls flt" "bls = pre @ suf" "out = concat pre"
  shows "foldR (\<lambda>out (_, h). bindR (sst_block (sst_of ri bls flt) h) (\<lambda>b. bindR (block_entries b) (\<lambda>es. Ok (out @ es))))
      out (drop (length pre) (handles ri 0 bls)) = Ok (concat bls)"
  using assms(2,3)
proof (induction suf arbitrary: pre out)
  case (Cons bl suf)
  have i: "length pre < length bls" "bls ! length pre = bl"
    using Cons.prems by (auto simp: nth_append)
  have fits: "fits_block ri bl" "0 < ri"
    using assms(1) fits_table_block [of bls bl ri] Cons.prems(1) by (auto simp: sst_ok_def)
  have drop_: "drop (length pre) (handles ri 0 bls) = handles ri 0 bls ! length pre # drop (Suc (length pre)) (handles ri 0 bls)"
    using i(1) by (simp add: Cons_nth_drop_Suc)
  have "sst_block (sst_of ri bls flt) (snd (handles ri 0 bls ! length pre)) = Ok (block_of ri bl)"
    using sst_block_of [OF assms(1) i(1)] i(2) by simp
  with fits drop_ Cons.IH [of "pre @ [bl]" "out @ bl"] Cons.prems show ?case
    by (simp add: block_entries_of case_prod_beta)
qed simp

lemma sst_iter_of: "sst_ok ri bls flt \<Longrightarrow> sst_iter (sst_of ri bls flt) = Ok (concat bls)"
  using foldR_blocks [of ri bls flt "[]" bls "[]"] by (simp add: sst_iter_def) (simp add: sst_of_def)

lemma ascending_appendD:
  "ascending (xs @ ys) \<Longrightarrow> ascending xs \<and> ascending ys \<and> (\<forall>x \<in> set xs. \<forall>y \<in> set ys. fst x < fst y)"
  by (auto simp: sorted_wrt_append)

lemma ascending_le_last:
  assumes "ascending xs" "x \<in> set xs"
  shows "fst x \<le> fst (last xs)"
proof -
  have "xs = butlast xs @ [last xs]" using assms(2) by (cases xs) auto
  with assms have "ascending (butlast xs @ [last xs])" "x \<in> set (butlast xs) \<or> x = last xs"
    by (auto, metis Un_iff set_append empty_iff empty_set insert_iff list.simps(15))
  then show ?thesis by (auto simp: sorted_wrt_append)
qed

lemma ascending_concatD: "ascending (concat bls) \<Longrightarrow> bl \<in> set bls \<Longrightarrow> ascending bl"
  by (induction bls) (auto simp: sorted_wrt_append)

lemma partition_point_block:
  assumes "ascending (concat bls)" "[] \<notin> set bls"
  shows "map_of (concat bls) key =
    (let p = partition_point (\<lambda>(lk, _). lk < key) (handles ri off bls)
     in if p < length bls then map_of (bls ! p) key else None)"
  using assms
proof (induction ri off bls rule: handles.induct)
  case (2 ri off bl bls)
  from 2(2) have asc: "ascending bl" "ascending (concat bls)"
    and sep: "\<forall>x \<in> set bl. \<forall>y \<in> set (concat bls). fst x < fst y"
    using ascending_appendD [of bl "concat bls"] by auto
  from 2(3) have ne: "bl \<noteq> []" "[] \<notin> set bls" by auto
  show ?case
  proof (cases "fst (last bl) < key")
    case True
    have "map_of bl key = None"
      using ascending_le_last [OF asc(1)] True by (fastforce simp: map_of_eq_None_iff)
    with True 2(1) [OF asc(2) ne(2)] show ?thesis
      by (auto simp: partition_point_def map_add_def split: option.splits)
  next
    case False
    have "map_of (concat bls) key = None"
      using sep False ne(1) last_in_set [of bl] by (fastforce simp: map_of_eq_None_iff)
    with False show ?thesis
      by (auto simp: partition_point_def map_add_def split: option.splits)
  qed
qed (simp add: partition_point_def)

lemma sst_get_of:
  assumes ok: "sst_ok ri bls flt" and asc: "ascending (concat bls)"
    and bloom: "\<And>k. k \<in> fst ` set (concat bls) \<Longrightarrow> maybe_contains flt k = Ok True"
    and total: "\<exists>m. maybe_contains flt key = Ok m"
  shows "sst_get (sst_of ri bls flt) key = Ok (map_of (concat bls) key)"
proof -
  let ?p = "partition_point (\<lambda>(lk, _). lk < key) (handles ri 0 bls)"
  have ne: "[] \<notin> set bls" using ok by (simp add: sst_ok_def)
  note pp = partition_point_block [OF asc ne, of key ri 0]
  have blk: "bindR (sst_block (sst_of ri bls flt) (snd (handles ri 0 bls ! ?p))) (\<lambda>b. block_get b key)
      = Ok (map_of (bls ! ?p) key)" if "?p < length bls"
  proof -
    have "ascending (bls ! ?p)" "fits_block ri (bls ! ?p)" "0 < ri"
      using ascending_concatD [OF asc] that ok fits_table_block [of bls "bls ! ?p" ri] by (auto simp: sst_ok_def)
    then show ?thesis
      by (simp add: sst_block_of [OF ok that] block_get_of)
  qed
  obtain m where m: "maybe_contains flt key = Ok m" using total by blast
  have "\<not> m \<Longrightarrow> map_of (concat bls) key = None"
    using bloom [of key] m by (auto simp: map_of_eq_None_iff)
  then show ?thesis
    using m pp blk by (auto simp: sst_get_def Let_def) (auto simp: sst_of_def)
qed

subsection \<open>Well-formed tables and the interface they provide\<close>

definition sst_wf :: "sstable \<Rightarrow> bool" where
  "sst_wf t \<longleftrightarrow> (\<exists>ri bls flt n. t = (sst_of ri bls flt)\<lparr>st_file_no := n\<rparr> \<and> sst_ok ri bls flt \<and>
     ascending (concat bls) \<and> 8 * length flt < 2 ^ 64 \<and>
     (\<forall>k \<in> fst ` set (concat bls). maybe_contains flt k = Ok True))"

definition sst_contents :: "sstable \<Rightarrow> kvs" where
  "sst_contents t = (case sst_iter t of Ok es \<Rightarrow> es | Err _ \<Rightarrow> [])"

lemma file_no_irrelevant [simp]:
  "sst_get (t\<lparr>st_file_no := n\<rparr>) k = sst_get t k" "sst_iter (t\<lparr>st_file_no := n\<rparr>) = sst_iter t"
  "sst_may_contain (t\<lparr>st_file_no := n\<rparr>) k = sst_may_contain t k"
  "sst_contents (t\<lparr>st_file_no := n\<rparr>) = sst_contents t"
  "sst_block (t\<lparr>st_file_no := n\<rparr>) h = sst_block t h"
proof -
  show b: "sst_block (t\<lparr>st_file_no := n\<rparr>) h = sst_block t h" for h
    by (simp add: sst_block_def)
  show "sst_get (t\<lparr>st_file_no := n\<rparr>) k = sst_get t k"
    and i: "sst_iter (t\<lparr>st_file_no := n\<rparr>) = sst_iter t"
    and "sst_may_contain (t\<lparr>st_file_no := n\<rparr>) k = sst_may_contain t k"
    by (simp_all add: sst_get_def sst_iter_def sst_may_contain_def b Let_def cong: if_cong)
  show "sst_contents (t\<lparr>st_file_no := n\<rparr>) = sst_contents t"
    by (simp add: sst_contents_def i)
qed

lemma sst_wf_file_no [simp]: "sst_wf t \<Longrightarrow> sst_wf (with_file_no t n)"
  unfolding sst_wf_def with_file_no_def by fastforce

lemma sst_wfE:
  assumes "sst_wf t"
  obtains ri bls flt n where "t = (sst_of ri bls flt)\<lparr>st_file_no := n\<rparr>" "sst_ok ri bls flt"
    "ascending (concat bls)" "\<And>k. \<exists>m. maybe_contains flt k = Ok m"
    "\<And>k. k \<in> fst ` set (concat bls) \<Longrightarrow> maybe_contains flt k = Ok True" "sst_contents t = concat bls"
proof -
  from assms obtain ri bls flt n where t: "t = (sst_of ri bls flt)\<lparr>st_file_no := n\<rparr>" "sst_ok ri bls flt"
    "ascending (concat bls)" "8 * length flt < 2 ^ 64"
    "\<forall>k \<in> fst ` set (concat bls). maybe_contains flt k = Ok True"
    unfolding sst_wf_def by (elim exE conjE)
  have "sst_contents t = concat bls"
    by (simp add: t(1) sst_contents_def sst_iter_of [OF t(2)])
  then show ?thesis
    using that t(1-3,5) maybe_contains_total [OF t(4)] by blast
qed

lemma ascending_ge_hd: "ascending xs \<Longrightarrow> x \<in> set xs \<Longrightarrow> fst (hd xs) \<le> fst x"
  by (cases xs) (auto simp: less_imp_le)

lemma sst_may_contain_of:
  assumes "sst_ok ri bls flt" "ascending (concat bls)" "map_of (concat bls) k \<noteq> None"
  shows "sst_may_contain (sst_of ri bls flt) k"
proof -
  obtain v where kv: "(k, v) \<in> set (concat bls)"
    using assms(3) by (auto dest: map_of_SomeD)
  then have "bls \<noteq> []" by auto
  then obtain bl bls' where bls: "bls = bl # bls'" by (cases bls) auto
  have ne: "[] \<notin> set bls" using assms(1) by (simp add: sst_ok_def)
  have "fst (hd bl) \<le> k"
  proof -
    obtain x xs where "bl = x # xs" using ne bls by (cases bl) auto
    with ascending_ge_hd [OF assms(2) kv] bls show ?thesis by simp
  qed
  moreover have "k \<le> fst (last (last bls))"
  proof -
    have "last (concat bls) = last (last bls)"
      using ne \<open>bls \<noteq> []\<close> by (cases bls rule: rev_cases) auto
    with ascending_le_last [OF assms(2) kv] show ?thesis by simp
  qed
  ultimately show ?thesis
    using bls by (simp add: sst_may_contain_def sst_of_def)
qed

interpretation sst: sorted_table sst_wf sst_contents sst_get sst_iter sst_may_contain
proof
  fix t :: sstable and k :: "byte list"
  assume "sst_wf t"
  then show "ascending (sst_contents t)"
    by (rule sst_wfE) simp
  from \<open>sst_wf t\<close> show "sst_get t k = Ok (map_of (sst_contents t) k)"
    by (rule sst_wfE) (simp add: sst_get_of del: set_concat)
  from \<open>sst_wf t\<close> show "sst_iter t = Ok (sst_contents t)"
    by (rule sst_wfE) (simp add: sst_iter_of)
  assume "map_of (sst_contents t) k \<noteq> None"
  with \<open>sst_wf t\<close> show "sst_may_contain t k"
    by (auto elim!: sst_wfE simp: sst_may_contain_of)
qed

lemma sst_build:
  assumes "ascending kvs" "fits_table kvs"
  shows "\<exists>img b t. sb_finish (sb_add_all kvs (sb_new bs ri)) = Ok (img, b) \<and> sst_parse img = Ok t \<and>
    sst_wf t \<and> sst_contents t = kvs"
proof -
  have "15 * length kvs < 2 ^ 30"
    using assms(2) length_le_weight [of kvs] by (simp add: fits_table_def)
  then have small: "10 * length kvs < 2 ^ 60" by simp
  from sb_finish_image [OF small] obtain bls flt b where
    bls: "concat bls = kvs" "[] \<notin> set bls"
    and fin: "sb_finish (sb_add_all kvs (sb_new bs ri)) = Ok (sst_image (max ri 1) bls flt, b)"
    and flt: "length flt \<le> 10 * length kvs + 10" "\<And>k. k \<in> fst ` set kvs \<Longrightarrow> maybe_contains flt k = Ok True"
    by metis
  have ok: "sst_ok (max ri 1) bls flt"
    using sst_image_small [of bls "max ri 1" flt] bls flt(1) assms(2) by (simp add: sst_ok_def)
  have "sst_wf (sst_of (max ri 1) bls flt)"
    unfolding sst_wf_def
    by (intro exI [of _ "max ri 1"] exI [of _ bls] exI [of _ flt] exI [of _ None])
      (use ok bls(1) flt small assms(1) in \<open>simp add: sst_of_def\<close>)
  with fin sst_parse_image [OF ok] bls(1) sst_iter_of [OF ok] show ?thesis
    by (auto simp: sst_contents_def)
qed

subsection \<open>The lazy scanner\<close>

definition scans :: "sst_scanner \<Rightarrow> kvs \<Rightarrow> bool" where
  "scans s es \<longleftrightarrow> (\<exists>ri bls flt n. sc_table s = (sst_of ri bls flt)\<lparr>st_file_no := n\<rparr> \<and> sst_ok ri bls flt \<and>
     es = sc_current s @ concat (drop (sc_next_block s) bls))"

lemma scans_new: "sst_wf t \<Longrightarrow> scans (sst_scanner_of t) (sst_contents t)"
proof -
  assume "sst_wf t"
  then obtain ri bls flt n where "t = (sst_of ri bls flt)\<lparr>st_file_no := n\<rparr>" "sst_ok ri bls flt"
    "sst_contents t = concat bls" by (rule sst_wfE)
  then show ?thesis
    unfolding scans_def sst_scanner_of_def
    by (intro exI [of _ ri] exI [of _ bls] exI [of _ flt] exI [of _ n]) simp
qed

lemma scanner_next_spec:
  "scans s es \<Longrightarrow> \<exists>s'. scanner_next s = Ok (if es = [] then None else Some (hd es), s') \<and> scans s' (tl es)"
proof (induction s rule: scanner_next.induct)
  case (1 s)
  from 1(2) obtain ri bls flt n where t: "sc_table s = (sst_of ri bls flt)\<lparr>st_file_no := n\<rparr>"
    and ok: "sst_ok ri bls flt" and es: "es = sc_current s @ concat (drop (sc_next_block s) bls)"
    unfolding scans_def by (elim exE conjE)
  have idx: "st_index (sc_table s) = handles ri 0 bls"
    by (simp add: t sst_of_def)
  show ?case
  proof (cases "sc_current s")
    case (Cons e rest)
    have "scans (s\<lparr>sc_current := rest\<rparr>) (tl es)"
      unfolding scans_def using t ok es Cons by auto
    then show ?thesis
      by (subst scanner_next.simps) (simp add: Cons es)
  next
    case Nil
    show ?thesis
    proof (cases "sc_next_block s < length bls")
      case False
      then show ?thesis
        using 1(2) es by (subst scanner_next.simps) (simp add: Nil idx)
    next
      case True
      let ?i = "sc_next_block s"
      let ?s = "s\<lparr>sc_next_block := ?i + 1, sc_current := bls ! ?i\<rparr>"
      have blk: "sst_block (sc_table s) (snd (handles ri 0 bls ! ?i)) = Ok (block_of ri (bls ! ?i))"
        by (simp add: t sst_block_of [OF ok True])
      have ent: "block_entries (block_of ri (bls ! ?i)) = Ok (bls ! ?i)"
        using ok True fits_table_block [of bls "bls ! ?i" ri] by (simp add: sst_ok_def block_entries_of)
      have "scans ?s es"
        unfolding scans_def using t ok es Nil True by (auto simp: Cons_nth_drop_Suc [symmetric])
      with 1(1) [OF Nil _ refl _ ent] True blk have
        "\<exists>s'. scanner_next ?s = Ok (if es = [] then None else Some (hd es), s') \<and> scans s' (tl es)"
        by (simp add: idx)
      then show ?thesis
        using True by (subst scanner_next.simps) (simp add: Nil idx blk ent)
    qed
  qed
qed

text \<open>Calling the scanner until it returns nothing, at most \<open>n\<close> times.\<close>

fun scanner_drain :: "nat \<Rightarrow> sst_scanner \<Rightarrow> kvs result" where
  "scanner_drain 0 s = Ok []"
| "scanner_drain (Suc n) s =
     bindR (scanner_next s) (\<lambda>(e, s').
       case e of None \<Rightarrow> Ok [] | Some kv \<Rightarrow> bindR (scanner_drain n s') (\<lambda>kvs. Ok (kv # kvs)))"

lemma scanner_drain_spec: "scans s es \<Longrightarrow> scanner_drain n s = Ok (take n es)"
proof (induction n arbitrary: s es)
  case (Suc n)
  from scanner_next_spec [OF Suc.prems] obtain s' where
    s': "scanner_next s = Ok (if es = [] then None else Some (hd es), s')" "scans s' (tl es)" by blast
  show ?case
    using Suc.IH [OF s'(2)] by (cases es) (simp_all add: s'(1))
qed simp

text \<open>
  C3: A sorted string table built from ascending entries and parsed back contains exactly these
  entries: iteration returns them in order, a lookup (Bloom filter, index search, block search)
  returns the value of every stored key and nothing for any other key, and the key range check
  admits every stored key; the lazy scanner yields the entries one by one in order. The entries may have any block size and restart interval; their
  total size is below one GiB so that offsets fit their fields.
\<close>

theorem sstable_roundtrip:
  assumes "ascending kvs" and "fits_table kvs"
  shows "\<exists>img b t. sb_finish (fold (\<lambda>(k, v) b. sb_add b k v) kvs (sb_new block_size restart_interval)) = Ok (img, b) \<and>
    sst_parse img = Ok t \<and> sst_iter t = Ok kvs \<and> (\<forall>k. sst_get t k = Ok (map_of kvs k)) \<and>
    (\<forall>k v. (k, v) \<in> set kvs \<longrightarrow> sst_may_contain t k) \<and>
    (\<forall>n. scanner_drain n (sst_scanner_of t) = Ok (take n kvs))"
proof -
  from sst_build [OF assms] obtain img b t where
    t: "sb_finish (sb_add_all kvs (sb_new block_size restart_interval)) = Ok (img, b)" "sst_parse img = Ok t"
      "sst_wf t" "sst_contents t = kvs" by blast
  have "sst_may_contain t k" if "(k, v) \<in> set kvs" for k v
    using sst.may_contain_complete [OF t(3), of k] that
    by (auto simp: t(4) map_of_eq_None_iff) (metis fst_conv image_eqI)
  with t show ?thesis
    using sst.iter_contents [OF t(3)] sst.get_contents [OF t(3)] scanner_drain_spec [OF scans_new [OF t(3)]] by auto
qed

theorem sstable_roundtrip_witness:
  "\<exists>img b t. sb_finish (fold (\<lambda>(k, v) b. sb_add b k v) [([1], [7]), ([2, 3], [8])] (sb_new 64 16)) = Ok (img, b) \<and>
    sst_parse img = Ok t \<and> sst_get t [2, 3] = Ok (Some [8]) \<and> sst_get t [2] = Ok None"
proof -
  have "ascending [([1 :: byte], [7 :: byte]), ([2, 3], [8])]" "fits_table [([1], [7]), ([2, 3], [8])]"
    by (simp_all add: fits_table_def)
  from sstable_roundtrip [OF this, of 64 16] obtain img b t where
    "sb_finish (fold (\<lambda>(k, v) b. sb_add b k v) [([1], [7]), ([2, 3], [8])] (sb_new 64 16)) = Ok (img, b)"
    "sst_parse img = Ok t" "\<forall>k. sst_get t k = Ok (map_of [([1], [7]), ([2, 3], [8])] k)"
    by (elim exE conjE)
  then show ?thesis
    by (intro exI [of _ img] exI [of _ b] exI [of _ t] conjI) simp_all
qed

end
