(* ===== verification/Memtable.thy ===== *)
theory Memtable
  imports Prelude
begin

section \<open>The memtable\<close>

text \<open>
  \<open>src/src/storage/lsm/memtable.rs\<close>: the sorted write buffer of the LSM store. \<open>mem_entry\<close> is
  \<open>MemEntry\<close>, a live value or a tombstone; \<open>memtable\<close> is \<open>MemTable\<close>, whose lock is held for the
  whole of each operation, so an operation is one state transition. The lemmas show that the table
  stays sorted, that it is the map it claims to be, and that the byte counter is exact, so that
  \<open>fetch_sub\<close> never wraps.
\<close>

datatype mem_entry = Value "byte list" | Tombstone

fun is_tombstone :: "mem_entry \<Rightarrow> bool" where
  "is_tombstone Tombstone = True"
| "is_tombstone (Value v) = False"

fun me_value :: "mem_entry \<Rightarrow> byte list option" where
  "me_value (Value v) = Some v"
| "me_value Tombstone = None"

fun payload_len :: "mem_entry \<Rightarrow> nat" where
  "payload_len (Value v) = length v"
| "payload_len Tombstone = 0"

record memtable =
  mt_map :: "(byte list \<times> mem_entry) list"
  mt_bytes :: nat

definition mt_new :: memtable where
  "mt_new = \<lparr>mt_map = [], mt_bytes = 0\<rparr>"

definition account :: "memtable \<Rightarrow> nat \<Rightarrow> mem_entry option \<Rightarrow> mem_entry \<Rightarrow> memtable" where
  "account t key_len old new =
     (let old_bytes = (case old of None \<Rightarrow> 0 | Some e \<Rightarrow> key_len + payload_len e);
          new_bytes = key_len + payload_len new
      in if new_bytes \<ge> old_bytes then t\<lparr>mt_bytes := mt_bytes t + (new_bytes - old_bytes)\<rparr>
         else t\<lparr>mt_bytes := mt_bytes t - (old_bytes - new_bytes)\<rparr>)"

definition mt_write :: "memtable \<Rightarrow> byte list \<Rightarrow> mem_entry \<Rightarrow> memtable" where
  "mt_write t key entry =
     (let old = map_of (mt_map t) key
      in account (t\<lparr>mt_map := bt_insert key entry (mt_map t)\<rparr>) (length key) old entry)"

definition mt_put :: "memtable \<Rightarrow> byte list \<Rightarrow> byte list \<Rightarrow> memtable" where
  "mt_put t key value = mt_write t key (Value value)"

definition mt_delete :: "memtable \<Rightarrow> byte list \<Rightarrow> memtable" where
  "mt_delete t key = mt_write t key Tombstone"

definition mt_get :: "memtable \<Rightarrow> byte list \<Rightarrow> mem_entry option" where
  "mt_get t key = map_of (mt_map t) key"

definition mt_iter :: "memtable \<Rightarrow> (byte list \<times> mem_entry) list" where
  "mt_iter t = mt_map t"

text \<open>\<open>BTreeMap::range\<close> panics when the range starts after it ends.\<close>

definition mt_range :: "memtable \<Rightarrow> byte list \<Rightarrow> byte list \<Rightarrow> (byte list \<times> mem_entry) list result" where
  "mt_range t start stop = (if start > stop then Err Panic else Ok (bt_range start stop (mt_map t)))"

definition approx_bytes :: "memtable \<Rightarrow> nat" where
  "approx_bytes t = mt_bytes t"

definition mt_len :: "memtable \<Rightarrow> nat" where
  "mt_len t = length (mt_map t)"

definition mt_is_empty :: "memtable \<Rightarrow> bool" where
  "mt_is_empty t \<longleftrightarrow> mt_map t = []"

subsection \<open>Invariant\<close>

definition entries_bytes :: "(byte list \<times> mem_entry) list \<Rightarrow> nat" where
  "entries_bytes m = sum_list (map (\<lambda>(k, e). length k + payload_len e) m)"

definition mt_inv :: "memtable \<Rightarrow> bool" where
  "mt_inv t \<longleftrightarrow> ascending (mt_map t) \<and> mt_bytes t = entries_bytes (mt_map t)"

lemma entries_bytes_simps [simp]:
  "entries_bytes [] = 0" "entries_bytes ((k, e) # m) = length k + payload_len e + entries_bytes m"
  by (simp_all add: entries_bytes_def)

lemma entries_bytes_insert:
  "ascending m \<Longrightarrow> entries_bytes (bt_insert k e m) + (case map_of m k of None \<Rightarrow> 0 | Some e' \<Rightarrow> length k + payload_len e')
     = entries_bytes m + length k + payload_len e"
proof (induction k e m rule: bt_insert.induct)
  case (2 k e k' e' m)
  have "k < k' \<Longrightarrow> map_of m k = None"
    using 2(2) by (auto simp: map_of_eq_None_iff)
  with 2 show ?case by (auto split: option.splits)
qed simp

lemma mt_inv_new: "mt_inv mt_new"
  by (simp add: mt_inv_def mt_new_def)

lemma mt_map_write [simp]: "mt_map (mt_write t k e) = bt_insert k e (mt_map t)"
  by (simp add: mt_write_def account_def Let_def)

lemma mt_inv_write: "mt_inv t \<Longrightarrow> mt_inv (mt_write t k e)"
  using entries_bytes_insert [of "mt_map t" k e]
  by (auto simp: mt_inv_def mt_write_def account_def Let_def split: option.splits)

lemma mt_get_write: "mt_inv t \<Longrightarrow> mt_get (mt_write t k e) = (mt_get t)(k \<mapsto> e)"
  by (rule ext) (simp add: mt_inv_def mt_get_def bt_simps)

lemma mt_writes:
  "mt_inv t \<Longrightarrow> mt_inv (fold (\<lambda>(k, e) t. mt_write t k e) ws t) \<and>
     mt_get (fold (\<lambda>(k, e) t. mt_write t k e) ws t) = mt_get t ++ map_of (rev ws)"
  by (induction ws arbitrary: t) (auto simp: mt_inv_write mt_get_write map_add_def fun_eq_iff split: option.splits)

lemma mt_get_new: "mt_get mt_new = Map.empty"
  by (simp add: fun_eq_iff mt_get_def mt_new_def)

fun mt_apply :: "byte list \<times> mem_entry \<Rightarrow> memtable \<Rightarrow> memtable" where
  "mt_apply (k, Value v) t = mt_put t k v"
| "mt_apply (k, Tombstone) t = mt_delete t k"

lemma mt_apply_entry: "mt_apply (k, e) t = mt_write t k e"
  by (cases e) (simp_all add: mt_put_def mt_delete_def)

lemma mt_apply_write: "mt_apply = (\<lambda>(k, e) t. mt_write t k e)"
  by (intro ext) (auto simp: mt_apply_entry)

text \<open>
  After any sequence of puts and deletes the memtable is sorted, returns for every key the last
  entry written to it (a tombstone included), and its byte counter is exactly the size of the keys
  and live values it holds.
\<close>

lemma memtable_last_write_wins:
  "ascending (mt_iter (fold mt_apply ws mt_new)) \<and> mt_get (fold mt_apply ws mt_new) = map_of (rev ws) \<and>
   approx_bytes (fold mt_apply ws mt_new)
     = sum_list (map (\<lambda>(k, e). length k + payload_len e) (mt_iter (fold mt_apply ws mt_new)))"
  using mt_writes [OF mt_inv_new, of ws]
  by (simp add: mt_apply_write mt_get_new mt_inv_def mt_iter_def approx_bytes_def entries_bytes_def)

end
