(* ===== verification/Store.thy ===== *)
theory Store
  imports SSTable Memtable
begin

section \<open>The LSM store\<close>

text \<open>
  \<open>src/src/storage/lsm/store.rs\<close>: one memtable above levels of immutable tables. \<open>lsm_store\<close> is
  \<open>LsmStore\<close> and \<open>merge_scanner\<close> is \<open>MergeScanner\<close>. The tables newest first are the concatenation of
  the levels. \<open>cascade\<close> is a loop whose end depends on the compaction trigger, so it is a partial
  function (\<^const>\<open>None\<close> is "does not return"); it is shown to return because the constructor keeps
  the trigger at two or more.
\<close>

definition TAG_TOMBSTONE :: byte where "TAG_TOMBSTONE = 0"

definition TAG_VALUE :: byte where "TAG_VALUE = 1"

definition DEFAULT_COMPACTION_TRIGGER :: nat where "DEFAULT_COMPACTION_TRIGGER = 4"

fun encode_mem_entry :: "mem_entry \<Rightarrow> byte list" where
  "encode_mem_entry Tombstone = [TAG_TOMBSTONE]"
| "encode_mem_entry (Value value) = TAG_VALUE # value"

definition decode_mem_entry :: "byte list \<Rightarrow> mem_entry" where
  "decode_mem_entry data =
     (case data of b # rest \<Rightarrow> if b = TAG_VALUE then Value rest else Tombstone | [] \<Rightarrow> Tombstone)"

record lsm_store =
  ls_memtable :: memtable
  ls_levels :: "sstable list list"
  ls_block_size :: nat
  ls_trigger :: nat

definition lsm_new_with_trigger :: "nat \<Rightarrow> nat \<Rightarrow> lsm_store" where
  "lsm_new_with_trigger block_size compaction_trigger =
     \<lparr>ls_memtable = mt_new, ls_levels = [], ls_block_size = block_size, ls_trigger = max compaction_trigger 2\<rparr>"

definition lsm_new :: "nat \<Rightarrow> lsm_store" where
  "lsm_new block_size = lsm_new_with_trigger block_size DEFAULT_COMPACTION_TRIGGER"

definition lsm_put :: "lsm_store \<Rightarrow> byte list \<Rightarrow> byte list \<Rightarrow> lsm_store" where
  "lsm_put s key value = s\<lparr>ls_memtable := mt_put (ls_memtable s) key value\<rparr>"

definition lsm_delete :: "lsm_store \<Rightarrow> byte list \<Rightarrow> lsm_store" where
  "lsm_delete s key = s\<lparr>ls_memtable := mt_delete (ls_memtable s) key\<rparr>"

definition tables_newest_first :: "lsm_store \<Rightarrow> sstable list" where
  "tables_newest_first s = concat (ls_levels s)"

definition lsm_get :: "lsm_store \<Rightarrow> byte list \<Rightarrow> byte list option result" where
  "lsm_get s key =
     (case mt_get (ls_memtable s) key of
        Some entry \<Rightarrow> Ok (me_value entry)
      | None \<Rightarrow>
          bindR (newest_get sst_may_contain sst_get (tables_newest_first s) key) (\<lambda>r.
            case r of None \<Rightarrow> Ok None | Some encoded \<Rightarrow> Ok (me_value (decode_mem_entry encoded))))"

definition visible_entries :: "(byte list \<times> mem_entry) list \<Rightarrow> kvs" where
  "visible_entries m = List.map_filter (\<lambda>(key, entry). map_option (\<lambda>v. (key, v)) (me_value entry)) m"

definition lsm_iter :: "lsm_store \<Rightarrow> kvs result" where
  "lsm_iter s =
     bindR (merge_newest sst_iter decode_mem_entry (tables_newest_first s)) (\<lambda>merged.
       Ok (visible_entries (fold (\<lambda>(key, entry) m. bt_insert key entry m) (mt_iter (ls_memtable s)) merged)))"

definition num_sstables :: "lsm_store \<Rightarrow> nat" where
  "num_sstables s = sum_list (map length (ls_levels s))"

definition lsm_snapshot :: "lsm_store \<Rightarrow> (byte list \<times> mem_entry) list \<times> sstable list" where
  "lsm_snapshot s = (mt_iter (ls_memtable s), tables_newest_first s)"

definition build_from :: "lsm_store \<Rightarrow> (byte list \<times> mem_entry) list \<Rightarrow> byte list result" where
  "build_from s entries =
     bindR (sb_finish (fold (\<lambda>(key, entry) b. sb_add b key (encode_mem_entry entry)) entries
              (sb_new (ls_block_size s) DEFAULT_RESTART_INTERVAL)))
       (\<lambda>(img, _). Ok img)"

definition memtable_image :: "lsm_store \<Rightarrow> byte list option result" where
  "memtable_image s =
     (if mt_is_empty (ls_memtable s) then Ok None
      else bindR (build_from s (mt_iter (ls_memtable s))) (\<lambda>img. Ok (Some img)))"

definition compacted_image :: "lsm_store \<Rightarrow> byte list option result" where
  "compacted_image s =
     (if num_sstables s < 2 then Ok None
      else bindR (merge_newest sst_iter decode_mem_entry (tables_newest_first s)) (\<lambda>merged.
        bindR (build_from s (filter (\<lambda>(_, entry). me_value entry \<noteq> None) merged)) (\<lambda>img. Ok (Some img))))"

definition reset_memtable :: "lsm_store \<Rightarrow> lsm_store" where
  "reset_memtable s = s\<lparr>ls_memtable := mt_new\<rparr>"

definition insert_level0 :: "lsm_store \<Rightarrow> sstable \<Rightarrow> lsm_store" where
  "insert_level0 s table =
     s\<lparr>ls_levels := (case ls_levels s of [] \<Rightarrow> [[table]] | level0 # rest \<Rightarrow> (table # level0) # rest)\<rparr>"

definition level_needing_compaction :: "lsm_store \<Rightarrow> nat option" where
  "level_needing_compaction s = position (\<lambda>level. length level \<ge> ls_trigger s) (ls_levels s)"

definition merge_tables :: "lsm_store \<Rightarrow> sstable list \<Rightarrow> byte list result" where
  "merge_tables s tables = bindR (merge_newest sst_iter decode_mem_entry tables) (build_from s)"

definition apply_merge :: "lsm_store \<Rightarrow> nat \<Rightarrow> sstable \<Rightarrow> lsm_store" where
  "apply_merge s level merged =
     (let levels = (ls_levels s)[level := []];
          levels = (if length levels \<le> level + 1 then levels @ replicate (level + 2 - length levels) [] else levels)
      in s\<lparr>ls_levels := levels[level + 1 := merged # (levels ! (level + 1))]\<rparr>)"

partial_function (option) cascade :: "lsm_store \<Rightarrow> lsm_store result option" where
  "cascade s =
     (case level_needing_compaction s of
        None \<Rightarrow> Some (Ok s)
      | Some level \<Rightarrow>
          (case bindR (merge_tables s (ls_levels s ! level)) sst_parse of
             Err e \<Rightarrow> Some (Err e)
           | Ok merged \<Rightarrow> cascade (apply_merge s level merged)))"

definition lsm_flush :: "lsm_store \<Rightarrow> lsm_store result option" where
  "lsm_flush s =
     (case memtable_image s of
        Err e \<Rightarrow> Some (Err e)
      | Ok None \<Rightarrow> Some (Ok s)
      | Ok (Some img) \<Rightarrow>
          (case sst_parse img of
             Err e \<Rightarrow> Some (Err e)
           | Ok table \<Rightarrow> cascade (reset_memtable (insert_level0 s table))))"

definition lsm_compact :: "lsm_store \<Rightarrow> lsm_store result" where
  "lsm_compact s =
     bindR (compacted_image s) (\<lambda>img.
       case img of
         None \<Rightarrow> Ok s
       | Some img \<Rightarrow> bindR (sst_parse img) (\<lambda>table. Ok (s\<lparr>ls_levels := [[table]]\<rparr>)))"

subsection \<open>What a store contains\<close>

lemma decode_encode_mem_entry [simp]: "decode_mem_entry (encode_mem_entry e) = e"
  by (cases e) (simp_all add: decode_mem_entry_def TAG_VALUE_def TAG_TOMBSTONE_def)

definition tables_entries :: "sstable list \<Rightarrow> byte list \<rightharpoonup> mem_entry" where
  "tables_entries ts = (\<lambda>k. map_option decode_mem_entry (map_of (concat (map sst_contents ts)) k))"

definition lsm_entries :: "lsm_store \<Rightarrow> byte list \<rightharpoonup> mem_entry" where
  "lsm_entries s = tables_entries (tables_newest_first s) ++ mt_get (ls_memtable s)"

definition lsm_abs :: "lsm_store \<Rightarrow> byte list \<rightharpoonup> byte list" where
  "lsm_abs s = (\<lambda>k. Option.bind (lsm_entries s k) me_value)"

definition encode_all :: "(byte list \<times> mem_entry) list \<Rightarrow> kvs" where
  "encode_all m = map (\<lambda>(k, e). (k, encode_mem_entry e)) m"

definition table_ok :: "sstable \<Rightarrow> bool" where
  "table_ok t \<longleftrightarrow> sst_wf t \<and> (\<forall>(k, v) \<in> set (sst_contents t). encode_mem_entry (decode_mem_entry v) = v)"

definition tables_weight :: "sstable list \<Rightarrow> nat" where
  "tables_weight ts = sum_list (map (\<lambda>t. entries_weight (sst_contents t)) ts)"

definition lsm_weight :: "lsm_store \<Rightarrow> nat" where
  "lsm_weight s = entries_weight (encode_all (mt_map (ls_memtable s))) + tables_weight (tables_newest_first s)"

definition lsm_inv :: "lsm_store \<Rightarrow> bool" where
  "lsm_inv s \<longleftrightarrow> mt_inv (ls_memtable s) \<and> 2 \<le> ls_trigger s \<and> (\<forall>t \<in> set (tables_newest_first s). table_ok t)"

lemma tables_entries_simps [simp]:
  "tables_entries [] = Map.empty"
  "tables_entries (xs @ ys) = tables_entries ys ++ tables_entries xs"
  by (auto simp: tables_entries_def fun_eq_iff map_add_def split: option.splits)

lemma tables_entries_Cons: "tables_entries (t # ys) = tables_entries ys ++ tables_entries [t]"
  using tables_entries_simps(2) [of "[t]" ys] by simp

lemma tables_weight_simps [simp]:
  "tables_weight [] = 0" "tables_weight (xs @ ys) = tables_weight xs + tables_weight ys"
  "tables_weight (t # ys) = entries_weight (sst_contents t) + tables_weight ys"
  by (simp_all add: tables_weight_def)

lemma map_of_encode_all: "map_of (encode_all m) k = map_option encode_mem_entry (map_of m k)"
  by (simp add: encode_all_def map_of_map)

lemma encode_all_ascending [simp]: "ascending (encode_all m) = ascending m"
  by (simp add: encode_all_def comp_def case_prod_beta)

lemma tables_entries_encoded: "sst_contents t = encode_all m \<Longrightarrow> tables_entries [t] = map_of m"
  by (auto simp: tables_entries_def map_of_encode_all fun_eq_iff option.map_comp comp_def option.map_ident)

subsection \<open>Weights\<close>

lemma encode_all_insert:
  "entries_weight (encode_all (bt_insert k e m)) \<le> 15 + length k + length (encode_mem_entry e) + entries_weight (encode_all m)"
  by (induction k e m rule: bt_insert.induct) (auto simp: encode_all_def)

lemma merge_entries_weight:
  assumes "\<forall>(k, v) \<in> set es. encode_mem_entry (decode_mem_entry v) = v"
  shows "entries_weight (encode_all (merge_entries decode_mem_entry es m)) \<le> entries_weight es + entries_weight (encode_all m)"
  using assms
proof (induction es arbitrary: m)
  case (Cons e es)
  obtain k v where e: "e = (k, v)" by (cases e)
  have "entries_weight (encode_all (bt_or_insert k (decode_mem_entry v) m)) \<le> 15 + length k + length v + entries_weight (encode_all m)"
    using encode_all_insert [of k "decode_mem_entry v" m] Cons.prems e
    by (auto simp: bt_or_insert_def split: option.splits)
  then show ?case
    using Cons.IH [of "bt_or_insert k (decode_mem_entry v) m"] Cons.prems e by (simp add: merge_entries_def)
qed (simp add: merge_entries_def)

lemma merge_fold_weight:
  assumes "\<forall>t \<in> set ts. table_ok t"
    and "foldR (\<lambda>m t. bindR (sst_iter t) (\<lambda>es. Ok (merge_entries decode_mem_entry es m))) m ts = Ok m'"
  shows "entries_weight (encode_all m') \<le> tables_weight ts + entries_weight (encode_all m)"
  using assms
proof (induction ts arbitrary: m)
  case (Cons t ts)
  have t: "sst_iter t = Ok (sst_contents t)" "\<forall>(k, v) \<in> set (sst_contents t). encode_mem_entry (decode_mem_entry v) = v"
    using Cons.prems(1) by (auto simp: table_ok_def sst.iter_contents)
  show ?case
    using Cons.IH [of "merge_entries decode_mem_entry (sst_contents t) m"] Cons.prems
      merge_entries_weight [OF t(2), of m] by (simp add: t(1))
qed simp

lemma merge_tables_spec:
  assumes "\<forall>t \<in> set ts. table_ok t"
  obtains m where "merge_newest sst_iter decode_mem_entry ts = Ok m" "ascending m" "map_of m = tables_entries ts"
    "entries_weight (encode_all m) \<le> tables_weight ts"
proof -
  have "\<forall>t \<in> set ts. sst_wf t" using assms by (simp add: table_ok_def)
  then obtain m where m: "merge_newest sst_iter decode_mem_entry ts = Ok m" "ascending m" "map_of m = tables_entries ts"
    unfolding tables_entries_def by (rule sst.merge_newest_contents)
  with that merge_fold_weight [OF assms, of "[]" m] show ?thesis
    by (simp add: merge_newest_def encode_all_def)
qed

lemma build_from_spec:
  assumes "ascending m" "entries_weight (encode_all m) < 2 ^ 30"
  obtains img t where "build_from s m = Ok img" "sst_parse img = Ok t" "table_ok t" "sst_contents t = encode_all m"
proof -
  have fold: "fold (\<lambda>(key, entry) b. sb_add b key (encode_mem_entry entry)) m b = sb_add_all (encode_all m) b" for b
    by (induction m arbitrary: b) (auto simp: encode_all_def)
  from sst_build [of "encode_all m" "ls_block_size s" DEFAULT_RESTART_INTERVAL] assms obtain img b t where
    1: "sb_finish (sb_add_all (encode_all m) (sb_new (ls_block_size s) DEFAULT_RESTART_INTERVAL)) = Ok (img, b)"
      "sst_parse img = Ok t" "sst_wf t" "sst_contents t = encode_all m"
    by (auto simp: fits_table_def)
  then have "table_ok t"
    by (auto simp: table_ok_def encode_all_def)
  with that 1 show ?thesis
    by (simp add: build_from_def fold)
qed


subsection \<open>Flushing and compacting\<close>

lemma apply_merge_tables:
  assumes "ls_levels s = a @ l # b" "length a = i"
  shows "tables_newest_first (apply_merge s i t) = concat a @ t # concat b"
proof (cases b)
  case Nil
  then show ?thesis
    using assms by (simp add: apply_merge_def tables_newest_first_def list_update_append nth_append)
next
  case (Cons c b')
  then show ?thesis
    using assms by (simp add: apply_merge_def tables_newest_first_def list_update_append nth_append)
qed

lemma apply_merge_simps [simp]:
  "ls_memtable (apply_merge s i t) = ls_memtable s" "ls_trigger (apply_merge s i t) = ls_trigger s"
  by (simp_all add: apply_merge_def Let_def)

lemma cascade_step:
  assumes inv: "lsm_inv s" and small: "lsm_weight s < 2 ^ 30" and lvl: "level_needing_compaction s = Some i"
  obtains t where "bindR (merge_tables s (ls_levels s ! i)) sst_parse = Ok t"
    "lsm_inv (apply_merge s i t)" "lsm_entries (apply_merge s i t) = lsm_entries s"
    "lsm_weight (apply_merge s i t) \<le> lsm_weight s"
    "length (tables_newest_first (apply_merge s i t)) < length (tables_newest_first s)"
proof -
  let ?l = "ls_levels s ! i"
  from lvl obtain a b where levels: "ls_levels s = a @ ?l # b" "length a = i" "ls_trigger s \<le> length ?l"
    unfolding level_needing_compaction_def by (auto dest: position_Some)
  then have ts: "tables_newest_first s = concat a @ ?l @ concat b"
    unfolding tables_newest_first_def by (metis concat.simps(2) concat_append)
  have ok: "\<forall>t \<in> set ?l. table_ok t"
    using inv by (auto simp: lsm_inv_def ts)
  from merge_tables_spec [OF ok] obtain m where
    m: "merge_newest sst_iter decode_mem_entry ?l = Ok m" "ascending m" "map_of m = tables_entries ?l"
      "entries_weight (encode_all m) \<le> tables_weight ?l" by blast
  have "entries_weight (encode_all m) < 2 ^ 30"
    using m(4) small by (simp add: lsm_weight_def ts)
  from build_from_spec [OF m(2) this, of s] obtain img t where
    t: "build_from s m = Ok img" "sst_parse img = Ok t" "table_ok t" "sst_contents t = encode_all m" by blast
  have ts': "tables_newest_first (apply_merge s i t) = concat a @ t # concat b"
    using levels(1,2) by (rule apply_merge_tables)
  show ?thesis
  proof (rule that)
    show "bindR (merge_tables s ?l) sst_parse = Ok t"
      by (simp add: merge_tables_def m(1) t)
    show "lsm_inv (apply_merge s i t)"
      using inv t(3) by (auto simp: lsm_inv_def ts ts')
    show "lsm_entries (apply_merge s i t) = lsm_entries s"
      using tables_entries_encoded [OF t(4)] m(3)
      by (simp add: lsm_entries_def ts ts' tables_entries_Cons [of t "concat b"])
    show "lsm_weight (apply_merge s i t) \<le> lsm_weight s"
      using m(4) t(4) by (simp add: lsm_weight_def ts ts')
    show "length (tables_newest_first (apply_merge s i t)) < length (tables_newest_first s)"
      using inv levels(3) by (simp add: lsm_inv_def ts ts')
  qed
qed

lemma cascade_spec:
  assumes "lsm_inv s" "lsm_weight s < 2 ^ 30"
  shows "\<exists>s'. cascade s = Some (Ok s') \<and> lsm_inv s' \<and> lsm_entries s' = lsm_entries s \<and>
    lsm_weight s' \<le> lsm_weight s \<and> level_needing_compaction s' = None \<and> ls_memtable s' = ls_memtable s"
  using assms
proof (induction "length (tables_newest_first s)" arbitrary: s rule: less_induct)
  case less
  show ?case
  proof (cases "level_needing_compaction s")
    case None
    then show ?thesis using less.prems by (subst cascade.simps) simp
  next
    case (Some i)
    from cascade_step [OF less.prems Some] obtain t where
      t: "bindR (merge_tables s (ls_levels s ! i)) sst_parse = Ok t"
        "lsm_inv (apply_merge s i t)" "lsm_entries (apply_merge s i t) = lsm_entries s"
        "lsm_weight (apply_merge s i t) \<le> lsm_weight s"
        "length (tables_newest_first (apply_merge s i t)) < length (tables_newest_first s)" by blast
    have "lsm_weight (apply_merge s i t) < 2 ^ 30"
      using t(4) less.prems(2) by linarith
    from less.hyps [OF t(5,2) this] t(1,3,4) Some show ?thesis
      by (subst cascade.simps) fastforce
  qed
qed

lemma mt_map_of: "map_of (mt_map t) = mt_get t"
  by (simp add: fun_eq_iff mt_get_def)

lemma insert_level0_tables: "tables_newest_first (insert_level0 s t) = t # tables_newest_first s"
  by (simp add: insert_level0_def tables_newest_first_def split: list.splits)

lemma insert_level0_simps [simp]:
  "ls_memtable (insert_level0 s t) = ls_memtable s" "ls_trigger (insert_level0 s t) = ls_trigger s"
  by (simp_all add: insert_level0_def)

lemma reset_memtable_simps [simp]:
  "ls_memtable (reset_memtable s) = mt_new" "ls_trigger (reset_memtable s) = ls_trigger s"
  "tables_newest_first (reset_memtable s) = tables_newest_first s"
  by (simp_all add: reset_memtable_def tables_newest_first_def)

lemma flush_spec:
  assumes inv: "lsm_inv s" and small: "lsm_weight s < 2 ^ 30"
  shows "\<exists>s'. lsm_flush s = Some (Ok s') \<and> lsm_inv s' \<and> lsm_entries s' = lsm_entries s \<and>
    lsm_weight s' \<le> lsm_weight s \<and> mt_is_empty (ls_memtable s')"
proof (cases "mt_is_empty (ls_memtable s)")
  case True
  then show ?thesis using inv by (simp add: lsm_flush_def memtable_image_def)
next
  case False
  let ?m = "mt_map (ls_memtable s)"
  have "ascending ?m" "entries_weight (encode_all ?m) < 2 ^ 30"
    using inv small by (auto simp: lsm_inv_def mt_inv_def lsm_weight_def)
  from build_from_spec [OF this, of s] obtain img t where
    t: "build_from s ?m = Ok img" "sst_parse img = Ok t" "table_ok t" "sst_contents t = encode_all ?m" by blast
  let ?s = "reset_memtable (insert_level0 s t)"
  have "lsm_inv ?s"
    using inv t(3) by (auto simp: lsm_inv_def insert_level0_tables mt_inv_new)
  moreover have w: "lsm_weight ?s = lsm_weight s"
    by (simp add: lsm_weight_def insert_level0_tables t(4) mt_new_def encode_all_def)
  moreover have "lsm_entries ?s = lsm_entries s"
    using tables_entries_encoded [OF t(4)]
    by (simp add: lsm_entries_def insert_level0_tables tables_entries_Cons [of t "tables_newest_first s"] mt_get_new mt_map_of)
  ultimately obtain s' where "cascade ?s = Some (Ok s')" "lsm_inv s'" "lsm_entries s' = lsm_entries s"
    "lsm_weight s' \<le> lsm_weight s" "ls_memtable s' = mt_new"
    using cascade_spec [of ?s] small by auto
  then show ?thesis
    using False t(1,2) by (auto simp: lsm_flush_def memtable_image_def mt_iter_def mt_is_empty_def mt_new_def)
qed

definition live :: "('k \<Rightarrow> mem_entry option) \<Rightarrow> 'k \<Rightarrow> byte list option" where
  "live m = (\<lambda>k. Option.bind (m k) me_value)"

lemma lsm_abs_live: "lsm_abs s = live (lsm_entries s)"
  by (simp add: lsm_abs_def live_def)

lemma live_map_add: "live (m ++ m') k = (case m' k of Some e \<Rightarrow> me_value e | None \<Rightarrow> live m k)"
  by (simp add: live_def map_add_def split: option.splits)

lemma encode_all_filter_weight: "entries_weight (encode_all (filter P m)) \<le> entries_weight (encode_all m)"
  by (induction m) (auto simp: encode_all_def)

lemma num_sstables_length: "num_sstables s = length (tables_newest_first s)"
  by (simp add: num_sstables_def tables_newest_first_def length_concat)

lemma compacted_image_Ok:
  assumes inv: "lsm_inv s" and small: "lsm_weight s < 2 ^ 30" and many: "\<not> num_sstables s < 2"
  obtains img t where "compacted_image s = Ok (Some img)" "sst_parse img = Ok t" "table_ok t" "live (tables_entries [t]) = live (tables_entries (tables_newest_first s))"
    "entries_weight (sst_contents t) \<le> tables_weight (tables_newest_first s)"
proof -
  let ?ts = "tables_newest_first s" and ?live = "filter (\<lambda>(_, entry). me_value entry \<noteq> None)"
  have ok: "\<forall>t \<in> set ?ts. table_ok t" using inv by (simp add: lsm_inv_def)
  from merge_tables_spec [OF ok] obtain m where
    m: "merge_newest sst_iter decode_mem_entry ?ts = Ok m" "ascending m" "map_of m = tables_entries ?ts"
      "entries_weight (encode_all m) \<le> tables_weight ?ts" by blast
  have w: "entries_weight (encode_all (?live m)) \<le> tables_weight ?ts"
    using m(4) encode_all_filter_weight [of _ m] order_trans by blast
  have "ascending (?live m)" "entries_weight (encode_all (?live m)) < 2 ^ 30"
    using m(2) w small by (auto simp: lsm_weight_def)
  from build_from_spec [OF this, of s] obtain img t where
    t: "build_from s (?live m) = Ok img" "sst_parse img = Ok t" "table_ok t"
      "sst_contents t = encode_all (?live m)" by blast
  have "compacted_image s = Ok (Some img)"
    using many t(1) by (simp add: compacted_image_def m(1) del: not_None_eq)
  moreover have "live (tables_entries [t]) = live (tables_entries ?ts)"
    unfolding tables_entries_encoded [OF t(4)] m(3) [symmetric]
    by (auto simp: live_def fun_eq_iff map_of_filter_ascending [OF m(2)] split: option.splits)
  ultimately show ?thesis
    using that t w by simp
qed

lemma compact_spec:
  assumes inv: "lsm_inv s" and small: "lsm_weight s < 2 ^ 30"
  shows "\<exists>s'. lsm_compact s = Ok s' \<and> lsm_inv s' \<and> lsm_abs s' = lsm_abs s \<and>
    lsm_weight s' \<le> lsm_weight s \<and> num_sstables s' \<le> 1"
proof (cases "num_sstables s < 2")
  case True
  then show ?thesis using inv by (simp add: lsm_compact_def compacted_image_def)
next
  case False
  from compacted_image_Ok [OF inv small False] obtain img t where
    img: "compacted_image s = Ok (Some img)"
    and t: "sst_parse img = Ok t" "table_ok t" "live (tables_entries [t]) = live (tables_entries (tables_newest_first s))"
      "entries_weight (sst_contents t) \<le> tables_weight (tables_newest_first s)"
    by metis
  let ?s = "s\<lparr>ls_levels := [[t]]\<rparr>"
  have ts: "tables_newest_first ?s = [t]" by (simp add: tables_newest_first_def)
  have "lsm_abs ?s = lsm_abs s"
    using t(3) by (simp add: lsm_abs_live lsm_entries_def ts fun_eq_iff live_map_add split: option.splits)
  moreover have "lsm_inv ?s" "lsm_weight ?s \<le> lsm_weight s" "num_sstables ?s \<le> 1"
    using inv t(2,4) by (simp_all add: lsm_inv_def lsm_weight_def ts num_sstables_length)
  moreover have "lsm_compact s = Ok ?s"
    by (simp add: lsm_compact_def img t(1))
  ultimately show ?thesis by blast
qed

lemma lsm_write_spec:
  assumes inv: "lsm_inv s" and s'_def: "s' = s\<lparr>ls_memtable := mt_write (ls_memtable s) k e\<rparr>"
  shows "lsm_inv s'" "lsm_abs s' = (lsm_abs s)(k := me_value e)"
    "lsm_weight s' \<le> lsm_weight s + 15 + length k + length (encode_mem_entry e)"
proof -
  have ts: "tables_newest_first s' = tables_newest_first s"
    by (simp add: s'_def tables_newest_first_def)
  show "lsm_inv s'"
    using inv by (simp add: lsm_inv_def ts) (simp add: s'_def mt_inv_write)
  show "lsm_abs s' = (lsm_abs s)(k := me_value e)"
    using inv mt_get_write [of "ls_memtable s" k e]
    by (simp add: lsm_abs_live lsm_entries_def ts fun_eq_iff live_map_add)
      (simp add: s'_def lsm_inv_def)
  show "lsm_weight s' \<le> lsm_weight s + 15 + length k + length (encode_mem_entry e)"
    using encode_all_insert [of k e "mt_map (ls_memtable s)"]
    by (simp add: lsm_weight_def ts) (simp add: s'_def)
qed

lemma lsm_get_spec:
  assumes "lsm_inv s"
  shows "lsm_get s k = Ok (lsm_abs s k)"
proof -
  have "\<forall>t \<in> set (tables_newest_first s). sst_wf t"
    using assms by (simp add: lsm_inv_def table_ok_def)
  from sst.newest_get_contents [OF this, of k] show ?thesis
    by (simp add: lsm_get_def lsm_abs_live lsm_entries_def live_map_add split: option.splits)
      (simp add: live_def tables_entries_def)
qed

lemma visible_entries_simps [simp]:
  "visible_entries [] = []"
  "visible_entries ((k, e) # m) = (case me_value e of None \<Rightarrow> visible_entries m | Some v \<Rightarrow> (k, v) # visible_entries m)"
  by (simp_all add: visible_entries_def map_filter_simps split: option.splits)

lemma visible_entries_keys: "kv \<in> set (visible_entries m) \<Longrightarrow> fst kv \<in> fst ` set m"
  by (induction m) (auto split: option.splits)

lemma visible_entries_ascending: "ascending m \<Longrightarrow> ascending (visible_entries m)"
  by (induction m) (fastforce dest!: visible_entries_keys split: option.splits)+

lemma map_of_visible_entries: "ascending m \<Longrightarrow> map_of (visible_entries m) = live (map_of m)"
proof (induction m)
  case (Cons x m)
  obtain k e where x: "x = (k, e)" by (cases x)
  have "map_of m k = None"
    using Cons.prems x by (auto simp: map_of_eq_None_iff)
  with Cons x show ?case
    by (auto simp: live_def fun_eq_iff split: option.splits)
qed (simp add: live_def fun_eq_iff)

lemma fold_bt_insert:
  "ascending m \<Longrightarrow> ascending (fold (\<lambda>(k, e) m. bt_insert k e m) es m) \<and>
     map_of (fold (\<lambda>(k, e) m. bt_insert k e m) es m) = map_of m ++ map_of (rev es)"
  by (induction es arbitrary: m) (auto simp: bt_simps map_add_def fun_eq_iff split: option.splits)

lemma lsm_iter_spec:
  assumes "lsm_inv s"
  shows "\<exists>kvs. lsm_iter s = Ok kvs \<and> ascending kvs \<and> map_of kvs = lsm_abs s"
proof -
  have ok: "\<forall>t \<in> set (tables_newest_first s). table_ok t" using assms by (simp add: lsm_inv_def)
  from merge_tables_spec [OF ok] obtain m where
    m: "merge_newest sst_iter decode_mem_entry (tables_newest_first s) = Ok m" "ascending m"
      "map_of m = tables_entries (tables_newest_first s)" by blast
  let ?mem = "mt_map (ls_memtable s)"
  let ?all = "fold (\<lambda>(k, e) m. bt_insert k e m) ?mem m"
  have "map_of (rev ?mem) = map_of ?mem"
    using assms ascending_distinct [of ?mem]
    by (subst map_of_inject_set) (simp_all add: lsm_inv_def mt_inv_def distinct_rev rev_map [symmetric])
  with fold_bt_insert [OF m(2), of ?mem] have "ascending ?all" "map_of ?all = lsm_entries s"
    by (simp_all add: lsm_entries_def m(3) mt_map_of)
  with visible_entries_ascending [of ?all] map_of_visible_entries [of ?all] show ?thesis
    by (simp add: lsm_iter_def m(1) mt_iter_def lsm_abs_live)
qed

subsection \<open>Sequences of operations\<close>

datatype lsm_op = Put "byte list" "byte list" | Delete "byte list" | Flush | Compact

fun lsm_step :: "lsm_store \<Rightarrow> lsm_op \<Rightarrow> lsm_store result option" where
  "lsm_step s (Put k v) = Some (Ok (lsm_put s k v))"
| "lsm_step s (Delete k) = Some (Ok (lsm_delete s k))"
| "lsm_step s Flush = lsm_flush s"
| "lsm_step s Compact = Some (lsm_compact s)"

fun lsm_run :: "lsm_store \<Rightarrow> lsm_op list \<Rightarrow> lsm_store result option" where
  "lsm_run s [] = Some (Ok s)"
| "lsm_run s (op # ops) =
     (case lsm_step s op of None \<Rightarrow> None | Some (Err e) \<Rightarrow> Some (Err e) | Some (Ok s') \<Rightarrow> lsm_run s' ops)"

text \<open>The specification: a finite map, on which flushing and compacting do nothing.\<close>

fun map_step :: "lsm_op \<Rightarrow> (byte list \<rightharpoonup> byte list) \<Rightarrow> (byte list \<rightharpoonup> byte list)" where
  "map_step (Put k v) m = m(k \<mapsto> v)"
| "map_step (Delete k) m = m(k := None)"
| "map_step _ m = m"

fun op_weight :: "lsm_op \<Rightarrow> nat" where
  "op_weight (Put k v) = 16 + length k + length v"
| "op_weight (Delete k) = 16 + length k"
| "op_weight _ = 0"

lemma lsm_step_spec:
  assumes "lsm_inv s" "lsm_weight s < 2 ^ 30"
  shows "\<exists>s'. lsm_step s op = Some (Ok s') \<and> lsm_inv s' \<and> lsm_abs s' = map_step op (lsm_abs s) \<and>
    lsm_weight s' \<le> lsm_weight s + op_weight op"
proof (cases op)
  case (Put k v)
  then show ?thesis
    using lsm_write_spec [OF assms(1) refl, of k "Value v"] by (simp add: lsm_put_def mt_put_def fun_upd_def)
next
  case (Delete k)
  then show ?thesis
    using lsm_write_spec [OF assms(1) refl, of k Tombstone] by (simp add: lsm_delete_def mt_delete_def)
next
  case Flush
  then show ?thesis
    using flush_spec [OF assms] by (auto simp: lsm_abs_live)
next
  case Compact
  then show ?thesis
    using compact_spec [OF assms] by auto
qed

lemma lsm_run_spec:
  assumes "lsm_inv s" "lsm_weight s + sum_list (map op_weight ops) < 2 ^ 30"
  shows "\<exists>s'. lsm_run s ops = Some (Ok s') \<and> lsm_inv s' \<and> lsm_abs s' = fold map_step ops (lsm_abs s)"
  using assms
proof (induction ops arbitrary: s)
  case (Cons op ops)
  from lsm_step_spec [of s op] Cons.prems obtain s1 where
    s1: "lsm_step s op = Some (Ok s1)" "lsm_inv s1" "lsm_abs s1 = map_step op (lsm_abs s)"
      "lsm_weight s1 \<le> lsm_weight s + op_weight op" by auto
  from Cons.IH [OF s1(2)] s1 Cons.prems(2) show ?case by auto
qed simp

lemma lsm_new_spec:
  "lsm_inv (lsm_new_with_trigger bs trigger)" "lsm_weight (lsm_new_with_trigger bs trigger) = 0"
  "lsm_abs (lsm_new_with_trigger bs trigger) = Map.empty"
  by (simp_all add: lsm_new_with_trigger_def lsm_inv_def mt_inv_def tables_newest_first_def lsm_weight_def
      encode_all_def mt_new_def lsm_abs_def lsm_entries_def mt_get_def)

text \<open>
  C1: The LSM store refines a finite map. For every block size, compaction trigger and sequence of
  puts, deletes, flushes and compactions, every operation returns without error (the cascade of level
  merges ends), lookups agree with the map obtained by applying the puts and deletes alone, and
  iteration lists exactly that map in ascending key order. Flushes, cascaded merges and the
  major compaction, which drops tombstones, are therefore invisible. The hypothesis bounds the
  total size of the writes by one GiB, which keeps block offsets in their 32-bit fields.
\<close>

theorem lsm_refines_map:
  assumes "sum_list (map op_weight ops) < 2 ^ 30"
  shows "\<exists>s. lsm_run (lsm_new_with_trigger block_size trigger) ops = Some (Ok s) \<and>
    (\<forall>k. lsm_get s k = Ok (fold map_step ops Map.empty k)) \<and>
    (\<exists>kvs. lsm_iter s = Ok kvs \<and> ascending kvs \<and> map_of kvs = fold map_step ops Map.empty)"
proof -
  have "lsm_weight (lsm_new_with_trigger block_size trigger) + sum_list (map op_weight ops) < 2 ^ 30"
    using assms by (simp add: lsm_new_spec(2))
  from lsm_run_spec [OF lsm_new_spec(1) this] obtain s where
    "lsm_run (lsm_new_with_trigger block_size trigger) ops = Some (Ok s)" "lsm_inv s"
    "lsm_abs s = fold map_step ops Map.empty"
    unfolding lsm_new_spec(3) by blast
  then show ?thesis
    using lsm_get_spec [of s] lsm_iter_spec [of s] by (intro exI [of _ s]) simp
qed

theorem lsm_refines_map_witness:
  "\<exists>s. lsm_run (lsm_new_with_trigger 64 2) [Put [1] [7], Flush, Delete [1], Put [2] [8], Flush, Compact] = Some (Ok s) \<and>
    lsm_get s [1] = Ok None \<and> lsm_get s [2] = Ok (Some [8])"
proof -
  have "sum_list (map op_weight [Put [1] [7], Flush, Delete [1], Put [2] [8], Flush, Compact]) < 2 ^ 30"
    by simp
  from lsm_refines_map [OF this, of 64 2] obtain s where
    s: "lsm_run (lsm_new_with_trigger 64 2) [Put [1] [7], Flush, Delete [1], Put [2] [8], Flush, Compact] = Some (Ok s)"
      "\<forall>k. lsm_get s k = Ok (fold map_step [Put [1] [7], Flush, Delete [1], Put [2] [8], Flush, Compact] Map.empty k)"
    by blast
  show ?thesis
    by (rule exI [of _ s]) (simp only: s(1), simp add: s(2))
qed

subsection \<open>The streaming merge\<close>

datatype merge_source = Mem "(byte list \<times> mem_entry) list" | Sst sst_scanner

type_synonym head = "(byte list \<times> mem_entry) option"

record merge_scanner =
  ms_sources :: "merge_source list"
  ms_heads :: "head list"

fun advance_one :: "merge_source \<Rightarrow> (head \<times> merge_source) result" where
  "advance_one (Mem []) = Ok (None, Mem [])"
| "advance_one (Mem (e # es)) = Ok (Some e, Mem es)"
| "advance_one (Sst scanner) =
     bindR (scanner_next scanner) (\<lambda>(r, scanner').
       Ok (map_option (\<lambda>(key, encoded). (key, decode_mem_entry encoded)) r, Sst scanner'))"

fun advance_all :: "merge_source list \<Rightarrow> (head list \<times> merge_source list) result" where
  "advance_all [] = Ok ([], [])"
| "advance_all (s # ss) =
     bindR (advance_one s) (\<lambda>(h, s'). bindR (advance_all ss) (\<lambda>(hs, ss'). Ok (h # hs, s' # ss')))"

definition ms_new :: "(byte list \<times> mem_entry) list \<Rightarrow> sstable list \<Rightarrow> merge_scanner result" where
  "ms_new mem sstables =
     bindR (advance_all (Mem mem # map (\<lambda>t. Sst (sst_scanner_of t)) sstables)) (\<lambda>(heads, sources).
       Ok \<lparr>ms_sources = sources, ms_heads = heads\<rparr>)"

definition best_key :: "head list \<Rightarrow> byte list option" where
  "best_key heads =
     fold (\<lambda>head best. case head of
         Some (key, _) \<Rightarrow> (case best of None \<Rightarrow> Some key | Some current \<Rightarrow> if key < current then Some key else best)
       | None \<Rightarrow> best) heads None"

text \<open>The loop over the sources of one step: the first match wins, every match advances.\<close>

fun take_key :: "byte list \<Rightarrow> mem_entry option \<Rightarrow> head list \<Rightarrow> merge_source list \<Rightarrow>
    (mem_entry option \<times> head list \<times> merge_source list) result" where
  "take_key key winner (h # hs) (s # ss) =
     (case h of
        Some (k, entry) \<Rightarrow>
          if k = key
          then bindR (advance_one s) (\<lambda>(h', s').
                 bindR (take_key key (if winner = None then Some entry else winner) hs ss)
                   (\<lambda>(w, hs', ss'). Ok (w, h' # hs', s' # ss')))
          else bindR (take_key key winner hs ss) (\<lambda>(w, hs', ss'). Ok (w, h # hs', s # ss'))
      | None \<Rightarrow> bindR (take_key key winner hs ss) (\<lambda>(w, hs', ss'). Ok (w, h # hs', s # ss')))"
| "take_key key winner _ _ = Ok (winner, [], [])"

partial_function (option) ms_next ::
  "merge_scanner \<Rightarrow> ((byte list \<times> byte list) option \<times> merge_scanner) result option" where
  "ms_next m =
     (case best_key (ms_heads m) of
        None \<Rightarrow> Some (Ok (None, m))
      | Some key \<Rightarrow>
          (case take_key key None (ms_heads m) (ms_sources m) of
             Err e \<Rightarrow> Some (Err e)
           | Ok (winner, heads, sources) \<Rightarrow>
               (case winner of
                  None \<Rightarrow> Some (Err Panic)
                | Some (Value value) \<Rightarrow> Some (Ok (Some (key, value), \<lparr>ms_sources = sources, ms_heads = heads\<rparr>))
                | Some Tombstone \<Rightarrow> ms_next \<lparr>ms_sources = sources, ms_heads = heads\<rparr>)))"

text \<open>What a source still has to deliver, and the lists the scanner has left to merge.\<close>

fun feeds :: "merge_source \<Rightarrow> (byte list \<times> mem_entry) list \<Rightarrow> bool" where
  "feeds (Mem l) es = (es = l)"
| "feeds (Sst sc) es = (\<exists>kvs. scans sc kvs \<and> es = map (\<lambda>(k, v). (k, decode_mem_entry v)) kvs)"

fun pending :: "head \<Rightarrow> merge_source \<Rightarrow> (byte list \<times> mem_entry) list \<Rightarrow> bool" where
  "pending (Some x) s es = (\<exists>r. es = x # r \<and> feeds s r)"
| "pending None s es = (es = [] \<and> feeds s [])"

lemma advance_one_spec:
  assumes "feeds s es"
  shows "\<exists>h s'. advance_one s = Ok (h, s') \<and> pending h s' es"
proof (cases s)
  case (Mem l)
  then show ?thesis using assms by (cases l) auto
next
  case (Sst sc)
  with assms obtain kvs where kvs: "scans sc kvs" "es = map (\<lambda>(k, v). (k, decode_mem_entry v)) kvs" by auto
  from scanner_next_spec [OF kvs(1)] obtain sc' where
    "scanner_next sc = Ok (if kvs = [] then None else Some (hd kvs), sc')" "scans sc' (tl kvs)" by blast
  with kvs(2) Sst show ?thesis
    by (cases kvs) (auto split: prod.splits)
qed

definition ms_reps :: "head list \<Rightarrow> merge_source list \<Rightarrow> (byte list \<times> mem_entry) list list \<Rightarrow> bool" where
  "ms_reps hs ss ls \<longleftrightarrow> list_all2 (\<lambda>(h, s) l. pending h s l \<and> ascending l) (zip hs ss) ls \<and> length hs = length ss"

lemma ms_reps_simps [simp]:
  "ms_reps [] [] ls \<longleftrightarrow> ls = []"
  "ms_reps (h # hs) (s # ss) ls \<longleftrightarrow> (\<exists>l ls'. ls = l # ls' \<and> pending h s l \<and> ascending l \<and> ms_reps hs ss ls')"
  by (auto simp: ms_reps_def list_all2_Cons1)

lemma advance_all_spec:
  assumes "list_all2 feeds ss ls" "\<forall>l \<in> set ls. ascending l"
  shows "\<exists>hs ss'. advance_all ss = Ok (hs, ss') \<and> ms_reps hs ss' ls"
  using assms
proof (induction ss ls rule: list_all2_induct)
  case (Cons s ss l ls)
  from advance_one_spec [OF Cons.hyps(1)] Cons.IH Cons.prems show ?case by fastforce
qed simp

definition min_head :: "byte list option \<Rightarrow> head list \<Rightarrow> byte list option" where
  "min_head b hs = fold (\<lambda>head best. case head of
         Some (key, _) \<Rightarrow> (case best of None \<Rightarrow> Some key | Some current \<Rightarrow> if key < current then Some key else best)
       | None \<Rightarrow> best) hs b"

lemma min_head_simps [simp]:
  "min_head b [] = b" "min_head b (None # hs) = min_head b hs"
  "min_head b (Some (k, e) # hs) = min_head (case b of None \<Rightarrow> Some k | Some c \<Rightarrow> if k < c then Some k else b) hs"
  by (simp_all add: min_head_def)

lemma min_head_spec:
  "case min_head b hs of
     None \<Rightarrow> b = None \<and> (\<forall>h \<in> set hs. h = None)
   | Some k \<Rightarrow> (b = Some k \<or> (\<exists>e. Some (k, e) \<in> set hs)) \<and> (\<forall>c. b = Some c \<longrightarrow> k \<le> c) \<and>
       (\<forall>k' e. Some (k', e) \<in> set hs \<longrightarrow> k \<le> k')"
proof (induction hs arbitrary: b)
  case (Cons h hs)
  show ?case
  proof (cases h)
    case None
    with Cons.IH [of b] show ?thesis by (auto split: option.splits)
  next
    case (Some ke)
    obtain k e where ke: "ke = (k, e)" by (cases ke)
    let ?b = "case b of None \<Rightarrow> Some k | Some c \<Rightarrow> if k < c then Some k else b"
    show ?thesis
      using Cons.IH [of ?b] by (auto simp: Some ke split: option.splits if_splits)
  qed
qed (simp split: option.splits)

lemma best_key_min_head: "best_key hs = min_head None hs"
  by (simp add: best_key_def min_head_def)

lemma ms_reps_heads:
  "ms_reps hs ss ls \<Longrightarrow> i < length hs \<Longrightarrow> hs ! i = (if ls ! i = [] then None else Some (hd (ls ! i))) \<and> i < length ls \<and> ascending (ls ! i)"
proof (induction hs arbitrary: ss ls i)
  case (Cons h hs)
  then obtain s ss' where "ss = s # ss'" by (cases ss) (auto simp: ms_reps_def)
  with Cons show ?case by (cases h; cases i) auto
qed simp

lemma ms_reps_length: "ms_reps hs ss ls \<Longrightarrow> length hs = length ls \<and> length ss = length ls"
  by (auto simp: ms_reps_def dest: list_all2_lengthD)

text \<open>The least head is the least key of all pending lists.\<close>

lemma best_key_spec:
  assumes "ms_reps hs ss ls"
  shows "case best_key hs of
      None \<Rightarrow> \<forall>l \<in> set ls. l = []
    | Some k \<Rightarrow> (\<exists>l \<in> set ls. l \<noteq> [] \<and> fst (hd l) = k) \<and> (\<forall>l \<in> set ls. \<forall>x \<in> set l. k \<le> fst x)"
proof -
  have "hs = map (\<lambda>l. if l = [] then None else Some (hd l)) ls"
    using ms_reps_heads [OF assms] ms_reps_length [OF assms] by (intro nth_equalityI) simp_all
  then have heads: "set hs = (\<lambda>l. if l = [] then None else Some (hd l)) ` set ls"
    by simp
  have asc: "\<forall>l \<in> set ls. ascending l"
    using ms_reps_heads [OF assms] ms_reps_length [OF assms] by (simp add: all_set_conv_all_nth)
  show ?thesis
  proof (cases "best_key hs")
    case None
    then show ?thesis
      using min_head_spec [of None hs] heads by (auto simp: best_key_min_head split: if_splits)
  next
    case (Some k)
    have ex: "\<exists>e. Some (k, e) \<in> set hs" and le: "\<And>k' e. Some (k', e) \<in> set hs \<Longrightarrow> k \<le> k'"
      using min_head_spec [of None hs] Some by (auto simp: best_key_min_head)
    from ex obtain l where l: "l \<in> set ls" "l \<noteq> []" "fst (hd l) = k"
      unfolding heads by (auto split: if_splits) (metis fst_conv)
    have "k \<le> fst x" if "l \<in> set ls" "x \<in> set l" for l x
    proof -
      have "Some (hd l) \<in> set hs" using that by (auto simp: heads)
      then have "k \<le> fst (hd l)" using le by (metis prod.collapse)
      also have "\<dots> \<le> fst x" using ascending_ge_hd that asc by blast
      finally show ?thesis .
    qed
    with l Some show ?thesis by auto
  qed
qed

fun drop_key :: "byte list \<Rightarrow> (byte list \<times> mem_entry) list \<Rightarrow> (byte list \<times> mem_entry) list" where
  "drop_key key [] = []"
| "drop_key key ((k, e) # r) = (if k = key then r else (k, e) # r)"

lemma map_of_least:
  assumes "ascending l" "\<forall>x \<in> set l. key \<le> fst x"
  shows "map_of l key = (case l of [] \<Rightarrow> None | (k, e) # r \<Rightarrow> if k = key then Some e else None)"
    and "map_of (drop_key key l) = (map_of l)(key := None)"
    and "\<forall>x \<in> set (drop_key key l). key < fst x" and "ascending (drop_key key l)"
proof -
  have "case l of [] \<Rightarrow> True | (k, e) # r \<Rightarrow> map_of r k = None \<and> map_of r key = None"
    using assms by (fastforce simp: map_of_eq_None_iff split: list.splits)
  then show "map_of l key = (case l of [] \<Rightarrow> None | (k, e) # r \<Rightarrow> if k = key then Some e else None)"
    "map_of (drop_key key l) = (map_of l)(key := None)"
    by (auto simp: fun_eq_iff split: list.splits)
  show "ascending (drop_key key l)"
    using assms(1) by (cases "(key, l)" rule: drop_key.cases) auto
  show "\<forall>x \<in> set (drop_key key l). key < fst x"
  proof (cases l)
    case (Cons x r)
    with assms have "\<forall>y \<in> set r. fst x < fst y" "key \<le> fst x" by auto
    with Cons show ?thesis by (cases x) (auto simp: order_le_less)
  qed simp
qed

lemma take_key_spec:
  assumes "ms_reps hs ss ls" "\<forall>l \<in> set ls. \<forall>x \<in> set l. key \<le> fst x"
  shows "\<exists>hs' ss'. take_key key winner hs ss
      = Ok (case winner of Some e \<Rightarrow> Some e | None \<Rightarrow> map_of (concat ls) key, hs', ss') \<and>
    ms_reps hs' ss' (map (drop_key key) ls)"
  using assms
proof (induction hs arbitrary: ss ls winner)
  case Nil
  then have "ss = []" "ls = []" by (auto simp: ms_reps_def)
  then show ?case by (simp split: option.splits)
next
  case (Cons h hs)
  then obtain s ss1 where ss: "ss = s # ss1" by (cases ss) (auto simp: ms_reps_def)
  with Cons.prems(1) obtain l ls1 where ls: "ls = l # ls1" and l: "pending h s l" "ascending l" "ms_reps hs ss1 ls1"
    by auto
  note least = map_of_least [of l key] and IH = Cons.IH [OF l(3)]
  show ?case
  proof (cases "\<exists>e. h = Some (key, e)")
    case True
    then obtain e r where h: "h = Some (key, e)" "l = (key, e) # r" "feeds s r" using l(1) by auto
    from advance_one_spec [OF h(3)] obtain h' s' where
      adv: "advance_one s = Ok (h', s')" "pending h' s' r" by blast
    from IH [of "if winner = None then Some e else winner"] Cons.prems(2) ls obtain hs' ss' where
      "take_key key (if winner = None then Some e else winner) hs ss1
        = Ok (case (if winner = None then Some e else winner) of Some e \<Rightarrow> Some e | None \<Rightarrow> map_of (concat ls1) key, hs', ss')"
      "ms_reps hs' ss' (map (drop_key key) ls1)" by auto
    then show ?thesis
      using adv l(2) h by (auto simp: ss ls split: option.splits)
  next
    case False
    have "map_of l key = None" "drop_key key l = l"
      using False l(1) least(1) l(2) Cons.prems(2) ls by (cases h; cases l; force)+
    moreover from IH [of winner] Cons.prems(2) ls obtain hs' ss' where
      "take_key key winner hs ss1 = Ok (case winner of Some e \<Rightarrow> Some e | None \<Rightarrow> map_of (concat ls1) key, hs', ss')"
      "ms_reps hs' ss' (map (drop_key key) ls1)" by auto
    ultimately show ?thesis
      using False l by (auto simp: ss ls map_add_def split: option.splits)
  qed
qed

text \<open>The list the scanner stands for: every key once, with its newest entry, in order.\<close>

definition merged :: "(byte list \<times> mem_entry) list list \<Rightarrow> (byte list \<times> mem_entry) list" where
  "merged ls = merge_entries (\<lambda>e. e) (concat ls) []"

lemma merged_spec: "ascending (merged ls)" "map_of (merged ls) = map_of (concat ls)"
  using merge_entries_spec [of "[]" "\<lambda>e. e" "concat ls"] by (auto simp: merged_def option.map_ident)

lemma map_of_drop_key_concat:
  assumes "\<forall>l \<in> set ls. ascending l" "\<forall>l \<in> set ls. \<forall>x \<in> set l. key \<le> fst x"
  shows "map_of (concat (map (drop_key key) ls)) = (map_of (concat ls))(key := None)"
  using assms
proof (induction ls)
  case (Cons l ls)
  then show ?case
    using map_of_least(2) [of l key] by (auto simp: fun_eq_iff map_add_def split: option.splits)
qed simp

lemma merged_step:
  assumes "\<forall>l \<in> set ls. ascending l" "\<forall>l \<in> set ls. \<forall>x \<in> set l. key \<le> fst x"
    and "l \<in> set ls" "l \<noteq> []" "fst (hd l) = key"
  obtains e where "map_of (concat ls) key = Some e" "merged ls = (key, e) # merged (map (drop_key key) ls)"
proof -
  have "key \<in> fst ` set (concat ls)"
    using assms(3-5) by (auto intro!: image_eqI [of _ _ "hd l"] bexI [of _ l])
  then obtain e where e: "map_of (concat ls) key = Some e"
    by (metis map_of_eq_None_iff not_None_eq)
  let ?r = "merged (map (drop_key key) ls)"
  have "key < fst x" if "x \<in> set ?r" for x
  proof -
    have "map_of ?r (fst x) \<noteq> None" using that by (simp add: map_of_eq_None_iff)
    then have "fst x \<noteq> key" "fst x \<in> fst ` set (concat ls)"
      unfolding merged_spec map_of_drop_key_concat [OF assms(1,2)]
      by (auto simp: map_of_eq_None_iff split: if_splits) (metis domI domIff map_of_eq_None_iff set_concat)+
    with assms(2) show ?thesis by (fastforce simp: order_le_less)
  qed
  then have asc: "ascending ((key, e) # ?r)"
    using merged_spec(1) by auto
  have "map_of ((key, e) # ?r) = map_of (merged ls)"
    using e by (simp add: merged_spec map_of_drop_key_concat [OF assms(1,2)] fun_eq_iff)
  from ascending_map_of_inject [OF merged_spec(1) asc this [symmetric]] that e show ?thesis by blast
qed

lemma drop_key_length: "length (drop_key key l) \<le> length l"
  by (cases "(key, l)" rule: drop_key.cases) auto

lemma drop_key_concat_length: "length (concat (map (drop_key key) ls)) \<le> length (concat ls)"
  by (induction ls) (auto intro: add_mono drop_key_length)

lemma drop_key_shrinks:
  assumes "l \<in> set ls" "l \<noteq> []" "fst (hd l) = key"
  shows "length (concat (map (drop_key key) ls)) < length (concat ls)"
proof -
  have "length (drop_key key l) < length l"
    using assms(2,3) by (cases "(key, l)" rule: drop_key.cases) auto
  moreover obtain a b where "ls = a @ l # b" using assms(1) by (meson split_list)
  ultimately show ?thesis
    using drop_key_concat_length [of key a] drop_key_concat_length [of key b] by simp
qed

lemma ms_next_spec:
  assumes "ms_reps (ms_heads m) (ms_sources m) ls"
  shows "\<exists>m' ls'. ms_next m = Some (Ok (case visible_entries (merged ls) of [] \<Rightarrow> None | x # _ \<Rightarrow> Some x, m')) \<and>
    ms_reps (ms_heads m') (ms_sources m') ls' \<and> visible_entries (merged ls') = tl (visible_entries (merged ls))"
  using assms
proof (induction "length (concat ls)" arbitrary: m ls rule: less_induct)
  case less
  note best = best_key_spec [OF less.prems]
  have asc: "\<forall>l \<in> set ls. ascending l"
    using ms_reps_heads [OF less.prems] ms_reps_length [OF less.prems] by (simp add: all_set_conv_all_nth)
  show ?case
  proof (cases "best_key (ms_heads m)")
    case None
    with best have "concat ls = []" by simp
    then have "merged ls = []" by (simp add: merged_def merge_entries_def del: concat_eq_Nil_conv)
    with None less.prems show ?thesis by (subst ms_next.simps) (auto intro!: exI [of _ ls])
  next
    case (Some key)
    with best obtain l where l: "l \<in> set ls" "l \<noteq> []" "fst (hd l) = key"
      and le: "\<forall>l \<in> set ls. \<forall>x \<in> set l. key \<le> fst x" by auto
    let ?ls = "map (drop_key key) ls"
    from merged_step [OF asc le l] obtain e where
      e: "map_of (concat ls) key = Some e" "merged ls = (key, e) # merged ?ls" by blast
    from take_key_spec [OF less.prems le, of None] e(1) obtain hs ss where
      t: "take_key key None (ms_heads m) (ms_sources m) = Ok (Some e, hs, ss)" "ms_reps hs ss ?ls" by auto
    let ?m = "\<lparr>ms_sources = ss, ms_heads = hs\<rparr>"
    have reps: "ms_reps (ms_heads ?m) (ms_sources ?m) ?ls" using t(2) by simp
    show ?thesis
    proof (cases e)
      case (Value v)
      with reps show ?thesis
        by (subst ms_next.simps) (auto simp: Some t(1) e(2) intro!: exI [of _ ?ls])
    next
      case Tombstone
      from less.hyps [OF drop_key_shrinks [OF l] reps] show ?thesis
        by (subst ms_next.simps) (simp add: Some t(1) e(2) Tombstone)
    qed
  qed
qed

fun ms_drain :: "nat \<Rightarrow> merge_scanner \<Rightarrow> kvs result option" where
  "ms_drain 0 m = Some (Ok [])"
| "ms_drain (Suc n) m =
     (case ms_next m of
        None \<Rightarrow> None
      | Some (Err e) \<Rightarrow> Some (Err e)
      | Some (Ok (None, m')) \<Rightarrow> Some (Ok [])
      | Some (Ok (Some kv, m')) \<Rightarrow> map_option (\<lambda>r. bindR r (\<lambda>kvs. Ok (kv # kvs))) (ms_drain n m'))"

lemma ms_drain_spec:
  "ms_reps (ms_heads m) (ms_sources m) ls \<Longrightarrow> ms_drain n m = Some (Ok (take n (visible_entries (merged ls))))"
proof (induction n arbitrary: m ls)
  case (Suc n)
  from ms_next_spec [OF Suc.prems] obtain m' ls' where
    m': "ms_next m = Some (Ok (case visible_entries (merged ls) of [] \<Rightarrow> None | x # _ \<Rightarrow> Some x, m'))"
      "ms_reps (ms_heads m') (ms_sources m') ls'" "visible_entries (merged ls') = tl (visible_entries (merged ls))"
    by blast
  from Suc.IH [OF m'(2)] m'(1,3) show ?case
    by (cases "visible_entries (merged ls)") auto
qed simp

lemma ms_new_spec:
  assumes "ascending mem" "\<forall>t \<in> set ts. sst_wf t"
  obtains m where "ms_new mem ts = Ok m"
    "ms_reps (ms_heads m) (ms_sources m) (mem # map (\<lambda>t. map (\<lambda>(k, v). (k, decode_mem_entry v)) (sst_contents t)) ts)"
proof -
  let ?ls = "mem # map (\<lambda>t. map (\<lambda>(k, v). (k, decode_mem_entry v)) (sst_contents t)) ts"
  have "list_all2 feeds (map (\<lambda>t. Sst (sst_scanner_of t)) ts) (tl ?ls)"
    using assms(2) by (auto simp: list_all2_map1 list_all2_map2 list_all2_same intro: scans_new)
  then have "list_all2 feeds (Mem mem # map (\<lambda>t. Sst (sst_scanner_of t)) ts) ?ls" by simp
  moreover have "\<forall>l \<in> set ?ls. ascending l"
    using assms sst.contents_ascending by (auto simp: comp_def case_prod_beta)
  ultimately obtain hs ss where
    "advance_all (Mem mem # map (\<lambda>t. Sst (sst_scanner_of t)) ts) = Ok (hs, ss)" "ms_reps hs ss ?ls"
    using advance_all_spec by blast
  then show ?thesis
    using that [of "\<lparr>ms_sources = ss, ms_heads = hs\<rparr>"] by (simp add: ms_new_def)
qed

lemma map_of_decoded:
  "map_of (concat (map (\<lambda>t. map (\<lambda>(k, v). (k, f v)) (g t)) ts)) k = map_option f (map_of (concat (map g ts)) k)"
proof -
  have "concat (map (\<lambda>t. map (\<lambda>(k, v). (k, f v)) (g t)) ts) = map (\<lambda>(k, v). (k, f v)) (concat (map g ts))"
    by (induction ts) auto
  then show ?thesis by (simp add: map_of_map)
qed

lemma scanner_streams:
  assumes inv: "lsm_inv s"
  shows "\<exists>m kvs. ms_new (fst (lsm_snapshot s)) (snd (lsm_snapshot s)) = Ok m \<and> lsm_iter s = Ok kvs \<and>
    (\<forall>n. ms_drain n m = Some (Ok (take n kvs)))"
proof -
  let ?mem = "mt_map (ls_memtable s)" and ?ts = "tables_newest_first s"
  let ?ls = "?mem # map (\<lambda>t. map (\<lambda>(k, v). (k, decode_mem_entry v)) (sst_contents t)) ?ts"
  have "ascending ?mem" "\<forall>t \<in> set ?ts. sst_wf t"
    using inv by (auto simp: lsm_inv_def mt_inv_def table_ok_def)
  then obtain m where m: "ms_new ?mem ?ts = Ok m" "ms_reps (ms_heads m) (ms_sources m) ?ls"
    by (rule ms_new_spec)
  from lsm_iter_spec [OF inv] obtain kvs where kvs: "lsm_iter s = Ok kvs" "ascending kvs" "map_of kvs = lsm_abs s"
    by blast
  have "map_of (concat ?ls) = lsm_entries s"
    by (simp add: lsm_entries_def tables_entries_def map_of_decoded mt_map_of map_add_def fun_eq_iff split: option.splits)
  then have "map_of (visible_entries (merged ?ls)) = lsm_abs s"
    by (simp only: map_of_visible_entries [OF merged_spec(1)] merged_spec(2) lsm_abs_live)
  then have "visible_entries (merged ?ls) = kvs"
    using kvs by (intro ascending_map_of_inject) (auto intro!: visible_entries_ascending merged_spec(1))
  with ms_drain_spec [OF m(2)] kvs(1) m(1) show ?thesis
    by (auto simp: lsm_snapshot_def mt_iter_def)
qed

text \<open>
  C2: The streaming merge agrees with the materialising one. For any store reached as in the
  previous claims, the merge scanner over a snapshot of it never fails, always returns, and after
  \<open>n\<close> calls has yielded the first \<open>n\<close> entries of \<open>iter\<close>: newest wins across the memtable and
  all tables, winning tombstones hide their key, and the order is ascending.
\<close>

theorem merge_scanner_streams_iter:
  assumes "sum_list (map op_weight ops) < 2 ^ 30"
    and "lsm_run (lsm_new_with_trigger block_size trigger) ops = Some (Ok s)"
  shows "\<exists>m kvs. ms_new (fst (lsm_snapshot s)) (snd (lsm_snapshot s)) = Ok m \<and> lsm_iter s = Ok kvs \<and>
    (\<forall>n. ms_drain n m = Some (Ok (take n kvs)))"
proof -
  have "lsm_inv s"
    using lsm_run_spec [OF lsm_new_spec(1), of block_size trigger ops] assms by (auto simp: lsm_new_spec(2))
  then show ?thesis by (rule scanner_streams)
qed

theorem merge_scanner_streams_iter_witness:
  "\<exists>s m kvs. lsm_run (lsm_new_with_trigger 64 2) [Put [1] [7], Flush, Delete [1], Put [2] [8]] = Some (Ok s) \<and>
    ms_new (fst (lsm_snapshot s)) (snd (lsm_snapshot s)) = Ok m \<and> lsm_iter s = Ok kvs \<and>
    ms_drain 5 m = Some (Ok (take 5 kvs))"
proof -
  let ?ops = "[Put [1] [7], Flush, Delete [1], Put [2] [8]]"
  have w: "sum_list (map op_weight ?ops) < 2 ^ 30" by simp
  then obtain s where s: "lsm_run (lsm_new_with_trigger 64 2) ?ops = Some (Ok s)"
    using lsm_run_spec [OF lsm_new_spec(1), of 64 2 ?ops] unfolding lsm_new_spec(2) by auto
  from merge_scanner_streams_iter [OF w s] s show ?thesis by blast
qed

end
