(* ===== verification/Persist.thy ===== *)
theory Persist
  imports Store
begin

section \<open>The durable LSM store\<close>

text \<open>
  \<open>src/src/storage/lsm/persist.rs\<close>: table files and a manifest in one directory. \<open>fs_dir\<close> is the
  directory, \<open>plsm\<close> is \<open>PersistentLsm\<close>. The calls that change the directory are recorded, in the
  order the code issues them, as the effects of an operation (\<open>pl_effects\<close>); the directory after an
  operation is the effects applied to the directory before it, and a crash leaves a prefix of them
  with the next one possibly half done. Reading never fails except for a missing file; other
  errors of the operating system are not modelled.
\<close>

record fs_dir =
  d_sst :: "u32 \<rightharpoonup> byte list"
  d_manifest :: "byte list option"
  d_tmp :: "byte list option"

datatype fs_effect = WriteSst u32 "byte list" | WriteTmp "byte list" | RenameTmp | RemoveSst u32

fun apply_effect :: "fs_effect \<Rightarrow> fs_dir \<Rightarrow> fs_dir" where
  "apply_effect (WriteSst n img) d = d\<lparr>d_sst := (d_sst d)(n \<mapsto> img)\<rparr>"
| "apply_effect (WriteTmp buf) d = d\<lparr>d_tmp := Some buf\<rparr>"
| "apply_effect RenameTmp d = d\<lparr>d_manifest := d_tmp d, d_tmp := None\<rparr>"
| "apply_effect (RemoveSst n) d = d\<lparr>d_sst := (d_sst d)(n := None)\<rparr>"

text \<open>A file that is being written when the system stops holds arbitrary bytes.\<close>

fun torn_effect :: "byte list \<Rightarrow> fs_effect \<Rightarrow> fs_dir \<Rightarrow> fs_dir" where
  "torn_effect junk (WriteSst n img) d = d\<lparr>d_sst := (d_sst d)(n \<mapsto> junk)\<rparr>"
| "torn_effect junk (WriteTmp buf) d = d\<lparr>d_tmp := Some junk\<rparr>"
| "torn_effect junk _ d = d"

definition MANIFEST_MAGIC :: "byte list" where
  "MANIFEST_MAGIC = [0x4C, 0x53, 0x4D, 0x4D, 0x46, 0x30, 0x30, 0x32]"

record plsm =
  pl_store :: lsm_store
  pl_next_file_no :: u32
  pl_effects :: "fs_effect list"

subsection \<open>The manifest\<close>

definition manifest_level :: "u32 list \<Rightarrow> byte list" where
  "manifest_level level = le_enc 4 (length level) @ concat (map (\<lambda>no. le_enc 4 (unat no)) level)"

definition manifest_bytes :: "u32 \<Rightarrow> u32 list list \<Rightarrow> byte list" where
  "manifest_bytes next_file_no levels =
     MANIFEST_MAGIC @ le_enc 4 (unat next_file_no) @ le_enc 4 (length levels) @ concat (map manifest_level levels)"

definition take_u32 :: "byte list \<Rightarrow> nat \<Rightarrow> (u32 \<times> nat) result" where
  "take_u32 data pos =
     (if pos + 4 \<le> length data then Ok (word_of_nat (le_dec (subl data pos (pos + 4))), pos + 4)
      else Err (Runtime ''manifest is truncated''))"

fun take_u32s :: "byte list \<Rightarrow> nat \<Rightarrow> nat \<Rightarrow> (u32 list \<times> nat) result" where
  "take_u32s data pos 0 = Ok ([], pos)"
| "take_u32s data pos (Suc n) =
     bindR (take_u32 data pos) (\<lambda>(x, pos). bindR (take_u32s data pos n) (\<lambda>(xs, pos). Ok (x # xs, pos)))"

fun take_levels :: "byte list \<Rightarrow> nat \<Rightarrow> nat \<Rightarrow> u32 list list result" where
  "take_levels data pos 0 = Ok []"
| "take_levels data pos (Suc n) =
     bindR (take_u32 data pos) (\<lambda>(count, pos).
       if length data < pos + unat count * 4 then Err (Runtime ''manifest is truncated'')
       else bindR (take_u32s data pos (unat count)) (\<lambda>(level, pos).
         bindR (take_levels data pos n) (\<lambda>levels. Ok (level # levels))))"

definition read_manifest :: "fs_dir \<Rightarrow> (u32 \<times> u32 list list) result" where
  "read_manifest d =
     (case d_manifest d of
        None \<Rightarrow> Ok (1, [])
      | Some bytes \<Rightarrow>
          if length bytes < 16 \<or> subl bytes 0 8 \<noteq> MANIFEST_MAGIC then Err (Runtime ''manifest is corrupt'')
          else bindR (rng bytes 8 12) (\<lambda>b1. bindR (rng bytes 12 16) (\<lambda>b2.
            bindR (take_levels bytes 16 (le_dec b2)) (\<lambda>levels. Ok (word_of_nat (le_dec b1), levels)))))"

subsection \<open>Opening\<close>

fun open_level :: "fs_dir \<Rightarrow> u32 list \<Rightarrow> sstable list result" where
  "open_level d [] = Ok []"
| "open_level d (no # nos) =
     (case d_sst d no of
        None \<Rightarrow> Err (Runtime ''cannot read sstable'')
      | Some bytes \<Rightarrow> bindR (sst_parse bytes) (\<lambda>t. bindR (open_level d nos) (\<lambda>ts. Ok (with_file_no t no # ts))))"

fun open_levels :: "fs_dir \<Rightarrow> u32 list list \<Rightarrow> sstable list list result" where
  "open_levels d [] = Ok []"
| "open_levels d (l # ls) = bindR (open_level d l) (\<lambda>ts. bindR (open_levels d ls) (\<lambda>tss. Ok (ts # tss)))"

text \<open>\<open>x + 1\<close> on a \<open>u32\<close>; the overflow check of the arithmetic panics.\<close>

definition incr32 :: "u32 \<Rightarrow> u32 result" where
  "incr32 x = (if x = - 1 then Err Panic else Ok (x + 1))"

definition plsm_open_with_trigger :: "fs_dir \<Rightarrow> nat \<Rightarrow> nat \<Rightarrow> plsm result" where
  "plsm_open_with_trigger d block_size compaction_trigger =
     bindR (read_manifest d) (\<lambda>(stored_next, manifest_levels).
     bindR (open_levels d manifest_levels) (\<lambda>levels.
     bindR (incr32 (fold max (concat manifest_levels) 0)) (\<lambda>after_max.
       Ok \<lparr>pl_store = (lsm_new_with_trigger block_size compaction_trigger)\<lparr>ls_levels := levels\<rparr>,
           pl_next_file_no = max (max stored_next after_max) 1, pl_effects = []\<rparr>)))"

subsection \<open>Writing\<close>

definition plsm_put :: "plsm \<Rightarrow> byte list \<Rightarrow> byte list \<Rightarrow> plsm" where
  "plsm_put p key value = p\<lparr>pl_store := lsm_put (pl_store p) key value\<rparr>"

definition plsm_delete :: "plsm \<Rightarrow> byte list \<Rightarrow> plsm" where
  "plsm_delete p key = p\<lparr>pl_store := lsm_delete (pl_store p) key\<rparr>"

definition plsm_get :: "plsm \<Rightarrow> byte list \<Rightarrow> byte list option result" where
  "plsm_get p key = lsm_get (pl_store p) key"

definition plsm_iter :: "plsm \<Rightarrow> kvs result" where
  "plsm_iter p = lsm_iter (pl_store p)"

definition effect :: "fs_effect \<Rightarrow> plsm \<Rightarrow> plsm" where
  "effect e p = p\<lparr>pl_effects := pl_effects p @ [e]\<rparr>"

definition write_sstable :: "plsm \<Rightarrow> u32 \<Rightarrow> byte list \<Rightarrow> plsm" where
  "write_sstable p no img = effect (WriteSst no img) p"

definition file_numbers :: "sstable list \<Rightarrow> u32 list" where
  "file_numbers ts = List.map_filter st_file_no ts"

definition sstable_file_numbers :: "plsm \<Rightarrow> u32 list" where
  "sstable_file_numbers p = file_numbers (concat (ls_levels (pl_store p)))"

definition plsm_write_manifest :: "plsm \<Rightarrow> plsm" where
  "plsm_write_manifest p =
     effect RenameTmp (effect (WriteTmp (manifest_bytes (pl_next_file_no p)
       (map file_numbers (ls_levels (pl_store p))))) p)"

definition remove_files :: "u32 list \<Rightarrow> plsm \<Rightarrow> plsm" where
  "remove_files nos p = fold (\<lambda>no. effect (RemoveSst no)) nos p"

partial_function (option) plsm_cascade :: "plsm \<Rightarrow> u32 list \<Rightarrow> (plsm \<times> u32 list) result option" where
  "plsm_cascade p obsolete =
     (case level_needing_compaction (pl_store p) of
        None \<Rightarrow> Some (Ok (p, obsolete))
      | Some level \<Rightarrow>
          let tables = ls_levels (pl_store p) ! level; no = pl_next_file_no p in
          (case bindR (merge_tables (pl_store p) tables) (\<lambda>img.
                  bindR (incr32 no) (\<lambda>no'. bindR (sst_parse img) (\<lambda>t. Ok (img, no', t)))) of
             Err e \<Rightarrow> Some (Err e)
           | Ok (img, no', t) \<Rightarrow>
               plsm_cascade ((write_sstable p no img)\<lparr>pl_next_file_no := no',
                   pl_store := apply_merge (pl_store p) level (with_file_no t no)\<rparr>)
                 (obsolete @ file_numbers tables)))"

definition plsm_flush :: "plsm \<Rightarrow> plsm result option" where
  "plsm_flush p =
     (case memtable_image (pl_store p) of
        Err e \<Rightarrow> Some (Err e)
      | Ok None \<Rightarrow> Some (Ok p)
      | Ok (Some img) \<Rightarrow>
          let no = pl_next_file_no p in
          (case bindR (incr32 no) (\<lambda>no'. bindR (sst_parse img) (\<lambda>t. Ok (no', t))) of
             Err e \<Rightarrow> Some (Err e)
           | Ok (no', t) \<Rightarrow>
               (case plsm_cascade ((write_sstable p no img)\<lparr>pl_next_file_no := no',
                       pl_store := reset_memtable (insert_level0 (pl_store p) (with_file_no t no))\<rparr>) [] of
                  None \<Rightarrow> None
                | Some (Err e) \<Rightarrow> Some (Err e)
                | Some (Ok (p', obsolete)) \<Rightarrow> Some (Ok (remove_files obsolete (plsm_write_manifest p'))))))"

definition plsm_compact :: "plsm \<Rightarrow> plsm result" where
  "plsm_compact p =
     bindR (compacted_image (pl_store p)) (\<lambda>r.
       case r of
         None \<Rightarrow> Ok p
       | Some img \<Rightarrow>
           let old = sstable_file_numbers p; no = pl_next_file_no p in
           bindR (incr32 no) (\<lambda>no'. bindR (sst_parse img) (\<lambda>t.
             Ok (remove_files old (plsm_write_manifest ((write_sstable p no img)\<lparr>pl_next_file_no := no',
               pl_store := (pl_store p)\<lparr>ls_levels := [[with_file_no t no]]\<rparr>\<rparr>))))))"

subsection \<open>The manifest reads back\<close>

lemma take_u32_mid: "pos = length pre \<Longrightarrow> take_u32 (pre @ le_enc 4 (unat x) @ post) pos = Ok (x, pos + 4)"
  by (simp add: take_u32_def subl_mid le_dec_unat32)

lemma take_u32s_mid:
  "pos = length pre \<Longrightarrow> take_u32s (pre @ concat (map (\<lambda>no. le_enc 4 (unat no)) xs) @ post) pos (length xs)
     = Ok (xs, pos + 4 * length xs)"
proof (induction xs arbitrary: pre pos)
  case (Cons x xs)
  have 1: "take_u32 (pre @ le_enc 4 (unat x) @ (concat (map (\<lambda>no. le_enc 4 (unat no)) xs) @ post)) pos = Ok (x, pos + 4)"
    by (rule take_u32_mid [OF Cons.prems])
  have 2: "take_u32s ((pre @ le_enc 4 (unat x)) @ concat (map (\<lambda>no. le_enc 4 (unat no)) xs) @ post) (pos + 4) (length xs)
      = Ok (xs, pos + 4 + 4 * length xs)"
    by (rule Cons.IH) (simp add: Cons.prems)
  from 1 2 show ?case by simp
qed simp

lemma length_concat_le4 [simp]: "length (concat (map (\<lambda>no. le_enc 4 (f no)) xs)) = 4 * length xs"
  by (induction xs) auto

lemma take_levels_mid:
  "pos = length pre \<Longrightarrow> \<forall>l \<in> set ls. length l < 2 ^ 32 \<Longrightarrow>
     take_levels (pre @ concat (map manifest_level ls) @ post) pos (length ls) = Ok ls"
proof (induction ls arbitrary: pre pos)
  case (Cons l ls)
  let ?nos = "concat (map (\<lambda>no. le_enc 4 (unat no)) l)" and ?rest = "concat (map manifest_level ls) @ post"
  define n :: u32 where "n = word_of_nat (length l)"
  have n: "unat n = length l"
    unfolding n_def using Cons.prems(2) by (intro unat_u32_of_nat) simp
  have data: "pre @ concat (map manifest_level (l # ls)) @ post = pre @ le_enc 4 (unat n) @ ?nos @ ?rest"
    by (simp add: manifest_level_def n)
  have 1: "take_u32 (pre @ le_enc 4 (unat n) @ ?nos @ ?rest) pos = Ok (n, pos + 4)"
    by (rule take_u32_mid [OF Cons.prems(1)])
  have 2: "take_u32s ((pre @ le_enc 4 (unat n)) @ ?nos @ ?rest) (pos + 4) (length l) = Ok (l, pos + 4 + 4 * length l)"
    by (rule take_u32s_mid) (simp add: Cons.prems)
  have 3: "take_levels ((pre @ le_enc 4 (unat n) @ ?nos) @ ?rest) (pos + 4 + 4 * length l) (length ls) = Ok ls"
    by (rule Cons.IH) (use Cons.prems in simp_all)
  show ?case
    unfolding data using 1 2 3 Cons.prems(1) by (simp add: n)
qed simp

lemma read_manifest_written:
  assumes "d_manifest d = Some (manifest_bytes nx ls)" "length ls < 2 ^ 32" "\<forall>l \<in> set ls. length l < 2 ^ 32"
  shows "read_manifest d = Ok (nx, ls)"
proof -
  let ?rest = "concat (map manifest_level ls)"
  let ?b = "manifest_bytes nx ls"
  have m: "length MANIFEST_MAGIC = 8" by (simp add: MANIFEST_MAGIC_def)
  have b1: "?b = MANIFEST_MAGIC @ le_enc 4 (unat nx) @ le_enc 4 (length ls) @ ?rest"
    and b2: "?b = (MANIFEST_MAGIC @ le_enc 4 (unat nx)) @ le_enc 4 (length ls) @ ?rest"
    and b3: "?b = (MANIFEST_MAGIC @ le_enc 4 (unat nx) @ le_enc 4 (length ls)) @ ?rest @ []"
    by (simp_all add: manifest_bytes_def)
  have "subl ?b 0 8 = MANIFEST_MAGIC"
    unfolding b1 m [symmetric] by (rule subl_prefix)
  moreover have "rng ?b 8 12 = Ok (le_enc 4 (unat nx))"
    unfolding b1 by (rule rng_mid) (simp_all add: m)
  moreover have "rng ?b 12 16 = Ok (le_enc 4 (length ls))"
    unfolding b2 by (rule rng_mid) (simp_all add: m)
  moreover have "take_levels ?b 16 (length ls) = Ok ls"
    unfolding b3 by (rule take_levels_mid) (use assms(3) in \<open>simp_all add: m\<close>)
  moreover have "le_dec (le_enc 4 (length ls)) = length ls"
    using assms(2) by (intro le_dec_enc_small) simp
  ultimately show ?thesis
    using assms(1) by (simp add: read_manifest_def le_dec_unat32) (simp add: b1 m)
qed

subsection \<open>Tables and their files\<close>

definition on_disk :: "fs_dir \<Rightarrow> sstable \<Rightarrow> bool" where
  "on_disk d t \<longleftrightarrow> (\<exists>n. st_file_no t = Some n \<and> d_sst d n = Some (st_data t))"

definition numbered_below :: "u32 \<Rightarrow> sstable list \<Rightarrow> bool" where
  "numbered_below nx ts \<longleftrightarrow> (\<forall>t \<in> set ts. \<exists>n. st_file_no t = Some n \<and> n < nx) \<and> distinct (file_numbers ts)"

lemma file_numbers_simps [simp]:
  "file_numbers [] = []" "file_numbers (xs @ ys) = file_numbers xs @ file_numbers ys"
  "file_numbers (t # ts) = (case st_file_no t of None \<Rightarrow> file_numbers ts | Some n \<Rightarrow> n # file_numbers ts)"
  by (simp_all add: file_numbers_def map_filter_def split: option.splits)

lemma in_file_numbers: "n \<in> set (file_numbers ts) \<longleftrightarrow> (\<exists>t \<in> set ts. st_file_no t = Some n)"
  by (induction ts) (auto split: option.splits)

lemma file_numbers_concat: "concat (map file_numbers ls) = file_numbers (concat ls)"
  by (induction ls) auto

lemma numbered_below_bound: "numbered_below nx ts \<Longrightarrow> n \<in> set (file_numbers ts) \<Longrightarrow> n < nx"
  by (fastforce simp: numbered_below_def in_file_numbers)

lemma numbered_below_mono: "numbered_below nx ts \<Longrightarrow> nx \<le> nx' \<Longrightarrow> numbered_below nx' ts"
  unfolding numbered_below_def by (meson order_less_le_trans)

lemma numbered_below_length:
  assumes "numbered_below nx ts"
  shows "length ts \<le> unat nx"
proof -
  have len: "length (file_numbers ts) = length ts"
    using assms unfolding numbered_below_def by (induction ts) (auto split: option.splits)
  have "unat ` set (file_numbers ts) \<subseteq> {..< unat nx}"
    using numbered_below_bound [OF assms] by (auto simp: word_less_nat_alt)
  then have "card (unat ` set (file_numbers ts)) \<le> unat nx"
    by (metis card_lessThan card_mono finite_lessThan)
  moreover have "inj_on unat (set (file_numbers ts))"
    by (simp add: inj_on_def word_unat_eq_iff)
  ultimately show ?thesis
    using assms len by (simp add: card_image numbered_below_def distinct_card)
qed

lemma sst_parse_data:
  assumes "sst_wf t"
  shows "sst_parse (st_data t) = Ok (t\<lparr>st_file_no := None\<rparr>)"
proof -
  from assms obtain ri bls flt n where "t = (sst_of ri bls flt)\<lparr>st_file_no := n\<rparr>" "sst_ok ri bls flt"
    by (rule sst_wfE)
  with sst_parse_image [of ri bls flt] show ?thesis
    by (simp add: sst_of_def)
qed

lemma with_file_no_restored: "st_file_no t = Some n \<Longrightarrow> with_file_no (t\<lparr>st_file_no := None\<rparr>) n = t"
  by (cases t) (simp add: with_file_no_def)

lemma open_level_on_disk:
  "\<forall>t \<in> set ts. on_disk d t \<and> sst_wf t \<Longrightarrow> open_level d (file_numbers ts) = Ok ts"
  by (induction ts) (auto simp: on_disk_def sst_parse_data with_file_no_restored)

lemma open_levels_on_disk:
  "\<forall>t \<in> set (concat ls). on_disk d t \<and> sst_wf t \<Longrightarrow> open_levels d (map file_numbers ls) = Ok ls"
  by (induction ls) (auto simp: open_level_on_disk)

lemma fold_max_bound:
  fixes xs :: "u32 list"
  assumes "\<forall>x \<in> set xs. x < nx" "a < nx"
  shows "fold max xs a < nx"
  using assms by (induction xs arbitrary: a) auto

text \<open>A directory that holds the files of \<open>levels\<close> and a manifest that names them.\<close>

definition stores :: "fs_dir \<Rightarrow> sstable list list \<Rightarrow> bool" where
  "stores d levels \<longleftrightarrow> (\<forall>t \<in> set (concat levels). on_disk d t \<and> table_ok t) \<and>
     (\<exists>nx. read_manifest d = Ok (nx, map file_numbers levels) \<and> numbered_below nx (concat levels) \<and>
        length levels \<le> unat nx \<and> 0 < nx)"

lemma open_stores:
  assumes "stores d levels"
  shows "\<exists>nx. plsm_open_with_trigger d bs trigger = Ok \<lparr>pl_store = (lsm_new_with_trigger bs trigger)\<lparr>ls_levels := levels\<rparr>,
      pl_next_file_no = nx, pl_effects = []\<rparr> \<and> numbered_below nx (concat levels) \<and> length levels \<le> unat nx \<and> 0 < nx \<and>
      read_manifest d = Ok (nx, map file_numbers levels)"
proof -
  from assms obtain nx where nx: "read_manifest d = Ok (nx, map file_numbers levels)"
    "numbered_below nx (concat levels)" "length levels \<le> unat nx" "0 < nx"
    unfolding stores_def by blast
  have op: "open_levels d (map file_numbers levels) = Ok levels"
    using assms by (intro open_levels_on_disk) (auto simp: stores_def table_ok_def)
  let ?m = "fold max (concat (map file_numbers levels)) 0 :: u32"
  have m: "?m < nx"
    by (rule fold_max_bound) (use nx(2,4) numbered_below_bound file_numbers_concat in auto)
  then have "?m \<noteq> - 1"
    by (metis word_order.extremum_strict word_order.not_eq_extremum)
  moreover have "?m + 1 \<le> nx"
    using m by (metis inc_le)
  moreover have "1 \<le> nx"
    using nx(4) by (metis add.left_neutral inc_le)
  ultimately have "plsm_open_with_trigger d bs trigger = Ok \<lparr>pl_store = (lsm_new_with_trigger bs trigger)\<lparr>ls_levels := levels\<rparr>,
      pl_next_file_no = nx, pl_effects = []\<rparr>"
    by (simp add: plsm_open_with_trigger_def nx(1) op incr32_def max_absorb1)
  with nx show ?thesis by blast
qed

subsection \<open>Flushing while the old layout stays readable\<close>

abbreviation dir_after :: "fs_dir \<Rightarrow> plsm \<Rightarrow> fs_dir" where
  "dir_after d p \<equiv> fold apply_effect (pl_effects p) d"

abbreviation pl_tables :: "plsm \<Rightarrow> sstable list" where
  "pl_tables p \<equiv> tables_newest_first (pl_store p)"

text \<open>
  The state in the middle of an operation that started in directory \<open>d\<close> with file number \<open>n0\<close>: only
  new files have been written, and every table of the new layout is on disk.
\<close>

definition mid_op :: "fs_dir \<Rightarrow> u32 \<Rightarrow> plsm \<Rightarrow> bool" where
  "mid_op d n0 p \<longleftrightarrow> lsm_inv (pl_store p) \<and>
     (\<forall>e \<in> set (pl_effects p). \<exists>n img. e = WriteSst n img \<and> n0 \<le> n) \<and>
     (\<forall>t \<in> set (pl_tables p). on_disk (dir_after d p) t) \<and> numbered_below (pl_next_file_no p) (pl_tables p) \<and>
     length (ls_levels (pl_store p)) \<le> unat (pl_next_file_no p) \<and> n0 \<le> pl_next_file_no p \<and> 0 < pl_next_file_no p"

lemma sst_parse_fields: "sst_parse img = Ok t \<Longrightarrow> st_data t = img \<and> st_file_no t = None"
  by (auto simp: sst_parse_def Let_def res_simps split: if_splits)

lemma with_file_no_simps [simp]:
  "st_file_no (with_file_no t n) = Some n" "st_data (with_file_no t n) = st_data t"
  "sst_contents (with_file_no t n) = sst_contents t"
  by (simp_all add: with_file_no_def)

lemma with_file_no_ok: "table_ok t \<Longrightarrow> table_ok (with_file_no t n)"
  by (simp add: table_ok_def)

lemma tables_entries_file_no: "tables_entries [with_file_no t n] = tables_entries [t]"
  by (simp add: tables_entries_def)

lemma incr32_less:
  assumes "unat x + k < 2 ^ 32" "0 < k"
  shows "incr32 x = Ok (x + 1)" "unat (x + 1) = unat x + 1" "x < x + 1"
proof -
  have "unat x + 1 < 2 ^ 32" using assms by linarith
  then show u: "unat (x + 1) = unat x + 1"
    by (simp add: unat_word_ariths)
  then show "x < x + 1" by (simp add: word_less_nat_alt)
  then show "incr32 x = Ok (x + 1)" by (auto simp: incr32_def)
qed

text \<open>Writing the next table file and installing the table keeps the state good.\<close>

lemma mid_op_new_table:
  assumes mid: "mid_op d n0 p" and parse: "sst_parse img = Ok t"
    and room: "unat (pl_next_file_no p) + 1 < 2 ^ 32"
    and st: "tables_newest_first st = xs @ with_file_no t (pl_next_file_no p) # ys"
    and sub: "set (xs @ ys) \<subseteq> set (pl_tables p)" and dist: "distinct (file_numbers (xs @ ys))"
    and inv: "lsm_inv st" and levels: "length (ls_levels st) \<le> Suc (length (ls_levels (pl_store p)))"
  shows "mid_op d n0 ((write_sstable p (pl_next_file_no p) img)\<lparr>pl_next_file_no := pl_next_file_no p + 1, pl_store := st\<rparr>)"
    (is "mid_op d n0 ?p")
proof -
  let ?no = "pl_next_file_no p"
  note up = incr32_less [OF room zero_less_one]
  have img: "st_data t = img" using sst_parse_fields [OF parse] by simp
  have below: "\<exists>n. st_file_no t' = Some n \<and> n < ?no \<and> d_sst (dir_after d p) n = Some (st_data t')"
    if "t' \<in> set (xs @ ys)" for t'
  proof -
    have t': "t' \<in> set (pl_tables p)" using sub that by blast
    with mid have "on_disk (dir_after d p) t'" "\<exists>n. st_file_no t' = Some n \<and> n < ?no"
      unfolding mid_op_def numbered_below_def by blast+
    then show ?thesis by (auto simp: on_disk_def)
  qed
  have dir: "dir_after d ?p = (dir_after d p)\<lparr>d_sst := (d_sst (dir_after d p))(?no \<mapsto> img)\<rparr>"
    by (simp add: write_sstable_def effect_def)
  have disk: "\<forall>t' \<in> set (pl_tables ?p). on_disk (dir_after d ?p) t'"
  proof
    fix t' assume "t' \<in> set (pl_tables ?p)"
    then consider "t' = with_file_no t ?no" | "t' \<in> set (xs @ ys)" by (auto simp: st)
    then show "on_disk (dir_after d ?p) t'"
      unfolding dir by cases (use img below in \<open>force simp: on_disk_def\<close>)+
  qed
  have "?no \<notin> set (file_numbers (xs @ ys))"
    unfolding in_file_numbers using below by (metis option.inject order_less_irrefl)
  then have "distinct (file_numbers (pl_tables ?p))"
    using dist by (auto simp: st)
  moreover have "\<forall>t' \<in> set (pl_tables ?p). \<exists>n. st_file_no t' = Some n \<and> n < ?no + 1"
  proof
    fix t' assume "t' \<in> set (pl_tables ?p)"
    then consider "t' = with_file_no t ?no" | "t' \<in> set (xs @ ys)" by (auto simp: st)
    then show "\<exists>n. st_file_no t' = Some n \<and> n < ?no + 1"
      by cases (use below up(3) in \<open>auto intro: less_trans\<close>)
  qed
  ultimately have num: "numbered_below (?no + 1) (pl_tables ?p)"
    by (simp add: numbered_below_def)
  have "0 < ?no + 1" "n0 \<le> ?no + 1"
    using up(2) mid unfolding mid_op_def word_less_nat_alt word_le_nat_alt by auto
  then show ?thesis
    using mid disk num inv levels up(2)
    unfolding mid_op_def by (auto simp: write_sstable_def effect_def)
qed

lemma apply_merge_levels: "length (ls_levels (apply_merge s i t)) \<le> max (length (ls_levels s)) (i + 2)"
  by (simp add: apply_merge_def Let_def)

lemma merge_level:
  assumes inv: "lsm_inv s" and small: "lsm_weight s < 2 ^ 30" and lvl: "level_needing_compaction s = Some i"
  obtains xs l ys img t where "merge_tables s (ls_levels s ! i) = Ok img" "sst_parse img = Ok t"
    "ls_levels s ! i = l" "tables_newest_first s = xs @ l @ ys" "2 \<le> length l"
    "\<And>n. tables_newest_first (apply_merge s i (with_file_no t n)) = xs @ with_file_no t n # ys"
    "\<And>n. lsm_inv (apply_merge s i (with_file_no t n))"
    "\<And>n. lsm_entries (apply_merge s i (with_file_no t n)) = lsm_entries s"
    "\<And>n. lsm_weight (apply_merge s i (with_file_no t n)) \<le> lsm_weight s"
    "\<And>n. length (ls_levels (apply_merge s i (with_file_no t n))) \<le> Suc (length (ls_levels s))"
proof -
  let ?l = "ls_levels s ! i"
  from lvl obtain a b where levels: "ls_levels s = a @ ?l # b" "length a = i" "ls_trigger s \<le> length ?l"
    unfolding level_needing_compaction_def by (auto dest: position_Some)
  note ts = apply_merge_tables [OF levels(1,2)]
  have tables: "tables_newest_first s = concat a @ ?l @ concat b"
    unfolding tables_newest_first_def by (subst levels(1)) simp
  from cascade_step [OF inv small lvl] obtain t where
    t: "bindR (merge_tables s ?l) sst_parse = Ok t" "lsm_inv (apply_merge s i t)"
      "lsm_entries (apply_merge s i t) = lsm_entries s" "lsm_weight (apply_merge s i t) \<le> lsm_weight s" by blast
  from t(1) obtain img where img: "merge_tables s ?l = Ok img" "sst_parse img = Ok t" by (auto simp: res_simps)
  have inv': "lsm_inv (apply_merge s i (with_file_no t n))" for n
    using t(2) by (auto simp: lsm_inv_def ts intro: with_file_no_ok)
  have ent: "lsm_entries (apply_merge s i (with_file_no t n)) = lsm_entries s" for n
    using t(3) by (simp add: lsm_entries_def ts tables_entries_Cons [of _ "concat b"] tables_entries_file_no)
  have w: "lsm_weight (apply_merge s i (with_file_no t n)) \<le> lsm_weight s" for n
    using t(4) by (simp add: lsm_weight_def ts)
  have "i < length (ls_levels s)"
    by (subst levels(1)) (simp add: levels(2))
  then have len: "length (ls_levels (apply_merge s i (with_file_no t n))) \<le> Suc (length (ls_levels s))" for n
    using apply_merge_levels [of s i "with_file_no t n"] by simp
  have "2 \<le> length ?l"
    using levels(3) inv by (simp add: lsm_inv_def)
  from that [OF img refl tables this ts inv' ent w len] show ?thesis .
qed

lemma plsm_cascade_spec:
  assumes "mid_op d n0 p" "lsm_weight (pl_store p) < 2 ^ 30"
    and "unat (pl_next_file_no p) + length (pl_tables p) < 2 ^ 32"
    and "set obs \<inter> set (file_numbers (pl_tables p)) = {}" "\<forall>n \<in> set obs. n < pl_next_file_no p"
  shows "\<exists>p' obs'. plsm_cascade p obs = Some (Ok (p', obs')) \<and> mid_op d n0 p' \<and>
    lsm_entries (pl_store p') = lsm_entries (pl_store p) \<and> lsm_weight (pl_store p') \<le> lsm_weight (pl_store p) \<and>
    ls_memtable (pl_store p') = ls_memtable (pl_store p) \<and>
    unat (pl_next_file_no p') + length (pl_tables p') \<le> unat (pl_next_file_no p) + length (pl_tables p) \<and>
    set obs' \<inter> set (file_numbers (pl_tables p')) = {} \<and> level_needing_compaction (pl_store p') = None"
  using assms
proof (induction "length (pl_tables p)" arbitrary: p obs rule: less_induct)
  case less
  have inv: "lsm_inv (pl_store p)" using less.prems(1) by (simp add: mid_op_def)
  show ?case
  proof (cases "level_needing_compaction (pl_store p)")
    case None
    then show ?thesis using less.prems by (subst plsm_cascade.simps) auto
  next
    case (Some i)
    let ?s = "pl_store p" and ?no = "pl_next_file_no p"
    from merge_level [OF inv less.prems(2) Some] obtain xs l ys img t where
      img: "merge_tables ?s (ls_levels ?s ! i) = Ok img" "sst_parse img = Ok t"
      and l: "ls_levels ?s ! i = l" "pl_tables p = xs @ l @ ys" "2 \<le> length l"
      and ts: "tables_newest_first (apply_merge ?s i (with_file_no t ?no)) = xs @ with_file_no t ?no # ys"
      and new: "lsm_inv (apply_merge ?s i (with_file_no t ?no))"
        "lsm_entries (apply_merge ?s i (with_file_no t ?no)) = lsm_entries ?s"
        "lsm_weight (apply_merge ?s i (with_file_no t ?no)) \<le> lsm_weight ?s"
        "length (ls_levels (apply_merge ?s i (with_file_no t ?no))) \<le> Suc (length (ls_levels ?s))"
      by metis
    let ?p = "(write_sstable p ?no img)\<lparr>pl_next_file_no := ?no + 1, pl_store := apply_merge ?s i (with_file_no t ?no)\<rparr>"
    have room: "unat ?no + 1 < 2 ^ 32"
      using less.prems(3) l(2,3) by simp
    note up = incr32_less [OF room zero_less_one]
    have num: "numbered_below ?no (xs @ l @ ys)"
      using less.prems(1) l(2) by (simp add: mid_op_def)
    have mid: "mid_op d n0 ?p"
      by (rule mid_op_new_table [OF less.prems(1) img(2) room ts _ _ new(1,4)])
        (use num l(2) in \<open>auto simp: numbered_below_def\<close>)
    have fresh: "?no \<notin> set (file_numbers (xs @ l @ ys))"
      using numbered_below_bound [OF num] by blast
    have obs: "set (obs @ file_numbers l) \<inter> set (file_numbers (pl_tables ?p)) = {}"
      using less.prems(4,5) num fresh l(2) by (auto simp: ts numbered_below_def)
    have "\<forall>n \<in> set (obs @ file_numbers l). n < pl_next_file_no ?p"
      using less.prems(5) numbered_below_bound [OF num] up(3) by (auto intro: less_trans)
    from less.hyps [OF _ mid _ _ obs this] l(2,3) less.prems(2,3) new up(2)
    obtain p' obs' where "plsm_cascade ?p (obs @ file_numbers l) = Some (Ok (p', obs'))" "mid_op d n0 p'"
      "lsm_entries (pl_store p') = lsm_entries ?s" "lsm_weight (pl_store p') \<le> lsm_weight ?s"
      "ls_memtable (pl_store p') = ls_memtable ?s"
      "unat (pl_next_file_no p') + length (pl_tables p') \<le> unat ?no + length (pl_tables p)"
      "set obs' \<inter> set (file_numbers (pl_tables p')) = {}" "level_needing_compaction (pl_store p') = None"
      by (fastforce simp: ts)
    then show ?thesis
      by (subst plsm_cascade.simps) (simp add: Some Let_def img [unfolded l(1)] l(1) up(1))
  qed
qed

subsection \<open>Crashes\<close>

inductive crashes :: "fs_effect list \<Rightarrow> fs_dir \<Rightarrow> fs_dir \<Rightarrow> bool" where
  stop: "crashes es d d"
| torn: "crashes (e # es) d (torn_effect junk e d)"
| step: "crashes es (apply_effect e d) d' \<Longrightarrow> crashes (e # es) d d'"

inductive_cases crashes_NilE: "crashes [] d d'"
inductive_cases crashes_ConsE: "crashes (e # es) d d'"

lemma crashes_complete: "crashes es d (fold apply_effect es d)"
  by (induction es arbitrary: d) (auto intro: crashes.intros)

definition agrees_below :: "u32 \<Rightarrow> fs_dir \<Rightarrow> fs_dir \<Rightarrow> bool" where
  "agrees_below n0 d d' \<longleftrightarrow> d_manifest d' = d_manifest d \<and> (\<forall>n < n0. d_sst d' n = d_sst d n)"

lemma crashes_before_commit:
  assumes "crashes (es @ WriteTmp mb # RenameTmp # rs) d d'" "\<forall>e \<in> set es. \<exists>n img. e = WriteSst n img \<and> n0 \<le> n"
  shows "agrees_below n0 d d' \<or> crashes rs (apply_effect RenameTmp (apply_effect (WriteTmp mb) (fold apply_effect es d))) d'"
  using assms
proof (induction es arbitrary: d)
  case Nil
  then show ?case
    by (auto elim!: crashes_ConsE simp: agrees_below_def)
next
  case (Cons e es)
  from Cons.prems(2) obtain n img where e: "e = WriteSst n img" "n0 \<le> n" by auto
  have agree: "agrees_below n0 d (d\<lparr>d_sst := (d_sst d)(n \<mapsto> junk)\<rparr>)" for junk
    using e(2) by (auto simp: agrees_below_def)
  from Cons.prems(1) show ?case
  proof (cases rule: crashes_ConsE [consumes 1, OF Cons.prems(1) [unfolded append_Cons]])
    case 1
    then show ?thesis by (simp add: agrees_below_def)
  next
    case (2 junk)
    then show ?thesis using agree e by simp
  next
    case 3
    from Cons.IH [OF 3] Cons.prems(2) agree [of img] e show ?thesis
      by (auto simp: agrees_below_def)
  qed
qed

lemma crashes_removing:
  "crashes (map RemoveSst obs) d d' \<Longrightarrow> d_manifest d' = d_manifest d \<and> (\<forall>n. n \<notin> set obs \<longrightarrow> d_sst d' n = d_sst d n)"
proof (induction obs arbitrary: d)
  case Nil
  then show ?case by (auto elim: crashes_NilE)
next
  case (Cons n obs)
  from Cons.prems show ?case
    by (auto elim!: crashes_ConsE dest!: Cons.IH)
qed

lemma stores_agree:
  assumes "stores d L" "numbered_below n0 (concat L)" "agrees_below n0 d d'"
  shows "stores d' L"
proof -
  have "read_manifest d' = read_manifest d"
    using assms(3) by (simp add: read_manifest_def agrees_below_def)
  moreover have "on_disk d' t" if t: "t \<in> set (concat L)" for t
  proof -
    have "on_disk d t" using assms(1) t unfolding stores_def by blast
    moreover have "\<exists>n. st_file_no t = Some n \<and> n < n0" using assms(2) t unfolding numbered_below_def by blast
    ultimately show ?thesis using assms(3) by (auto simp: on_disk_def agrees_below_def)
  qed
  ultimately show ?thesis using assms(1) unfolding stores_def by simp
qed

text \<open>The state between two operations: the directory describes the levels exactly.\<close>

definition plsm_inv :: "fs_dir \<Rightarrow> plsm \<Rightarrow> bool" where
  "plsm_inv d p \<longleftrightarrow> mid_op d (pl_next_file_no p) p \<and> pl_effects p = [] \<and>
     read_manifest d = Ok (pl_next_file_no p, map file_numbers (ls_levels (pl_store p)))"

lemma plsm_inv_stores: "plsm_inv d p \<Longrightarrow> stores d (ls_levels (pl_store p))"
  by (auto simp: plsm_inv_def stores_def mid_op_def tables_newest_first_def lsm_inv_def)

lemma remove_files_simps [simp]:
  "pl_store (remove_files nos p) = pl_store p" "pl_next_file_no (remove_files nos p) = pl_next_file_no p"
  "pl_effects (remove_files nos p) = pl_effects p @ map RemoveSst nos"
  unfolding remove_files_def by (induction nos arbitrary: p) (auto simp: effect_def)

lemma write_manifest_simps [simp]:
  "pl_store (plsm_write_manifest p) = pl_store p" "pl_next_file_no (plsm_write_manifest p) = pl_next_file_no p"
  "pl_effects (plsm_write_manifest p) = pl_effects p @
     [WriteTmp (manifest_bytes (pl_next_file_no p) (map file_numbers (ls_levels (pl_store p)))), RenameTmp]"
  by (simp_all add: plsm_write_manifest_def effect_def)

text \<open>
  The commit shared by \<open>flush\<close> and \<open>compact\<close>: whatever prefix of its effects reached the disk, the
  directory describes the old levels or the new ones, and at the end it describes the new ones.
\<close>

lemma commit_spec:
  assumes old: "plsm_inv d p" and mid: "mid_op d (pl_next_file_no p) p1"
    and obs: "set obs \<inter> set (file_numbers (pl_tables p1)) = {}"
  defines "p' \<equiv> remove_files obs (plsm_write_manifest p1)"
  shows "crashes (pl_effects p') d d' \<Longrightarrow> stores d' (ls_levels (pl_store p)) \<or> stores d' (ls_levels (pl_store p1))"
    and "plsm_inv (dir_after d p') (p'\<lparr>pl_effects := []\<rparr>)"
proof -
  let ?n0 = "pl_next_file_no p" and ?L = "ls_levels (pl_store p1)"
  let ?mb = "manifest_bytes (pl_next_file_no p1) (map file_numbers ?L)"
  let ?d1 = "apply_effect RenameTmp (apply_effect (WriteTmp ?mb) (dir_after d p1))"
  have eff: "pl_effects p' = pl_effects p1 @ WriteTmp ?mb # RenameTmp # map RemoveSst obs"
    by (simp add: p'_def)
  have num: "numbered_below (pl_next_file_no p1) (concat ?L)"
    using mid by (simp add: mid_op_def tables_newest_first_def)
  have len: "length (map file_numbers ?L) < 2 ^ 32"
    using mid unat_u32_bound [of "pl_next_file_no p1"] by (simp add: mid_op_def)
  have "length (file_numbers l) \<le> length l" for l
    by (induction l) (auto split: option.splits)
  moreover have "length l \<le> length (concat ?L)" if "l \<in> set ?L" for l
    using that by (simp add: length_concat member_le_sum_list)
  ultimately have lens: "\<forall>l \<in> set (map file_numbers ?L). length l < 2 ^ 32"
    using numbered_below_length [OF num] unat_u32_bound [of "pl_next_file_no p1"] by (fastforce intro: le_less_trans)
  have committed: "read_manifest d2 = Ok (pl_next_file_no p1, map file_numbers ?L)
      \<and> (\<forall>t \<in> set (pl_tables p1). on_disk d2 t)" if "crashes (map RemoveSst obs) ?d1 d2" for d2
  proof
    note same = crashes_removing [OF that]
    then show "read_manifest d2 = Ok (pl_next_file_no p1, map file_numbers ?L)"
      by (intro read_manifest_written len lens) simp
    show "\<forall>t \<in> set (pl_tables p1). on_disk d2 t"
    proof
      fix t assume t: "t \<in> set (pl_tables p1)"
      then obtain n where n: "st_file_no t = Some n" "d_sst (dir_after d p1) n = Some (st_data t)"
        using mid unfolding mid_op_def on_disk_def by blast
      then have "n \<in> set (file_numbers (pl_tables p1))" using t unfolding in_file_numbers by blast
      then have "n \<notin> set obs" using obs by blast
      with same n show "on_disk d2 t" by (simp add: on_disk_def)
    qed
  qed
  then have stores_new: "stores d2 ?L" if "crashes (map RemoveSst obs) ?d1 d2" for d2
    using that mid num unfolding stores_def mid_op_def lsm_inv_def tables_newest_first_def by blast
  show "stores d' (ls_levels (pl_store p)) \<or> stores d' ?L" if "crashes (pl_effects p') d d'"
  proof -
    have "\<forall>e \<in> set (pl_effects p1). \<exists>n img. e = WriteSst n img \<and> ?n0 \<le> n"
      using mid by (simp add: mid_op_def)
    from crashes_before_commit [OF that [unfolded eff] this] show ?thesis
    proof
      assume "agrees_below ?n0 d d'"
      then show ?thesis
        using stores_agree [OF plsm_inv_stores [OF old], of ?n0 d'] old
        by (simp add: plsm_inv_def mid_op_def tables_newest_first_def)
    qed (use stores_new in blast)
  qed
  have "crashes (map RemoveSst obs) ?d1 (dir_after d p')"
    unfolding eff by (simp add: crashes_complete)
  from committed [OF this] show "plsm_inv (dir_after d p') (p'\<lparr>pl_effects := []\<rparr>)"
    using mid by (simp add: plsm_inv_def mid_op_def p'_def)
qed


lemma plsm_flush_spec:
  assumes inv: "plsm_inv d p" and small: "lsm_weight (pl_store p) < 2 ^ 30"
    and room: "unat (pl_next_file_no p) + length (pl_tables p) + 2 < 2 ^ 32"
  shows "\<exists>p'. plsm_flush p = Some (Ok p') \<and> lsm_entries (pl_store p') = lsm_entries (pl_store p) \<and>
    mt_is_empty (ls_memtable (pl_store p')) \<and> plsm_inv (dir_after d p') (p'\<lparr>pl_effects := []\<rparr>) \<and>
    lsm_weight (pl_store p') \<le> lsm_weight (pl_store p) \<and>
    unat (pl_next_file_no p') + length (pl_tables p') \<le> unat (pl_next_file_no p) + length (pl_tables p) + 2 \<and>
    (\<forall>d'. crashes (pl_effects p') d d' \<longrightarrow>
       stores d' (ls_levels (pl_store p)) \<or> stores d' (ls_levels (pl_store p')))"
proof (cases "mt_is_empty (ls_memtable (pl_store p))")
  case True
  then have "plsm_flush p = Some (Ok p)" by (simp add: plsm_flush_def memtable_image_def)
  moreover have "pl_effects p = []" using inv by (simp add: plsm_inv_def)
  moreover have "plsm_inv d (p\<lparr>pl_effects := []\<rparr>)"
    using inv by (auto simp: plsm_inv_def mid_op_def)
  ultimately show ?thesis
    using True plsm_inv_stores [OF inv] by (auto elim: crashes_NilE)
next
  case False
  let ?s = "pl_store p" and ?no = "pl_next_file_no p"
  let ?m = "mt_map (ls_memtable ?s)"
  have sinv: "lsm_inv ?s" and mid: "mid_op d ?no p" using inv by (auto simp: plsm_inv_def mid_op_def)
  have "ascending ?m" "entries_weight (encode_all ?m) < 2 ^ 30"
    using sinv small by (auto simp: lsm_inv_def mt_inv_def lsm_weight_def)
  from build_from_spec [OF this, of ?s] obtain img t where
    t: "build_from ?s ?m = Ok img" "sst_parse img = Ok t" "table_ok t" "sst_contents t = encode_all ?m" by blast
  let ?st = "reset_memtable (insert_level0 ?s (with_file_no t ?no))"
  let ?p = "(write_sstable p ?no img)\<lparr>pl_next_file_no := ?no + 1, pl_store := ?st\<rparr>"
  have ts: "tables_newest_first ?st = with_file_no t ?no # pl_tables p"
    by (simp add: insert_level0_tables)
  have stinv: "lsm_inv ?st"
    using sinv with_file_no_ok [OF t(3)] by (auto simp: lsm_inv_def insert_level0_tables mt_inv_new)
  have w: "lsm_weight ?st = lsm_weight ?s"
    by (simp add: lsm_weight_def insert_level0_tables t(4) mt_new_def encode_all_def)
  have ent: "lsm_entries ?st = lsm_entries ?s"
    using tables_entries_encoded [OF t(4)]
    by (simp add: lsm_entries_def insert_level0_tables tables_entries_Cons [of _ "pl_tables p"]
        tables_entries_file_no mt_get_new mt_map_of)
  have room1: "unat ?no + 1 < 2 ^ 32" using room by simp
  note up = incr32_less [OF room1 zero_less_one]
  have lv: "length (ls_levels ?st) \<le> Suc (length (ls_levels ?s))"
    by (simp add: reset_memtable_def insert_level0_def split: list.splits)
  have "mid_op d ?no ?p"
    by (rule mid_op_new_table [where xs = "[]", OF mid t(2) room1 _ _ _ stinv lv])
      (use ts mid in \<open>auto simp: mid_op_def numbered_below_def\<close>)
  from plsm_cascade_spec [OF this, of "[]"] w ent small room up(2) obtain p1 obs where
    c: "plsm_cascade ?p [] = Some (Ok (p1, obs))" "mid_op d ?no p1" "lsm_entries (pl_store p1) = lsm_entries ?s"
      "lsm_weight (pl_store p1) \<le> lsm_weight ?s" "ls_memtable (pl_store p1) = mt_new"
      "set obs \<inter> set (file_numbers (pl_tables p1)) = {}"
      "unat (pl_next_file_no p1) + length (pl_tables p1) \<le> unat ?no + length (pl_tables p) + 2"
    by (auto simp: insert_level0_tables)
  let ?p' = "remove_files obs (plsm_write_manifest p1)"
  have "plsm_flush p = Some (Ok ?p')"
    using False by (simp add: plsm_flush_def memtable_image_def mt_iter_def t(1,2) up(1) c(1) Let_def)
  moreover have "mt_is_empty (ls_memtable (pl_store ?p'))"
    by (simp add: c(5) mt_is_empty_def mt_new_def)
  ultimately show ?thesis
    using commit_spec [OF inv c(2,6)] c(3,4,7) by (intro exI [of _ ?p']) auto
qed

lemma plsm_compact_spec:
  assumes inv: "plsm_inv d p" and small: "lsm_weight (pl_store p) < 2 ^ 30"
    and room: "unat (pl_next_file_no p) + 1 < 2 ^ 32"
  shows "\<exists>p'. plsm_compact p = Ok p' \<and> lsm_abs (pl_store p') = lsm_abs (pl_store p) \<and>
    live (tables_entries (pl_tables p')) = live (tables_entries (pl_tables p)) \<and>
    plsm_inv (dir_after d p') (p'\<lparr>pl_effects := []\<rparr>) \<and> lsm_weight (pl_store p') \<le> lsm_weight (pl_store p) \<and>
    unat (pl_next_file_no p') + length (pl_tables p') \<le> unat (pl_next_file_no p) + length (pl_tables p) \<and>
    (\<forall>d'. crashes (pl_effects p') d d' \<longrightarrow>
       stores d' (ls_levels (pl_store p)) \<or> stores d' (ls_levels (pl_store p')))"
proof (cases "num_sstables (pl_store p) < 2")
  case True
  then have "plsm_compact p = Ok p" by (simp add: plsm_compact_def compacted_image_def)
  moreover have "pl_effects p = []" using inv by (simp add: plsm_inv_def)
  moreover have "plsm_inv d (p\<lparr>pl_effects := []\<rparr>)"
    using inv by (auto simp: plsm_inv_def mid_op_def)
  ultimately show ?thesis
    using plsm_inv_stores [OF inv] by (auto elim: crashes_NilE)
next
  case False
  let ?s = "pl_store p" and ?no = "pl_next_file_no p"
  have sinv: "lsm_inv ?s" and mid: "mid_op d ?no p" using inv by (auto simp: plsm_inv_def mid_op_def)
  from compacted_image_Ok [OF sinv small False] obtain img t where
    img: "compacted_image ?s = Ok (Some img)"
    and t: "sst_parse img = Ok t" "table_ok t" "live (tables_entries [t]) = live (tables_entries (pl_tables p))"
      "entries_weight (sst_contents t) \<le> tables_weight (pl_tables p)"
    by metis
  let ?st = "?s\<lparr>ls_levels := [[with_file_no t ?no]]\<rparr>"
  let ?p = "(write_sstable p ?no img)\<lparr>pl_next_file_no := ?no + 1, pl_store := ?st\<rparr>"
  let ?old = "sstable_file_numbers p"
  note up = incr32_less [OF room zero_less_one]
  have ts: "tables_newest_first ?st = [] @ with_file_no t ?no # []"
    by (simp add: tables_newest_first_def)
  have stinv: "lsm_inv ?st"
    using sinv with_file_no_ok [OF t(2)] by (auto simp: lsm_inv_def ts)
  have mid1: "mid_op d ?no ?p"
    by (rule mid_op_new_table [OF mid t(1) room ts _ _ stinv]) simp_all
  have "?no \<notin> set ?old"
    using mid numbered_below_bound unfolding mid_op_def sstable_file_numbers_def tables_newest_first_def by blast
  then have obs: "set ?old \<inter> set (file_numbers (pl_tables ?p)) = {}"
    by (simp add: ts)
  have lv: "live (tables_entries (tables_newest_first ?st)) = live (tables_entries (pl_tables p))"
    using t(3) by (simp add: ts tables_entries_file_no)
  have "lsm_abs ?st = lsm_abs ?s"
    using lv by (simp add: lsm_abs_live lsm_entries_def fun_eq_iff live_map_add split: option.splits)
  moreover have "lsm_weight ?st \<le> lsm_weight ?s"
    using t(4) by (simp add: lsm_weight_def ts)
  moreover have "plsm_compact p = Ok (remove_files ?old (plsm_write_manifest ?p))"
    by (simp add: plsm_compact_def img t(1) up(1) Let_def)
  moreover have "unat (?no + 1) + length (tables_newest_first ?st) \<le> unat ?no + length (pl_tables p)"
    using False up(2) by (simp add: ts num_sstables_length)
  ultimately show ?thesis
    using commit_spec [OF inv mid1 obs] lv by (intro exI [of _ "remove_files ?old (plsm_write_manifest ?p)"]) auto
qed

subsection \<open>Sequences of operations with a crash\<close>

fun plsm_op :: "plsm \<Rightarrow> lsm_op \<Rightarrow> plsm result option" where
  "plsm_op p (Put k v) = Some (Ok (plsm_put p k v))"
| "plsm_op p (Delete k) = Some (Ok (plsm_delete p k))"
| "plsm_op p Flush = plsm_flush p"
| "plsm_op p Compact = Some (plsm_compact p)"

fun plsm_run :: "fs_dir \<times> plsm \<Rightarrow> lsm_op list \<Rightarrow> (fs_dir \<times> plsm) result option" where
  "plsm_run (d, p) [] = Some (Ok (d, p))"
| "plsm_run (d, p) (op # ops) =
     (case plsm_op p op of
        None \<Rightarrow> None
      | Some (Err e) \<Rightarrow> Some (Err e)
      | Some (Ok p') \<Rightarrow> plsm_run (dir_after d p', p'\<lparr>pl_effects := []\<rparr>) ops)"

text \<open>The specification: the current map and the map as of the last flush.\<close>

fun durable_step :: "lsm_op \<Rightarrow> (byte list \<rightharpoonup> byte list) \<times> (byte list \<rightharpoonup> byte list) \<Rightarrow>
    (byte list \<rightharpoonup> byte list) \<times> (byte list \<rightharpoonup> byte list)" where
  "durable_step (Put k v) (m, dm) = (m(k \<mapsto> v), dm)"
| "durable_step (Delete k) (m, dm) = (m(k := None), dm)"
| "durable_step Flush (m, dm) = (m, m)"
| "durable_step Compact (m, dm) = (m, dm)"

definition run_inv :: "nat \<Rightarrow> nat \<Rightarrow> fs_dir \<Rightarrow> plsm \<Rightarrow> (byte list \<rightharpoonup> byte list) \<times> (byte list \<rightharpoonup> byte list) \<Rightarrow> bool" where
  "run_inv w n d p mm \<longleftrightarrow> plsm_inv d p \<and> lsm_weight (pl_store p) \<le> w \<and>
     unat (pl_next_file_no p) + length (pl_tables p) \<le> n \<and>
     lsm_abs (pl_store p) = fst mm \<and> live (tables_entries (pl_tables p)) = snd mm"

lemma plsm_write_inv:
  assumes "plsm_inv d p"
  shows "plsm_inv d (p\<lparr>pl_store := (pl_store p)\<lparr>ls_memtable := mt_write (ls_memtable (pl_store p)) k e\<rparr>\<rparr>)"
  using assms lsm_write_spec(1) [of "pl_store p" _ k e]
  by (auto simp: plsm_inv_def mid_op_def tables_newest_first_def)

lemma plsm_inv_reset: "plsm_inv d p \<Longrightarrow> plsm_inv d (p\<lparr>pl_effects := []\<rparr>)"
  by (auto simp: plsm_inv_def mid_op_def)

lemma plsm_op_spec:
  assumes inv: "run_inv w n d p mm" and w: "w < 2 ^ 30" and n: "n + 2 < 2 ^ 32"
  shows "\<exists>p'. plsm_op p op = Some (Ok p') \<and>
    run_inv (w + op_weight op) (n + 2) (dir_after d p') (p'\<lparr>pl_effects := []\<rparr>) (durable_step op mm) \<and>
    (\<forall>d'. crashes (pl_effects p') d d' \<longrightarrow>
       stores d' (ls_levels (pl_store p)) \<or> stores d' (ls_levels (pl_store p')))"
proof -
  obtain m dm where mm: "mm = (m, dm)" by (cases mm)
  have pinv: "plsm_inv d p" and eff: "pl_effects p = []" and sinv: "lsm_inv (pl_store p)"
    using inv by (auto simp: run_inv_def plsm_inv_def mid_op_def)
  have small: "lsm_weight (pl_store p) < 2 ^ 30" and room: "unat (pl_next_file_no p) + length (pl_tables p) + 2 < 2 ^ 32"
    using inv w n by (auto simp: run_inv_def)
  have wr: "\<exists>p'. p' = p\<lparr>pl_store := (pl_store p)\<lparr>ls_memtable := mt_write (ls_memtable (pl_store p)) k e\<rparr>\<rparr> \<and>
      run_inv (w + (15 + length k + length (encode_mem_entry e))) (n + 2) (dir_after d p') (p'\<lparr>pl_effects := []\<rparr>)
        (m(k := me_value e), dm) \<and>
      (\<forall>d'. crashes (pl_effects p') d d' \<longrightarrow> stores d' (ls_levels (pl_store p)) \<or> stores d' (ls_levels (pl_store p')))"
    for k e
  proof (intro exI conjI, rule refl)
    let ?s = "(pl_store p)\<lparr>ls_memtable := mt_write (ls_memtable (pl_store p)) k e\<rparr>"
    let ?p = "p\<lparr>pl_store := ?s\<rparr>"
    note spec = lsm_write_spec [OF sinv refl, of k e]
    have "pl_tables ?p = pl_tables p"
      by (simp add: tables_newest_first_def)
    then show "run_inv (w + (15 + length k + length (encode_mem_entry e))) (n + 2) (dir_after d ?p) (?p\<lparr>pl_effects := []\<rparr>)
        (m(k := me_value e), dm)"
      using inv spec(2,3) plsm_inv_reset [OF plsm_write_inv [OF pinv, of k e]] eff mm by (simp add: run_inv_def)
    show "\<forall>d'. crashes (pl_effects ?p) d d' \<longrightarrow> stores d' (ls_levels (pl_store p)) \<or> stores d' (ls_levels (pl_store ?p))"
      using plsm_inv_stores [OF pinv] eff by (auto elim: crashes_NilE)
  qed
  show ?thesis
  proof (cases op)
    case (Put k v)
    then show ?thesis using wr [of k "Value v"] mm by (simp add: plsm_put_def lsm_put_def mt_put_def fun_upd_def add.assoc)
  next
    case (Delete k)
    then show ?thesis using wr [of k Tombstone] mm by (simp add: plsm_delete_def lsm_delete_def mt_delete_def add.assoc)
  next
    case Flush
    from plsm_flush_spec [OF pinv small room] obtain p' where
      p': "plsm_flush p = Some (Ok p')" "lsm_entries (pl_store p') = lsm_entries (pl_store p)"
        "mt_is_empty (ls_memtable (pl_store p'))" "plsm_inv (dir_after d p') (p'\<lparr>pl_effects := []\<rparr>)"
        "lsm_weight (pl_store p') \<le> lsm_weight (pl_store p)"
        "unat (pl_next_file_no p') + length (pl_tables p') \<le> unat (pl_next_file_no p) + length (pl_tables p) + 2"
        "\<forall>d'. crashes (pl_effects p') d d' \<longrightarrow> stores d' (ls_levels (pl_store p)) \<or> stores d' (ls_levels (pl_store p'))"
      by blast
    have "lsm_entries (pl_store p') = tables_entries (pl_tables p')"
      using p'(3) by (simp add: lsm_entries_def mt_is_empty_def mt_get_def [abs_def] map_add_def)
    then have "live (tables_entries (pl_tables p')) = m" "lsm_abs (pl_store p') = m"
      using p'(2) inv mm by (simp_all add: lsm_abs_live run_inv_def)
    then show ?thesis
      using p' inv mm Flush by (intro exI [of _ p']) (simp add: run_inv_def)
  next
    case Compact
    then show ?thesis using plsm_compact_spec [OF pinv small] inv room mm by (fastforce simp: run_inv_def)
  qed
qed


lemma plsm_run_spec:
  assumes "run_inv w n d p mm" "w + sum_list (map op_weight ops) < 2 ^ 30" "n + 2 * length ops < 2 ^ 32"
  shows "\<exists>d' p'. plsm_run (d, p) ops = Some (Ok (d', p')) \<and>
    run_inv (w + sum_list (map op_weight ops)) (n + 2 * length ops) d' p' (fold durable_step ops mm)"
  using assms
proof (induction ops arbitrary: w n d p mm)
  case (Cons op ops)
  from plsm_op_spec [OF Cons.prems(1), of op] Cons.prems(2,3) obtain p1 where
    p1: "plsm_op p op = Some (Ok p1)"
      "run_inv (w + op_weight op) (n + 2) (dir_after d p1) (p1\<lparr>pl_effects := []\<rparr>) (durable_step op mm)" by auto
  from Cons.IH [OF p1(2)] p1(1) Cons.prems(2,3) show ?case
    by (simp add: add.assoc)
qed simp

definition empty_dir :: fs_dir where
  "empty_dir = \<lparr>d_sst = Map.empty, d_manifest = None, d_tmp = None\<rparr>"

lemma open_empty_inv:
  "\<exists>p. plsm_open_with_trigger empty_dir bs trigger = Ok p \<and> run_inv 0 1 empty_dir p (Map.empty, Map.empty)"
proof -
  have "plsm_open_with_trigger empty_dir bs trigger
      = Ok \<lparr>pl_store = lsm_new_with_trigger bs trigger, pl_next_file_no = 1, pl_effects = []\<rparr>"
    by (simp add: plsm_open_with_trigger_def read_manifest_def empty_dir_def incr32_def lsm_new_with_trigger_def)
  moreover have "run_inv 0 1 empty_dir \<lparr>pl_store = lsm_new_with_trigger bs trigger, pl_next_file_no = 1, pl_effects = []\<rparr>
      (Map.empty, Map.empty)"
    using lsm_new_spec [of bs trigger]
    by (simp add: run_inv_def plsm_inv_def mid_op_def read_manifest_def empty_dir_def numbered_below_def live_def)
      (simp add: lsm_new_with_trigger_def tables_newest_first_def)
  ultimately show ?thesis by blast
qed

lemma stored_open:
  assumes "stores d levels"
  shows "\<exists>p. plsm_open_with_trigger d bs trigger = Ok p \<and> lsm_inv (pl_store p) \<and>
    lsm_abs (pl_store p) = live (tables_entries (concat levels))"
proof -
  let ?s = "(lsm_new_with_trigger bs trigger)\<lparr>ls_levels := levels\<rparr>"
  from open_stores [OF assms, of bs trigger] obtain nx where
    "plsm_open_with_trigger d bs trigger = Ok \<lparr>pl_store = ?s, pl_next_file_no = nx, pl_effects = []\<rparr>" by blast
  moreover have "lsm_inv ?s"
    using assms by (auto simp: lsm_inv_def stores_def tables_newest_first_def lsm_new_with_trigger_def mt_inv_new)
  moreover have "lsm_abs ?s = live (tables_entries (concat levels))"
    by (simp add: lsm_abs_live lsm_entries_def tables_newest_first_def lsm_new_with_trigger_def mt_get_new)
  ultimately show ?thesis by simp
qed

lemma stored_get:
  assumes "stores d levels"
  shows "\<exists>r. plsm_open_with_trigger d bs trigger = Ok r \<and> (\<forall>k. plsm_get r k = Ok (live (tables_entries (concat levels)) k))"
  using stored_open [OF assms, of bs trigger] by (auto simp: plsm_get_def lsm_get_spec)

text \<open>
  C5: The durable store survives a crash at any point. Start from an empty directory, run any
  sequence of puts, deletes, flushes and compactions, and stop the machine anywhere inside the next
  operation: whatever prefix of its file writes, rename and removals reached the disk, with the file
  being written left in an arbitrary state, opening the directory again succeeds and serves for
  every key the contents as of the last flush before that operation or, once the manifest was
  replaced, as of that operation. The running store itself always serves the latest contents. The hypotheses bound the
  written bytes by one GiB and the number of operations by the 32-bit file numbers.
\<close>

theorem lsm_crash_safe:
  assumes "sum_list (map op_weight (ops @ [op])) < 2 ^ 30" and "2 * length ops + 3 < 2 ^ 32"
  shows "\<exists>p0 d p p'. plsm_open_with_trigger empty_dir block_size trigger = Ok p0 \<and>
    plsm_run (empty_dir, p0) ops = Some (Ok (d, p)) \<and>
    (\<forall>k. plsm_get p k = Ok (fst (fold durable_step ops (Map.empty, Map.empty)) k)) \<and>
    plsm_op p op = Some (Ok p') \<and>
    (\<forall>d'. crashes (pl_effects p') d d' \<longrightarrow> (\<exists>r. plsm_open_with_trigger d' block_size trigger = Ok r \<and>
       ((\<forall>k. plsm_get r k = Ok (snd (fold durable_step ops (Map.empty, Map.empty)) k)) \<or>
        (\<forall>k. plsm_get r k = Ok (snd (fold durable_step (ops @ [op]) (Map.empty, Map.empty)) k)))))"
proof -
  let ?mm = "fold durable_step ops (Map.empty, Map.empty)"
  from open_empty_inv obtain p0 where
    p0: "plsm_open_with_trigger empty_dir block_size trigger = Ok p0" "run_inv 0 1 empty_dir p0 (Map.empty, Map.empty)"
    by blast
  from plsm_run_spec [OF p0(2), of ops] assms obtain d p where
    run: "plsm_run (empty_dir, p0) ops = Some (Ok (d, p))"
      "run_inv (sum_list (map op_weight ops)) (1 + 2 * length ops) d p ?mm" by auto
  from plsm_op_spec [OF run(2), of op] assms obtain p' where
    p': "plsm_op p op = Some (Ok p')"
      "run_inv (sum_list (map op_weight ops) + op_weight op) (1 + 2 * length ops + 2) (dir_after d p')
         (p'\<lparr>pl_effects := []\<rparr>) (durable_step op ?mm)"
      "\<forall>d'. crashes (pl_effects p') d d' \<longrightarrow> stores d' (ls_levels (pl_store p)) \<or> stores d' (ls_levels (pl_store p'))"
    by auto
  have get: "plsm_get p k = Ok (fst ?mm k)" for k
    using run(2) by (simp add: plsm_get_def lsm_get_spec run_inv_def plsm_inv_def mid_op_def)
  have old: "live (tables_entries (concat (ls_levels (pl_store p)))) = snd ?mm"
    using run(2) by (simp add: run_inv_def tables_newest_first_def)
  have new: "live (tables_entries (concat (ls_levels (pl_store p')))) = snd (durable_step op ?mm)"
    using p'(2) by (simp add: run_inv_def tables_newest_first_def)
  have "\<exists>r. plsm_open_with_trigger d' block_size trigger = Ok r \<and>
       ((\<forall>k. plsm_get r k = Ok (snd ?mm k)) \<or> (\<forall>k. plsm_get r k = Ok (snd (durable_step op ?mm) k)))"
    if "crashes (pl_effects p') d d'" for d'
    using p'(3) that stored_get [of d' _ block_size trigger] old new by metis
  with p0(1) run(1) get p'(1) show ?thesis
    by (auto simp: fold_append)
qed


theorem lsm_crash_safe_witness:
  "\<exists>p0 d p p'. plsm_open_with_trigger empty_dir 64 2 = Ok p0 \<and>
    plsm_run (empty_dir, p0) [Put [1] [7], Flush, Put [2] [8]] = Some (Ok (d, p)) \<and> plsm_op p Flush = Some (Ok p') \<and>
    (\<exists>r. plsm_open_with_trigger (fold apply_effect (pl_effects p') d) 64 2 = Ok r \<and> plsm_get r [1] = Ok (Some [7]))"
proof -
  let ?ops = "[Put [1] [7], Flush, Put [2] [8]]"
  have "sum_list (map op_weight (?ops @ [Flush])) < 2 ^ 30" "2 * length ?ops + 3 < 2 ^ 32"
    by simp_all
  from lsm_crash_safe [OF this, of 64 2] obtain p0 d p p' where
    1: "plsm_open_with_trigger empty_dir 64 2 = Ok p0" "plsm_run (empty_dir, p0) ?ops = Some (Ok (d, p))"
      "plsm_op p Flush = Some (Ok p')"
    and 2: "\<forall>d'. crashes (pl_effects p') d d' \<longrightarrow> (\<exists>r. plsm_open_with_trigger d' 64 2 = Ok r \<and>
       ((\<forall>k. plsm_get r k = Ok (snd (fold durable_step ?ops (Map.empty, Map.empty)) k)) \<or>
        (\<forall>k. plsm_get r k = Ok (snd (fold durable_step (?ops @ [Flush]) (Map.empty, Map.empty)) k))))"
    by (elim exE conjE)
  from 2 crashes_complete obtain r where
    r: "plsm_open_with_trigger (fold apply_effect (pl_effects p') d) 64 2 = Ok r"
      "(\<forall>k. plsm_get r k = Ok (snd (fold durable_step ?ops (Map.empty, Map.empty)) k)) \<or>
        (\<forall>k. plsm_get r k = Ok (snd (fold durable_step (?ops @ [Flush]) (Map.empty, Map.empty)) k))" by blast
  then have "plsm_get r [1] = Ok (Some [7])" by auto
  with 1 r(1) show ?thesis by blast
qed

end
