(* ===== verification/Table_Storage.thy ===== *)
theory Table_Storage
  imports Prelude
begin

section \<open>Row ids and the table storage interface\<close>

text \<open>
  \<open>Rid\<close> of \<open>src/src/storage/heap.rs\<close> with its derived order, the page constants of
  \<open>src/src/storage/page.rs\<close>, and the contract of the trait \<open>TableStorage\<close> of
  \<open>src/src/storage/engine.rs\<close> as a locale: a table is a map from row ids to encoded records. The
  LSM engine interprets it; the heap engine, whose pages are not modelled, does not. What the transaction layer relies on (an insert
  or a delete mark can be undone exactly) is proved once here.
\<close>

definition PAGE_SIZE :: nat where
  "PAGE_SIZE = 8192"

type_synonym page = "byte list"

definition zeroed_page :: page where
  "zeroed_page = replicate PAGE_SIZE 0"

lemma length_zeroed_page [simp]: "length zeroed_page = PAGE_SIZE"
  by (simp add: zeroed_page_def)

datatype rid = Rid (page_no: u32) (slot: u16)

instantiation rid :: linorder
begin

definition less_rid :: "rid \<Rightarrow> rid \<Rightarrow> bool" where
  "less_rid a b \<longleftrightarrow> page_no a < page_no b \<or> page_no a = page_no b \<and> slot a < slot b"

definition less_eq_rid :: "rid \<Rightarrow> rid \<Rightarrow> bool" where
  "less_eq_rid a b \<longleftrightarrow> page_no a < page_no b \<or> page_no a = page_no b \<and> slot a \<le> slot b"

instance
  by standard (auto simp: less_rid_def less_eq_rid_def rid.expand)

end

definition RECORD_HEADER :: nat where
  "RECORD_HEADER = 24"

text \<open>The version fields of a stored record: creator, deleter, forward pointer, then the row.\<close>

definition rec_u64 :: "byte list \<Rightarrow> nat \<Rightarrow> u64" where
  "rec_u64 record off = word_of_nat (le_dec (subl record off (off + 8)))"

definition mark_record :: "byte list \<Rightarrow> u64 \<Rightarrow> u64 \<Rightarrow> byte list" where
  "mark_record record deleter next_rid = patch (patch record 8 (le_enc 8 (unat deleter))) 16 (le_enc 8 (unat next_rid))"

lemma length_mark_record [simp]: "RECORD_HEADER \<le> length record \<Longrightarrow> length (mark_record record d n) = length record"
  by (simp add: mark_record_def length_patch RECORD_HEADER_def)

lemma le_dec_subl_u64: "length bs = 8 \<Longrightarrow> le_enc 8 (unat (word_of_nat (le_dec bs) :: u64)) = bs"
  using le_dec_bound [of bs] le_enc_dec [of bs 8] by (simp add: unat_u64_of_nat del: unat_of_nat)

lemma rec_u64_mark:
  assumes "RECORD_HEADER \<le> length record"
  shows "rec_u64 (mark_record record d n) 8 = d" "rec_u64 (mark_record record d n) 16 = n"
    "rec_u64 (mark_record record d n) 0 = rec_u64 record 0"
    "drop RECORD_HEADER (mark_record record d n) = drop RECORD_HEADER record"
proof -
  have len: "24 \<le> length record" using assms by (simp add: RECORD_HEADER_def)
  let ?p = "patch record 8 (le_enc 8 (unat d))"
  have "subl (mark_record record d n) 8 16 = le_enc 8 (unat d)"
    using len by (simp add: mark_record_def subl_patch_disjoint length_patch subl_patch_same)
  then show "rec_u64 (mark_record record d n) 8 = d"
    by (simp add: rec_u64_def le_dec_unat64)
  have "subl (mark_record record d n) 16 24 = le_enc 8 (unat n)"
    using len by (simp add: mark_record_def length_patch subl_patch_same)
  then show "rec_u64 (mark_record record d n) 16 = n"
    by (simp add: rec_u64_def le_dec_unat64)
  show "rec_u64 (mark_record record d n) 0 = rec_u64 record 0"
    using len by (simp add: rec_u64_def mark_record_def subl_patch_disjoint length_patch)
  show "drop RECORD_HEADER (mark_record record d n) = drop RECORD_HEADER record"
    using len by (intro nth_equalityI) (simp_all add: RECORD_HEADER_def mark_record_def length_patch nth_patch)
qed

text \<open>Marking with the previous fields restores the record.\<close>

lemma mark_record_undo:
  assumes "RECORD_HEADER \<le> length record"
  shows "mark_record (mark_record record d n) (rec_u64 record 8) (rec_u64 record 16) = record"
proof -
  have len: "24 \<le> length record" using assms by (simp add: RECORD_HEADER_def)
  have b: "le_enc 8 (unat (rec_u64 record off)) = subl record off (off + 8)" if "off + 8 \<le> length record" for off
    unfolding rec_u64_def using that by (intro le_dec_subl_u64) simp
  show ?thesis
    using len b [of 8] b [of 16]
    by (intro nth_equalityI) (auto simp: mark_record_def length_patch nth_patch nth_subl)
qed

locale table_storage =
  fixes ok :: "'s \<Rightarrow> bool"
    and room :: "'s \<Rightarrow> bool"
    and rows :: "'s \<Rightarrow> rid \<rightharpoonup> byte list"
    and insert :: "'s \<Rightarrow> byte list \<Rightarrow> (rid \<times> 's) result"
    and try_get :: "'s \<Rightarrow> rid \<Rightarrow> byte list option result"
    and delete :: "'s \<Rightarrow> rid \<Rightarrow> 's result"
    and delete_mark :: "'s \<Rightarrow> rid \<Rightarrow> u64 \<Rightarrow> u64 \<Rightarrow> ((u64 \<times> u64) \<times> 's) result"
  assumes insert_law: "ok s \<Longrightarrow> room s \<Longrightarrow> insert s rec = Ok (r, s') \<Longrightarrow>
      ok s' \<and> rows s r = None \<and> rows s' = (rows s)(r \<mapsto> rec)"
    and try_get_law: "ok s \<Longrightarrow> try_get s r = Ok v \<Longrightarrow> v = rows s r"
    and try_get_stored: "ok s \<Longrightarrow> rows s r = Some rec \<Longrightarrow> try_get s r = Ok (Some rec)"
    and delete_stored: "ok s \<Longrightarrow> rows s r = Some rec \<Longrightarrow> \<exists>s'. delete s r = Ok s'"
    and delete_law: "ok s \<Longrightarrow> delete s r = Ok s' \<Longrightarrow> ok s' \<and> rows s' = (rows s)(r := None)"
    and mark_stored: "ok s \<Longrightarrow> rows s r = Some rec \<Longrightarrow> RECORD_HEADER \<le> length rec \<Longrightarrow>
      \<exists>s'. delete_mark s r d n = Ok ((rec_u64 rec 8, rec_u64 rec 16), s')"
    and mark_law: "ok s \<Longrightarrow> delete_mark s r d n = Ok (prev, s') \<Longrightarrow>
      ok s' \<and> (\<exists>rec. rows s r = Some rec \<and> RECORD_HEADER \<le> length rec \<and>
        prev = (rec_u64 rec 8, rec_u64 rec 16) \<and> rows s' = (rows s)(r \<mapsto> mark_record rec d n))"
begin

text \<open>Rolling back an insert.\<close>

lemma insert_delete_undo:
  assumes "ok s" "room s" "insert s rec = Ok (r, s1)"
  obtains s2 where "delete s1 r = Ok s2" "ok s2" "rows s2 = rows s"
proof -
  note 1 = insert_law [OF assms]
  then obtain s2 where s2: "delete s1 r = Ok s2"
    using delete_stored [of s1 r rec] by auto
  from delete_law [OF _ s2] 1 have "ok s2" "rows s2 = rows s" by auto
  with that s2 show ?thesis .
qed

text \<open>Rolling back a delete mark.\<close>

lemma mark_undo:
  assumes "ok s" "delete_mark s r d n = Ok ((d0, n0), s1)"
  obtains s2 prev where "delete_mark s1 r d0 n0 = Ok (prev, s2)" "ok s2" "rows s2 = rows s" "prev = (d, n)"
proof -
  from mark_law [OF assms] obtain rec where rec: "ok s1" "rows s r = Some rec" "RECORD_HEADER \<le> length rec"
    "d0 = rec_u64 rec 8" "n0 = rec_u64 rec 16" "rows s1 = (rows s)(r \<mapsto> mark_record rec d n)" by auto
  have 1: "rows s1 r = Some (mark_record rec d n)" "RECORD_HEADER \<le> length (mark_record rec d n)"
    using rec by auto
  from mark_stored [OF rec(1) 1] obtain s2 where
    s2: "delete_mark s1 r d0 n0 = Ok ((d, n), s2)"
    using rec(3) by (auto simp: rec_u64_mark)
  from mark_law [OF rec(1) s2] 1 rec have "ok s2" "rows s2 = rows s"
    by (auto simp: mark_record_undo fun_upd_idem)
  with that s2 show ?thesis by blast
qed

lemma insert_then_get:
  assumes "ok s" "room s" "insert s rec = Ok (r, s1)"
  shows "try_get s1 r = Ok (Some rec)"
  using insert_law [OF assms] try_get_stored by simp

end

end
