(* ===== verification/Lsm_Engine.thy ===== *)
theory Lsm_Engine
  imports Persist Table_Storage
begin

section \<open>The LSM table engine\<close>

text \<open>
  \<open>src/src/storage/lsm/engine.rs\<close>: rows of a table in the durable LSM store, under an id that packs
  into a \<open>Rid\<close>. \<open>lsm_engine\<close> is \<open>LsmEngine\<close>; the mutex around the store and the atomic counter make
  each method one step. The lemmas show that the row keys keep the order of the ids, that the engine
  is a table in the sense of \<open>table_storage\<close>, and that a scan returns its rows in ascending order of row id.
\<close>

unbundle bit_operations_syntax

definition LSM_FILE_ID :: u32 where
  "LSM_FILE_ID = - 1"

record lsm_engine =
  le_inner :: plsm
  le_next_rid :: u64

definition rid_id :: "rid \<Rightarrow> u64" where
  "rid_id r = push_bit 16 (ucast (page_no r)) OR ucast (slot r)"

definition id_to_rid :: "u64 \<Rightarrow> rid" where
  "id_to_rid i = Rid (ucast (drop_bit 16 i)) (ucast (i AND 0xffff))"

definition rid_key :: "rid \<Rightarrow> byte list" where
  "rid_key r = be_enc 8 (unat (rid_id r))"

text \<open>The largest id among the 8-byte keys of an iteration.\<close>

definition max_id :: "kvs \<Rightarrow> u64" where
  "max_id kvs = fold (\<lambda>(key, _) m. if length key = 8 then max m (word_of_nat (be_dec key)) else m) kvs 0"

text \<open>\<open>max_id + 1\<close> overflows (and panics) when the largest id is the largest \<open>u64\<close>.\<close>

definition incr64 :: "u64 \<Rightarrow> u64 result" where
  "incr64 x = (if x = - 1 then Err Panic else Ok (x + 1))"

definition lsm_open_with_trigger :: "fs_dir \<Rightarrow> nat \<Rightarrow> nat \<Rightarrow> lsm_engine result" where
  "lsm_open_with_trigger d block_size compaction_trigger =
     bindR (plsm_open_with_trigger d block_size compaction_trigger) (\<lambda>lsm.
     bindR (plsm_iter lsm) (\<lambda>kvs.
     bindR (incr64 (max_id kvs)) (\<lambda>next.
       Ok \<lparr>le_inner = lsm, le_next_rid = next\<rparr>)))"

definition eng_flush :: "lsm_engine \<Rightarrow> lsm_engine result option" where
  "eng_flush e = map_option (\<lambda>r. bindR r (\<lambda>p. Ok (e\<lparr>le_inner := p\<rparr>))) (plsm_flush (le_inner e))"

definition eng_compact :: "lsm_engine \<Rightarrow> lsm_engine result" where
  "eng_compact e = bindR (plsm_compact (le_inner e)) (\<lambda>p. Ok (e\<lparr>le_inner := p\<rparr>))"

text \<open>
  The compare-exchange loop raises the counter to \<open>id + 1\<close> when it is not beyond \<open>id\<close>; run as one
  step it exchanges at most once.
\<close>

definition eng_insert_at :: "lsm_engine \<Rightarrow> rid \<Rightarrow> byte list \<Rightarrow> lsm_engine result" where
  "eng_insert_at e r record =
     (let i = rid_id r; current = le_next_rid e in
      bindR (if current \<le> i then incr64 i else Ok current) (\<lambda>next.
        Ok (e\<lparr>le_next_rid := next, le_inner := plsm_put (le_inner e) (rid_key r) record\<rparr>)))"

definition eng_try_get :: "lsm_engine \<Rightarrow> rid \<Rightarrow> byte list option result" where
  "eng_try_get e r = plsm_get (le_inner e) (rid_key r)"

definition eng_get :: "lsm_engine \<Rightarrow> rid \<Rightarrow> byte list result" where
  "eng_get e r =
     bindR (eng_try_get e r) (\<lambda>v. case v of None \<Rightarrow> Err (Runtime ''no record'') | Some rec \<Rightarrow> Ok rec)"

text \<open>\<open>fetch_add\<close> wraps around.\<close>

definition eng_insert :: "lsm_engine \<Rightarrow> byte list \<Rightarrow> (rid \<times> lsm_engine) result" where
  "eng_insert e record =
     (let i = le_next_rid e; r = id_to_rid i
      in Ok (r, e\<lparr>le_next_rid := i + 1, le_inner := plsm_put (le_inner e) (rid_key r) record\<rparr>))"

definition eng_delete :: "lsm_engine \<Rightarrow> rid \<Rightarrow> lsm_engine result" where
  "eng_delete e r = Ok (e\<lparr>le_inner := plsm_delete (le_inner e) (rid_key r)\<rparr>)"

definition eng_delete_mark :: "lsm_engine \<Rightarrow> rid \<Rightarrow> u64 \<Rightarrow> u64 \<Rightarrow> ((u64 \<times> u64) \<times> lsm_engine) result" where
  "eng_delete_mark e r deleter next_rid =
     bindR (plsm_get (le_inner e) (rid_key r)) (\<lambda>v.
       case v of
         None \<Rightarrow> Err (Runtime ''no record'')
       | Some record \<Rightarrow>
           if length record < RECORD_HEADER then Err (Runtime ''record lacks mvcc fields'')
           else
             let previous = rec_u64 record 8; prev_next = rec_u64 record 16 in
             Ok ((previous, prev_next),
                 e\<lparr>le_inner := plsm_put (le_inner e) (rid_key r) (mark_record record deleter next_rid)\<rparr>))"

definition eng_scan :: "lsm_engine \<Rightarrow> merge_scanner result" where
  "eng_scan e = (let (mem, sstables) = lsm_snapshot (pl_store (le_inner e)) in ms_new mem sstables)"

partial_function (option) lscan_next :: "merge_scanner \<Rightarrow> ((rid \<times> byte list) option \<times> merge_scanner) result option" where
  "lscan_next m =
     (case ms_next m of
        None \<Rightarrow> None
      | Some (Err e) \<Rightarrow> Some (Err e)
      | Some (Ok (None, m')) \<Rightarrow> Some (Ok (None, m'))
      | Some (Ok (Some (key, value), m')) \<Rightarrow>
          if length key = 8 then Some (Ok (Some (id_to_rid (word_of_nat (be_dec key)), value), m'))
          else lscan_next m')"

subsection \<open>Row ids and keys\<close>

lemma unat_rid_id: "unat (rid_id r) = unat (page_no r) * 65536 + unat (slot r)"
proof -
  have p: "unat (page_no r) < 2 ^ 32" and s: "unat (slot r) < 2 ^ 16"
    using unat_u32_bound [of "page_no r"] unat_u16_bound [of "slot r"] by auto
  have disj: "(push_bit 16 (ucast (page_no r)) AND ucast (slot r) :: u64) = 0"
    by (rule bit_word_eqI) (auto simp: bit_simps dest: bit_imp_le_length)
  have u1: "unat (ucast (page_no r) :: u64) = unat (page_no r)" and u2: "unat (ucast (slot r) :: u64) = unat (slot r)"
    by (simp_all add: unsigned_ucast_eq take_bit_nat_eq_self_iff)
      (use p s in simp_all)
  have "unat (push_bit 16 (ucast (page_no r)) :: u64) = unat (page_no r) * 65536"
    using p by (simp add: push_bit_eq_mult unat_word_ariths u1)
  moreover have "rid_id r = push_bit 16 (ucast (page_no r)) + ucast (slot r)"
    unfolding rid_id_def by (simp only: disjunctive_add_eq_or [OF disj])
  ultimately show ?thesis
    using p s by (simp add: unat_word_ariths u2)
qed

lemma id_to_rid_parts:
  "unat (page_no (id_to_rid i)) = unat i div 65536 mod 2 ^ 32" "unat (slot (id_to_rid i)) = unat i mod 65536"
proof -
  have m: "i AND 0xffff = take_bit 16 i"
    by (simp add: take_bit_eq_mask mask_eq_exp_minus_1)
  show "unat (page_no (id_to_rid i)) = unat i div 65536 mod 2 ^ 32"
    by (simp add: id_to_rid_def unsigned_ucast_eq take_bit_eq_mod drop_bit_eq_div unat_div_distrib)
  show "unat (slot (id_to_rid i)) = unat i mod 65536"
    unfolding id_to_rid_def m
    by (simp add: unsigned_ucast_eq take_bit_eq_mod unat_mod_distrib)
qed

lemma id_to_rid_of_rid [simp]: "id_to_rid (rid_id r) = r"
  using unat_u16_bound [of "slot r"] unat_u32_bound [of "page_no r"]
  by (intro rid.expand) (simp_all add: word_unat_eq_iff id_to_rid_parts unat_rid_id)

lemma rid_id_of_id: "unat i < 2 ^ 48 \<Longrightarrow> rid_id (id_to_rid i) = i"
  by (simp add: word_unat_eq_iff unat_rid_id id_to_rid_parts less_mult_imp_div_less)

lemma rid_id_inject: "rid_id a = rid_id b \<longleftrightarrow> a = b"
  by (metis id_to_rid_of_rid)

lemma rid_id_less: "rid_id a < rid_id b \<longleftrightarrow> a < b"
proof -
  have "unat (slot a) < 65536" "unat (slot b) < 65536"
    by (rule unat_u16_bound)+
  then show ?thesis
    by (auto simp: word_less_nat_alt unat_rid_id less_rid_def word_unat_eq_iff)
qed

lemma rid_key_inject [simp]: "rid_key a = rid_key b \<longleftrightarrow> a = b"
proof -
  have "unat (rid_id r) < 256 ^ 8" for r using unat_u64_bound by simp
  then show ?thesis
    by (simp add: rid_key_def be_enc_inject word_unat_eq_iff [symmetric] rid_id_inject)
qed

lemma rid_key_length [simp]: "length (rid_key r) = 8"
  by (simp add: rid_key_def)

lemma rid_key_decode [simp]: "word_of_nat (be_dec (rid_key r)) = rid_id r"
  using unat_u64_bound [of "rid_id r"] by (simp add: rid_key_def be_dec_enc)

lemma rid_key_less: "rid_key a < rid_key b \<longleftrightarrow> a < b"
proof -
  have "unat (rid_id r) < 256 ^ 8" for r using unat_u64_bound by simp
  then show ?thesis
    by (simp add: rid_key_def be_enc_less word_less_nat_alt [symmetric] rid_id_less)
qed

subsection \<open>The engine as a table\<close>

definition eng_rows :: "lsm_engine \<Rightarrow> rid \<rightharpoonup> byte list" where
  "eng_rows e = (\<lambda>r. lsm_abs (pl_store (le_inner e)) (rid_key r))"

definition eng_ok :: "lsm_engine \<Rightarrow> bool" where
  "eng_ok e \<longleftrightarrow> lsm_inv (pl_store (le_inner e)) \<and> (\<forall>r \<in> dom (eng_rows e). rid_id r < le_next_rid e) \<and>
     dom (lsm_abs (pl_store (le_inner e))) \<subseteq> range rid_key"

definition eng_room :: "lsm_engine \<Rightarrow> bool" where
  "eng_room e \<longleftrightarrow> unat (le_next_rid e) < 2 ^ 48"

lemma plsm_put_abs:
  assumes "lsm_inv (pl_store p)"
  shows "lsm_inv (pl_store (plsm_put p k v))" "lsm_abs (pl_store (plsm_put p k v)) = (lsm_abs (pl_store p))(k \<mapsto> v)"
  using lsm_write_spec [OF assms refl, of k "Value v"]
  by (simp_all add: plsm_put_def lsm_put_def mt_put_def)

lemma plsm_delete_abs:
  assumes "lsm_inv (pl_store p)"
  shows "lsm_inv (pl_store (plsm_delete p k))" "lsm_abs (pl_store (plsm_delete p k)) = (lsm_abs (pl_store p))(k := None)"
  using lsm_write_spec [OF assms refl, of k Tombstone]
  by (simp_all add: plsm_delete_def lsm_delete_def mt_delete_def)

lemma eng_try_get_rows: "eng_ok e \<Longrightarrow> eng_try_get e r = Ok (eng_rows e r)"
  by (simp add: eng_try_get_def plsm_get_def eng_rows_def eng_ok_def lsm_get_spec)

lemma eng_insert_spec:
  assumes "eng_ok e" "eng_room e" "eng_insert e rec = Ok (r, e')"
  shows "eng_ok e' \<and> eng_rows e r = None \<and> eng_rows e' = (eng_rows e)(r \<mapsto> rec) \<and> r = id_to_rid (le_next_rid e)"
proof -
  let ?i = "le_next_rid e"
  have r: "r = id_to_rid ?i" and e': "e' = e\<lparr>le_next_rid := ?i + 1, le_inner := plsm_put (le_inner e) (rid_key r) rec\<rparr>"
    using assms(3) by (auto simp: eng_insert_def Let_def)
  have small: "unat ?i < 2 ^ 48" using assms(2) by (simp add: eng_room_def)
  then have id: "rid_id r = ?i" by (simp add: r rid_id_of_id)
  have fresh: "eng_rows e r = None"
    using assms(1) id unfolding eng_ok_def by (metis domIff order_less_irrefl)
  have next_: "?i < ?i + 1"
    using small by (simp add: word_less_nat_alt unat_word_ariths)
  have rows: "eng_rows e' = (eng_rows e)(r \<mapsto> rec)" and inv: "lsm_inv (pl_store (le_inner e'))"
    using plsm_put_abs [of "le_inner e" "rid_key r" rec] assms(1)
    by (auto simp: eng_rows_def e' fun_eq_iff eng_ok_def)
  have "\<forall>q \<in> dom (eng_rows e'). rid_id q < ?i + 1"
    using assms(1) id next_ rows unfolding eng_ok_def by (auto intro: less_trans split: if_splits)
  then show ?thesis
    using inv rows fresh r assms(1) plsm_put_abs [of "le_inner e" "rid_key r" rec] by (simp add: eng_ok_def e')
qed

lemma eng_update_ok:
  assumes "eng_ok e" "eng_rows e r \<noteq> None"
  shows "eng_ok (e\<lparr>le_inner := plsm_put (le_inner e) (rid_key r) rec\<rparr>)" (is "eng_ok ?e")
    and "eng_rows (e\<lparr>le_inner := plsm_put (le_inner e) (rid_key r) rec\<rparr>) = (eng_rows e)(r \<mapsto> rec)"
proof -
  have inv: "lsm_inv (pl_store (le_inner e))" using assms(1) by (simp add: eng_ok_def)
  show rows: "eng_rows ?e = (eng_rows e)(r \<mapsto> rec)"
    by (simp add: eng_rows_def fun_eq_iff plsm_put_abs [OF inv])
  then show "eng_ok ?e"
    using assms plsm_put_abs [OF inv, of "rid_key r" rec] by (auto simp: eng_ok_def split: if_splits)
qed

lemma eng_delete_spec:
  assumes "eng_ok e" "eng_delete e r = Ok e'"
  shows "eng_ok e' \<and> eng_rows e' = (eng_rows e)(r := None)"
proof -
  have e': "e' = e\<lparr>le_inner := plsm_delete (le_inner e) (rid_key r)\<rparr>"
    using assms(2) by (simp add: eng_delete_def)
  have inv: "lsm_inv (pl_store (le_inner e))" using assms(1) by (simp add: eng_ok_def)
  have rows: "eng_rows e' = (eng_rows e)(r := None)"
    by (simp add: e' eng_rows_def fun_eq_iff plsm_delete_abs [OF inv])
  then show ?thesis
    using assms(1) plsm_delete_abs [OF inv, of "rid_key r"] by (auto simp: eng_ok_def e' split: if_splits)
qed

interpretation lsm_table: table_storage eng_ok eng_room eng_rows eng_insert eng_try_get eng_delete eng_delete_mark
proof
  fix e e' :: lsm_engine and rec :: "byte list" and r :: rid
  assume ok: "eng_ok e"
  then have inv: "lsm_inv (pl_store (le_inner e))" by (simp add: eng_ok_def)
  note get = eng_try_get_rows [OF ok, unfolded eng_try_get_def]
  show "eng_room e \<Longrightarrow> eng_insert e rec = Ok (r, e') \<Longrightarrow> eng_ok e' \<and> eng_rows e r = None \<and> eng_rows e' = (eng_rows e)(r \<mapsto> rec)"
    using eng_insert_spec [OF ok] by blast
  show "eng_try_get e r = Ok v \<Longrightarrow> v = eng_rows e r" for v
    by (simp add: eng_try_get_rows [OF ok])
  show "eng_rows e r = Some rec \<Longrightarrow> eng_try_get e r = Ok (Some rec)"
    by (simp add: eng_try_get_rows [OF ok])
  show "\<exists>s'. eng_delete e r = Ok s'"
    by (simp add: eng_delete_def)
  show "eng_delete e r = Ok e' \<Longrightarrow> eng_ok e' \<and> eng_rows e' = (eng_rows e)(r := None)"
    using eng_delete_spec [OF ok] by simp
  show "\<exists>s'. eng_delete_mark e r d n = Ok ((rec_u64 rec 8, rec_u64 rec 16), s')"
    if "eng_rows e r = Some rec" "RECORD_HEADER \<le> length rec" for d n
    using that by (simp add: eng_delete_mark_def get Let_def)
  show "eng_ok e' \<and> (\<exists>rec. eng_rows e r = Some rec \<and> RECORD_HEADER \<le> length rec \<and>
      prev = (rec_u64 rec 8, rec_u64 rec 16) \<and> eng_rows e' = (eng_rows e)(r \<mapsto> mark_record rec d n))"
    if "eng_delete_mark e r d n = Ok (prev, e')" for prev d n
    using that eng_update_ok [OF ok, of r]
    by (auto simp: eng_delete_mark_def get Let_def not_less split: option.splits if_splits)
qed


subsection \<open>Scanning\<close>

text \<open>Calling \<open>next\<close> up to \<open>n\<close> times.\<close>

fun lscan_drain :: "nat \<Rightarrow> merge_scanner \<Rightarrow> (rid \<times> byte list) list result option" where
  "lscan_drain 0 m = Some (Ok [])"
| "lscan_drain (Suc n) m =
     (case lscan_next m of
        None \<Rightarrow> None
      | Some (Err e) \<Rightarrow> Some (Err e)
      | Some (Ok (None, m')) \<Rightarrow> Some (Ok [])
      | Some (Ok (Some row, m')) \<Rightarrow> map_option (\<lambda>r. bindR r (\<lambda>rows. Ok (row # rows))) (lscan_drain n m'))"

definition row_of_kv :: "byte list \<times> byte list \<Rightarrow> rid \<times> byte list" where
  "row_of_kv = (\<lambda>(k, v). (id_to_rid (word_of_nat (be_dec k)), v))"

lemma row_of_kv_rid_key [simp]: "row_of_kv (rid_key r, v) = (r, v)"
  by (simp add: row_of_kv_def)

lemma lscan_drain_ms_drain:
  assumes "\<And>n. ms_drain n m = Some (Ok (take n kvs))" "fst ` set kvs \<subseteq> range rid_key"
  shows "lscan_drain n m = Some (Ok (take n (map row_of_kv kvs)))"
  using assms
proof (induction n arbitrary: m kvs)
  case (Suc n)
  show ?case
  proof (cases kvs)
    case Nil
    then obtain m' where "ms_next m = Some (Ok (None, m'))"
      using Suc.prems(1) [of 1] by (auto split: option.splits result.splits prod.splits)
    then show ?thesis by (subst lscan_drain.simps, subst lscan_next.simps) (simp add: Nil)
  next
    case (Cons kv kvs')
    from Suc.prems(1) [of 1] obtain m' where nx: "ms_next m = Some (Ok (Some kv, m'))"
      by (auto simp: Cons split: option.splits result.splits prod.splits)
    have rest: "ms_drain i m' = Some (Ok (take i kvs'))" for i
      using Suc.prems(1) [of "Suc i"] by (auto simp: Cons nx res_simps)
    from Suc.prems(2) obtain r v where kv: "kv = (rid_key r, v)"
      by (cases kv) (auto simp: Cons)
    have "lscan_next m = Some (Ok (Some (row_of_kv kv), m'))"
      by (subst lscan_next.simps) (simp add: nx kv)
    then show ?thesis
      using Suc.IH [OF rest] Suc.prems(2) by (simp add: Cons)
  qed
qed simp

lemma rows_of_kvs:
  assumes "ascending kvs" "fst ` set kvs \<subseteq> range rid_key"
  shows "ascending (map row_of_kv kvs)" "map_of (map row_of_kv kvs) r = map_of kvs (rid_key r)"
proof -
  have mono: "fst (row_of_kv a) < fst (row_of_kv b)" if "a \<in> set kvs" "b \<in> set kvs" "fst a < fst b" for a b
  proof -
    from that(1,2) assms(2) obtain ra rb where "fst a = rid_key ra" "fst b = rid_key rb" by blast
    with that(3) show ?thesis by (cases a; cases b) (simp add: rid_key_less)
  qed
  show "ascending (map row_of_kv kvs)"
    using assms(1) unfolding sorted_wrt_map by (rule sorted_wrt_mono_rel [rotated]) (rule mono)
  show "map_of (map row_of_kv kvs) r = map_of kvs (rid_key r)"
    using assms(2)
  proof (induction kvs)
    case (Cons a kvs)
    then show ?case by (cases a) auto
  qed simp
qed

text \<open>
  C6: A scan of the LSM engine streams the table. On any engine state that satisfies the invariant,
  \<open>scan\<close> succeeds and calling \<open>next\<close> \<open>n\<close> times returns the first \<open>n\<close> of the live rows in strictly
  ascending order of row id, each with its stored record and none left out; no call fails or runs
  forever.
\<close>

theorem lsm_engine_scan_streams_rows:
  assumes "eng_ok e"
  shows "\<exists>m rs. eng_scan e = Ok m \<and> ascending rs \<and> map_of rs = eng_rows e \<and>
    (\<forall>n. lscan_drain n m = Some (Ok (take n rs)))"
proof -
  have inv: "lsm_inv (pl_store (le_inner e))" using assms by (simp add: eng_ok_def)
  from scanner_streams [OF inv] obtain m kvs where
    m: "ms_new (fst (lsm_snapshot (pl_store (le_inner e)))) (snd (lsm_snapshot (pl_store (le_inner e)))) = Ok m"
    and kvs: "lsm_iter (pl_store (le_inner e)) = Ok kvs" "\<And>n. ms_drain n m = Some (Ok (take n kvs))" by blast
  from lsm_iter_spec [OF inv] kvs(1) have asc: "ascending kvs" and abs: "map_of kvs = lsm_abs (pl_store (le_inner e))" by auto
  have dom: "fst ` set kvs \<subseteq> range rid_key"
    using assms abs by (auto simp: eng_ok_def dom_map_of_conv_image_fst [symmetric])
  have "eng_scan e = Ok m" using m by (simp add: eng_scan_def case_prod_beta)
  then show ?thesis
    using rows_of_kvs [OF asc dom] lscan_drain_ms_drain [OF kvs(2) dom] abs
    by (intro exI [of _ m] exI [of _ "map row_of_kv kvs"]) (auto simp: eng_rows_def fun_eq_iff)
qed


subsection \<open>Opening a table\<close>

lemma max_id_Max:
  assumes "fst ` set kvs \<subseteq> range rid_key"
  shows "max_id kvs = Max (insert 0 ((\<lambda>kv. rid_id (fst (row_of_kv kv))) ` set kvs))"
proof -
  have "fold (\<lambda>(key, _) m. if length key = 8 then max m (word_of_nat (be_dec key)) else m) kvs a =
    fold max (map (\<lambda>kv. rid_id (fst (row_of_kv kv))) kvs) a" for a
    using assms
  proof (induction kvs arbitrary: a)
    case (Cons kv kvs)
    then obtain r v where "kv = (rid_key r, v)" by (cases kv) auto
    with Cons show ?case by (simp add: max.commute)
  qed simp
  then show ?thesis
    by (simp add: max_id_def Max.set_eq_fold [symmetric] del: Max_insert)
qed

lemma max_id_upper:
  assumes "fst ` set kvs \<subseteq> range rid_key" "(rid_key r, v) \<in> set kvs"
  shows "rid_id r \<le> max_id kvs"
  unfolding max_id_Max [OF assms(1)] using assms(2) by (intro Max_ge) (auto simp: image_iff intro!: bexI [of _ "(rid_key r, v)"])

lemma max_id_attained:
  assumes "fst ` set kvs \<subseteq> range rid_key"
  shows "max_id kvs = 0 \<or> (\<exists>r v. (rid_key r, v) \<in> set kvs \<and> max_id kvs = rid_id r)"
proof -
  have "max_id kvs \<in> insert 0 ((\<lambda>kv. rid_id (fst (row_of_kv kv))) ` set kvs)"
    unfolding max_id_Max [OF assms] by (rule Max_in) auto
  then consider "max_id kvs = 0" | kv where "kv \<in> set kvs" "max_id kvs = rid_id (fst (row_of_kv kv))" by auto
  then show ?thesis
  proof cases
    case 2
    with assms have "fst kv \<in> range rid_key" by blast
    then obtain r where "kv = (rid_key r, snd kv)" by (metis prod.collapse rangeE)
    with 2 show ?thesis by (metis fst_conv row_of_kv_rid_key)
  qed simp
qed

lemma unat_rid_id_bound: "unat (rid_id r) < 2 ^ 48"
  using unat_u16_bound [of "slot r"] unat_u32_bound [of "page_no r"] by (simp add: unat_rid_id)

lemma max_id_bound: "fst ` set kvs \<subseteq> range rid_key \<Longrightarrow> unat (max_id kvs) < 2 ^ 48"
  using max_id_attained [of kvs] unat_rid_id_bound by fastforce

lemma opened_rows:
  assumes "stores d levels" "dom (live (tables_entries (concat levels))) \<subseteq> range rid_key"
  shows "\<exists>e. lsm_open_with_trigger d bs trigger = Ok e \<and> eng_ok e \<and>
    eng_rows e = (\<lambda>r. live (tables_entries (concat levels)) (rid_key r)) \<and>
    0 < le_next_rid e \<and> unat (le_next_rid e) \<le> 2 ^ 48 \<and>
    (le_next_rid e = 1 \<or> (\<exists>r \<in> dom (eng_rows e). le_next_rid e = rid_id r + 1))"
proof -
  from stored_open [OF assms(1), of bs trigger] obtain p where
    p: "plsm_open_with_trigger d bs trigger = Ok p" "lsm_inv (pl_store p)"
      "lsm_abs (pl_store p) = live (tables_entries (concat levels))" by blast
  from lsm_iter_spec [OF p(2)] obtain kvs where
    kvs: "lsm_iter (pl_store p) = Ok kvs" "map_of kvs = lsm_abs (pl_store p)" "ascending kvs" by blast
  have dom: "fst ` set kvs \<subseteq> range rid_key"
    using assms(2) p(3) kvs(2) by (simp add: dom_map_of_conv_image_fst [symmetric])
  note bound = max_id_bound [OF dom]
  have up: "unat (max_id kvs + 1) = unat (max_id kvs) + 1"
    using bound by (simp add: unat_word_ariths)
  then have incr: "incr64 (max_id kvs) = Ok (max_id kvs + 1)"
    by (auto simp: incr64_def)
  let ?e = "\<lparr>le_inner = p, le_next_rid = max_id kvs + 1\<rparr>"
  have "rid_id r < max_id kvs + 1" if "r \<in> dom (eng_rows ?e)" for r
  proof -
    from that obtain v where "lsm_abs (pl_store p) (rid_key r) = Some v" by (auto simp: eng_rows_def)
    then have "(rid_key r, v) \<in> set kvs" by (intro map_of_SomeD) (simp add: kvs(2))
    from max_id_upper [OF dom this] show ?thesis
      using up by (simp add: word_less_nat_alt word_le_nat_alt)
  qed
  then have ok: "eng_ok ?e"
    using p(2,3) assms(2) by (simp add: eng_ok_def)
  have rows: "eng_rows ?e = (\<lambda>r. live (tables_entries (concat levels)) (rid_key r))"
    by (simp add: eng_rows_def p(3))
  have "max_id kvs = 0 \<or> (\<exists>r \<in> dom (eng_rows ?e). max_id kvs = rid_id r)"
  proof -
    have "r \<in> dom (eng_rows ?e)" if "(rid_key r, v) \<in> set kvs" for r v
      using weak_map_of_SomeI [OF that] by (simp add: eng_rows_def kvs(2) dom_def)
    with max_id_attained [OF dom] show ?thesis by blast
  qed
  moreover have "lsm_open_with_trigger d bs trigger = Ok ?e"
    by (simp add: lsm_open_with_trigger_def p(1) plsm_iter_def kvs(1) incr)
  ultimately show ?thesis
    using ok bound up by (intro exI [of _ ?e] conjI) (simp_all add: word_less_nat_alt rows)
qed

text \<open>
  C7: Opening a stored LSM table. If the directory holds the files of a layout whose live keys are
  row keys, the engine opens, satisfies its invariant, serves exactly the stored live rows, and its id
  counter lies beyond every live id: it is one more than the largest of them, or 1. The counter packs into a row id, so that
  inserting works, unless the largest row id of all, 2^48 - 1, is live. Ids of deleted rows are not counted, so they
  may be handed out again.
\<close>

theorem lsm_engine_open:
  assumes "stores d levels" "dom (live (tables_entries (concat levels))) \<subseteq> range rid_key"
  shows "\<exists>e. lsm_open_with_trigger d bs trigger = Ok e \<and> eng_ok e \<and>
    eng_rows e = (\<lambda>r. live (tables_entries (concat levels)) (rid_key r)) \<and>
    (\<forall>r \<in> dom (eng_rows e). rid_id r < le_next_rid e) \<and> 0 < le_next_rid e \<and>
    (le_next_rid e = 1 \<or> (\<exists>r \<in> dom (eng_rows e). le_next_rid e = rid_id r + 1)) \<and>
    (eng_room e \<or> (\<exists>r \<in> dom (eng_rows e). rid_id r = 2 ^ 48 - 1))"
proof -
  from opened_rows [OF assms, of bs trigger] obtain e where
    e: "lsm_open_with_trigger d bs trigger = Ok e" "eng_ok e" "eng_rows e = (\<lambda>r. live (tables_entries (concat levels)) (rid_key r))"
      "0 < le_next_rid e" "unat (le_next_rid e) \<le> 2 ^ 48"
      "le_next_rid e = 1 \<or> (\<exists>r \<in> dom (eng_rows e). le_next_rid e = rid_id r + 1)" by blast
  have "\<exists>r \<in> dom (eng_rows e). rid_id r = 2 ^ 48 - 1" if "\<not> eng_room e"
  proof -
    have u: "unat (le_next_rid e) = 2 ^ 48" using that e(5) by (simp add: eng_room_def)
    then have n: "le_next_rid e = 2 ^ 48" by (simp add: word_unat_eq_iff)
    with e(6) show ?thesis by (auto simp: eq_diff_eq)
  qed
  with e show ?thesis by (auto simp: eng_ok_def)
qed

theorem lsm_engine_open_witness:
  "\<exists>p0 d p e. plsm_open_with_trigger empty_dir 64 2 = Ok p0 \<and>
    plsm_run (empty_dir, p0) [Put (rid_key (Rid 0 5)) [1, 2, 3], Put (rid_key (Rid 0 7)) [9], Delete (rid_key (Rid 0 7)), Flush] = Some (Ok (d, p)) \<and>
    lsm_open_with_trigger d 64 2 = Ok e \<and> eng_rows e = [Rid 0 5 \<mapsto> [1, 2, 3]] \<and> le_next_rid e = 6"
proof -
  let ?ops = "[Put (rid_key (Rid 0 5)) [1, 2, 3], Put (rid_key (Rid 0 7)) [9], Delete (rid_key (Rid 0 7)), Flush]"
  let ?mm = "fold durable_step ?ops (Map.empty, Map.empty)"
  from open_empty_inv obtain p0 where
    p0: "plsm_open_with_trigger empty_dir 64 2 = Ok p0" "run_inv 0 1 empty_dir p0 (Map.empty, Map.empty)" by blast
  have "0 + sum_list (map op_weight ?ops) < 2 ^ 30" "1 + 2 * length ?ops < 2 ^ 32" by (simp_all add: rid_key_def)
  with plsm_run_spec [OF p0(2), of ?ops] obtain d p where
    run: "plsm_run (empty_dir, p0) ?ops = Some (Ok (d, p))" "run_inv (0 + sum_list (map op_weight ?ops)) (1 + 2 * length ?ops) d p ?mm" by blast
  let ?L = "ls_levels (pl_store p)"
  have live: "live (tables_entries (concat ?L)) = snd ?mm" using run(2) by (simp add: run_inv_def tables_newest_first_def)
  have st: "stores d ?L" using run(2) by (auto simp: run_inv_def intro: plsm_inv_stores)
  have neq: "rid_key (Rid 0 7) \<noteq> rid_key (Rid 0 5)" by simp
  have mm: "snd ?mm = [rid_key (Rid 0 5) \<mapsto> [1, 2, 3]]" using neq by auto
  have l: "live (tables_entries (concat ?L)) = [rid_key (Rid 0 5) \<mapsto> [1, 2, 3]]" using live mm by simp
  have "dom (live (tables_entries (concat ?L))) \<subseteq> range rid_key" unfolding l by auto
  from lsm_engine_open [OF st this, of 64 2] obtain e where e: "lsm_open_with_trigger d 64 2 = Ok e"
    "eng_rows e = (\<lambda>r. live (tables_entries (concat ?L)) (rid_key r))" "\<forall>r \<in> dom (eng_rows e). rid_id r < le_next_rid e"
    "le_next_rid e = 1 \<or> (\<exists>r \<in> dom (eng_rows e). le_next_rid e = rid_id r + 1)" by blast
  have rows: "eng_rows e = [Rid 0 5 \<mapsto> [1, 2, 3]]" unfolding e(2) l by auto
  have "rid_id (Rid 0 5) = 5" by (simp add: rid_id_def)
  with e(3,4) rows have "le_next_rid e = 6" by auto
  with p0(1) run(1) e(1) rows show ?thesis by blast
qed

lemma opened_empty:
  "\<exists>e. lsm_open_with_trigger empty_dir bs trigger = Ok e \<and> eng_ok e \<and> eng_rows e = Map.empty \<and> le_next_rid e = 1"
proof -
  have "stores empty_dir []" "dom (live (tables_entries (concat []))) \<subseteq> range rid_key"
    by (simp_all add: stores_def numbered_below_def read_manifest_def empty_dir_def live_def)
  from opened_rows [OF this, of bs trigger] show ?thesis by (auto simp: live_def)
qed

theorem lsm_engine_scan_streams_rows_witness:
  "\<exists>e e' r m. lsm_open_with_trigger empty_dir 64 2 = Ok e \<and> eng_insert e [1, 2, 3] = Ok (r, e') \<and>
    eng_scan e' = Ok m \<and> lscan_drain 5 m = Some (Ok [(Rid 0 1, [1, 2, 3])])"
proof -
  from opened_empty obtain e where
    e: "lsm_open_with_trigger empty_dir 64 2 = Ok e" "eng_ok e" "eng_rows e = Map.empty" "le_next_rid e = 1" by blast
  then obtain r e' where i: "eng_insert e [1, 2, 3] = Ok (r, e')" by (simp add: eng_insert_def Let_def)
  have "eng_room e" by (simp add: eng_room_def e(4))
  from eng_insert_spec [OF e(2) this i] have ok: "eng_ok e'" "eng_rows e' = [Rid 0 1 \<mapsto> [1, 2, 3]]"
    by (auto simp: e(3,4) id_to_rid_def)
  from lsm_engine_scan_streams_rows [OF ok(1)] obtain m rs where
    m: "eng_scan e' = Ok m" "ascending rs" "map_of rs = eng_rows e'" "lscan_drain 5 m = Some (Ok (take 5 rs))" by blast
  have "rs = [(Rid 0 1, [1, 2, 3])]"
    using m(2,3) ok(2) by (intro ascending_map_of_inject) auto
  with e(1) i m show ?thesis by auto
qed

text \<open>
  C8: What a rollback relies on holds of the LSM engine. An insert followed by the delete of the row it
  returned, and a delete mark followed by marking with the fields the first call returned, each give back the
  table as it was; and a row just inserted is read back. (The row ids are not exhausted.)
\<close>

theorem lsm_engine_undo:
  assumes "eng_ok e" "eng_room e"
  shows "(\<exists>r e1 e2. eng_insert e rec = Ok (r, e1) \<and> eng_try_get e1 r = Ok (Some rec) \<and>
      eng_delete e1 r = Ok e2 \<and> eng_ok e2 \<and> eng_rows e2 = eng_rows e) \<and>
    (\<forall>r d n d0 n0 e1. eng_delete_mark e r d n = Ok ((d0, n0), e1) \<longrightarrow>
      (\<exists>e2. eng_delete_mark e1 r d0 n0 = Ok ((d, n), e2) \<and> eng_ok e2 \<and> eng_rows e2 = eng_rows e))"
proof
  obtain r e1 where i: "eng_insert e rec = Ok (r, e1)" by (simp add: eng_insert_def Let_def)
  from lsm_table.insert_delete_undo [OF assms i] obtain e2 where
    "eng_delete e1 r = Ok e2" "eng_ok e2" "eng_rows e2 = eng_rows e" .
  with i lsm_table.insert_then_get [OF assms i] show "\<exists>r e1 e2. eng_insert e rec = Ok (r, e1) \<and>
      eng_try_get e1 r = Ok (Some rec) \<and> eng_delete e1 r = Ok e2 \<and> eng_ok e2 \<and> eng_rows e2 = eng_rows e" by blast
  show "\<forall>r d n d0 n0 e1. eng_delete_mark e r d n = Ok ((d0, n0), e1) \<longrightarrow>
      (\<exists>e2. eng_delete_mark e1 r d0 n0 = Ok ((d, n), e2) \<and> eng_ok e2 \<and> eng_rows e2 = eng_rows e)"
    using lsm_table.mark_undo [OF assms(1)] by metis
qed

theorem lsm_engine_undo_witness:
  "\<exists>e r e1 e2. lsm_open_with_trigger empty_dir 64 2 = Ok e \<and> eng_insert e [1, 2, 3] = Ok (r, e1) \<and>
    eng_delete e1 r = Ok e2 \<and> eng_rows e2 = Map.empty"
proof -
  from opened_empty obtain e where
    e: "lsm_open_with_trigger empty_dir 64 2 = Ok e" "eng_ok e" "eng_rows e = Map.empty" "le_next_rid e = 1" by blast
  have "eng_room e" by (simp add: eng_room_def e(4))
  from lsm_engine_undo [OF e(2) this, of "[1, 2, 3]"] e(1,3) show ?thesis by auto
qed

end
