(* ===== verification/Commit_Log.thy ===== *)
theory Commit_Log
  imports Prelude
begin

section \<open>The commit log interface\<close>

text \<open>
  What snapshots rely on of the commit log: which ids read as committed after a commit and after a
  move of the horizon. The lemmas say when an id is committed after any sequence of both; the bitmap
  of \<open>src/src/db/clog.rs\<close> interprets the locale.
\<close>

datatype log_event = Mark u64 | Advance u64

locale commit_log =
  fixes ok :: "'c \<Rightarrow> bool"
    and empty :: 'c
    and committed :: "'c \<Rightarrow> u64 \<Rightarrow> bool"
    and mark :: "'c \<Rightarrow> u64 \<Rightarrow> 'c"
    and advance :: "'c \<Rightarrow> u64 \<Rightarrow> 'c"
  assumes ok_empty: "ok empty"
    and not_committed_empty: "\<not> committed empty x"
    and mark_ok: "ok c \<Longrightarrow> ok (mark c x)"
    and committed_mark: "ok c \<Longrightarrow> committed (mark c x) y \<longleftrightarrow> committed c y \<or> y = x \<and> x \<noteq> 0"
    and advance_ok: "ok c \<Longrightarrow> ok (advance c b)"
    and committed_advance: "ok c \<Longrightarrow> committed (advance c b) y \<longleftrightarrow> committed c y \<or> y \<noteq> 0 \<and> y < b"
begin

definition run :: "log_event list \<Rightarrow> 'c \<Rightarrow> 'c" where
  "run es = fold (\<lambda>e c. case e of Mark x \<Rightarrow> mark c x | Advance b \<Rightarrow> advance c b) es"

lemma run_ok: "ok c \<Longrightarrow> ok (run es c)"
  unfolding run_def by (induction es arbitrary: c) (auto simp: mark_ok advance_ok split: log_event.split)

lemma committed_run:
  assumes "ok c"
  shows "committed (run es c) y \<longleftrightarrow>
    committed c y \<or> y \<noteq> 0 \<and> (Mark y \<in> set es \<or> (\<exists>b. Advance b \<in> set es \<and> y < b))"
  using assms unfolding run_def
proof (induction es arbitrary: c)
  case (Cons e es)
  then show ?case
    by (cases e) (auto simp: mark_ok committed_mark advance_ok committed_advance)
qed simp

text \<open>Once committed, always committed; and an id outside the events keeps its status.\<close>

lemma committed_mono: "ok c \<Longrightarrow> committed c y \<Longrightarrow> committed (run es c) y"
  by (simp add: committed_run)

lemma committed_untouched:
  "ok c \<Longrightarrow> Mark y \<notin> set es \<Longrightarrow> \<forall>b. Advance b \<in> set es \<longrightarrow> b \<le> y \<Longrightarrow> committed (run es c) y \<longleftrightarrow> committed c y"
  by (auto simp: committed_run not_less)

end

end
