(* ===== verification/Clog.thy ===== *)
theory Clog
  imports Commit_Log
begin

section \<open>Commit status\<close>

text \<open>
  \<open>src/src/db/clog.rs\<close>: the bitmap of committed transaction ids above a horizon. \<open>clog\<close> is
  \<open>ClogInner\<close>; the atomic words under the read-write lock make each lock scope one step, so
  \<open>mark_committed\<close> is the composition of its two scopes. The lemmas show that the bitmap
  implements a set of ids, that \<open>ids\<close> enumerates it in ascending order, and that advancing the horizon
  keeps the status of every id that is not frozen.
\<close>

unbundle bit_operations_syntax

definition BITS :: nat where
  "BITS = 64"

definition WORDS_PER_CHUNK :: nat where
  "WORDS_PER_CHUNK = 1024"

record clog =
  cl_base :: u64
  cl_words :: "u64 list"

definition clog_new :: clog where
  "clog_new = \<lparr>cl_base = 0, cl_words = []\<rparr>"

definition or_bit :: "nat \<Rightarrow> u64 list \<Rightarrow> u64 list" where
  "or_bit i ws = ws[i div BITS := ws ! (i div BITS) OR push_bit (i mod BITS) 1]"

definition clog_set_bit :: "clog \<Rightarrow> u64 \<Rightarrow> clog" where
  "clog_set_bit c xid =
     (let i = unat (xid - cl_base c); word = i div BITS;
          ws = (if length (cl_words c) \<le> word
                then cl_words c @ replicate ((word div WORDS_PER_CHUNK + 1) * WORDS_PER_CHUNK - length (cl_words c)) 0
                else cl_words c)
      in c\<lparr>cl_words := or_bit i ws\<rparr>)"

text \<open>The attempt under the shared lock; \<open>None\<close> when the bitmap must grow.\<close>

definition mark_shared :: "clog \<Rightarrow> u64 \<Rightarrow> clog option" where
  "mark_shared c xid =
     (if xid < cl_base c then Some c
      else let i = unat (xid - cl_base c) in
        if i div BITS < length (cl_words c) then Some (c\<lparr>cl_words := or_bit i (cl_words c)\<rparr>) else None)"

definition mark_exclusive :: "clog \<Rightarrow> u64 \<Rightarrow> clog" where
  "mark_exclusive c xid = (if xid < cl_base c then c else clog_set_bit c xid)"

definition mark_committed :: "clog \<Rightarrow> u64 \<Rightarrow> clog" where
  "mark_committed c xid = (case mark_shared c xid of Some c' \<Rightarrow> c' | None \<Rightarrow> mark_exclusive c xid)"

definition is_committed :: "clog \<Rightarrow> u64 \<Rightarrow> bool" where
  "is_committed c xid =
     (if xid = 0 then False
      else if xid < cl_base c then True
      else let i = unat (xid - cl_base c) in
        if i div BITS < length (cl_words c)
        then cl_words c ! (i div BITS) AND push_bit (i mod BITS) 1 \<noteq> 0 else False)"

definition trailing_zeros :: "u64 \<Rightarrow> nat" where
  "trailing_zeros w = length (takeWhile (\<lambda>i. \<not> bit w i) [0..<64])"

lemma trailing_zeros_bit:
  assumes "w \<noteq> 0"
  shows "trailing_zeros w < 64" "bit w (trailing_zeros w)" "i < trailing_zeros w \<Longrightarrow> \<not> bit w i"
proof -
  let ?P = "\<lambda>i. \<not> bit w i" and ?xs = "[0..<64] :: nat list"
  have "\<exists>i \<in> set ?xs. \<not> ?P i"
    using assms by (auto simp: bit_eq_iff dest: bit_imp_le_length)
  then have less: "length (takeWhile ?P ?xs) < length ?xs"
    by (metis length_takeWhile_le le_neq_implies_less takeWhile_eq_all_conv takeWhile_eq_take take_all_iff order_refl)
  then show "trailing_zeros w < 64" by (simp add: trailing_zeros_def)
  show "bit w (trailing_zeros w)"
    using nth_length_takeWhile [OF less] less by (simp add: trailing_zeros_def)
  show "\<not> bit w i" if "i < trailing_zeros w"
    using takeWhile_nth [of i ?P ?xs] nth_mem [of i "takeWhile ?P ?xs"] set_takeWhileD [of _ ?P ?xs] that less
    by (fastforce simp: trailing_zeros_def)
qed

lemma clear_lowest_bit:
  assumes "w \<noteq> (0 :: u64)"
  shows "w AND (w - 1) = unset_bit (trailing_zeros w) w"
proof -
  let ?n = "trailing_zeros w" and ?u = "unset_bit (trailing_zeros w) w"
  note tz = trailing_zeros_bit [OF assms]
  have "w = ?u OR 2 ^ ?n"
    using tz(1,2) by (auto intro!: bit_word_eqI simp: bit_simps)
  also have "\<dots> = ?u + 2 ^ ?n"
    by (rule disjunctive_add_eq_or [symmetric]) (auto intro!: bit_word_eqI simp: bit_simps)
  finally have "w - 1 = ?u + mask ?n"
    by (simp add: mask_eq_exp_minus_1 algebra_simps)
  also have "\<dots> = ?u OR mask ?n"
    using tz(3) by (intro disjunctive_add_eq_or) (auto intro!: bit_word_eqI simp: bit_simps)
  finally show ?thesis
    using tz by (auto intro!: bit_word_eqI simp: bit_simps)
qed

lemma clear_lowest_less:
  assumes "w \<noteq> (0 :: u64)"
  shows "unat (w AND (w - 1)) < unat w"
proof -
  have "w AND (w - 1) \<le> w - 1"
    by (simp add: word_and_le2 word_and_le1)
  also have "w - 1 < w"
    using assms by (simp add: word_less_nat_alt unat_minus_one unat_gt_0)
  finally show ?thesis by (simp add: word_less_nat_alt)
qed

text \<open>The set bits of one word, lowest first.\<close>

function word_ids :: "u64 \<Rightarrow> nat \<Rightarrow> u64 \<Rightarrow> u64 list" where
  "word_ids base w bits =
     (if bits = 0 then []
      else (base + word_of_nat (w * BITS + trailing_zeros bits)) # word_ids base w (bits AND (bits - 1)))"
  by auto
termination
  by (relation "measure (\<lambda>(_, _, bits). unat bits)") (simp_all add: clear_lowest_less)

declare word_ids.simps [simp del]

definition clog_ids :: "clog \<Rightarrow> u64 list" where
  "clog_ids c = concat (map (\<lambda>(w, word). word_ids (cl_base c) w word) (enumerate 0 (cl_words c)))"

definition advance_base :: "clog \<Rightarrow> u64 \<Rightarrow> clog" where
  "advance_base c new_base =
     (if new_base \<le> cl_base c then c
      else fold (\<lambda>xid c. clog_set_bit c xid) (filter (\<lambda>xid. new_base \<le> xid) (clog_ids c))
             \<lparr>cl_base = new_base, cl_words = []\<rparr>)"

unbundle bit_operations_syntax

subsection \<open>The bitmap as a set of ids\<close>

definition bit_at :: "u64 list \<Rightarrow> nat \<Rightarrow> bool" where
  "bit_at ws i \<longleftrightarrow> i div BITS < length ws \<and> bit (ws ! (i div BITS)) (i mod BITS)"

definition clog_set :: "clog \<Rightarrow> u64 set" where
  "clog_set c = {xid. xid < cl_base c \<or> bit_at (cl_words c) (unat (xid - cl_base c))}"

text \<open>No bit stands for an id beyond the largest \<open>u64\<close>.\<close>

definition clog_ok :: "clog \<Rightarrow> bool" where
  "clog_ok c \<longleftrightarrow> (\<forall>i. bit_at (cl_words c) i \<longrightarrow> unat (cl_base c) + i < 2 ^ 64)"

lemma bit_at_Nil [simp]: "\<not> bit_at [] i"
  by (simp add: bit_at_def)

lemma bit_at_or_bit: "i div BITS < length ws \<Longrightarrow> bit_at (or_bit i ws) j \<longleftrightarrow> bit_at ws j \<or> j = i"
proof -
  assume len: "i div BITS < length ws"
  have eq: "j = i \<longleftrightarrow> j div BITS = i div BITS \<and> j mod BITS = i mod BITS"
    by (metis mult_div_mod_eq)
  have "j mod BITS < 64" by (simp add: BITS_def)
  with len show ?thesis
    unfolding eq by (auto simp: bit_at_def or_bit_def nth_list_update bit_simps)
qed

lemma bit_at_grow: "bit_at (ws @ replicate n 0) i \<longleftrightarrow> bit_at ws i"
  by (auto simp: bit_at_def nth_append)

lemma bit_at_clog_set_bit:
  "bit_at (cl_words (clog_set_bit c xid)) j \<longleftrightarrow> bit_at (cl_words c) j \<or> j = unat (xid - cl_base c)"
proof -
  let ?i = "unat (xid - cl_base c)"
  have "?i div BITS < (?i div BITS div WORDS_PER_CHUNK + 1) * WORDS_PER_CHUNK"
    using dividend_less_times_div [of WORDS_PER_CHUNK "?i div BITS"] by (simp add: WORDS_PER_CHUNK_def algebra_simps)
  then show ?thesis
    by (auto simp: clog_set_bit_def Let_def bit_at_or_bit bit_at_grow)
qed

lemma clog_set_bit_base [simp]: "cl_base (clog_set_bit c xid) = cl_base c"
  by (simp add: clog_set_bit_def Let_def)

lemma clog_set_bit_spec:
  assumes "clog_ok c" "cl_base c \<le> xid"
  shows "clog_ok (clog_set_bit c xid)" "clog_set (clog_set_bit c xid) = insert xid (clog_set c)"
proof -
  show "clog_ok (clog_set_bit c xid)"
    using assms unat_u64_bound [of xid]
    by (auto simp: clog_ok_def bit_at_clog_set_bit unat_sub word_le_nat_alt)
  show "clog_set (clog_set_bit c xid) = insert xid (clog_set c)"
    by (auto simp: clog_set_def bit_at_clog_set_bit word_unat_eq_iff [symmetric])
qed

lemma mark_exclusive_spec:
  assumes "clog_ok c"
  shows "clog_ok (mark_exclusive c xid)" "clog_set (mark_exclusive c xid) = insert xid (clog_set c)"
    "cl_base (mark_exclusive c xid) = cl_base c"
proof -
  have "xid < cl_base c \<Longrightarrow> xid \<in> clog_set c" by (simp add: clog_set_def)
  then show "clog_ok (mark_exclusive c xid)" "clog_set (mark_exclusive c xid) = insert xid (clog_set c)"
    "cl_base (mark_exclusive c xid) = cl_base c"
    using assms clog_set_bit_spec [OF assms, of xid] by (auto simp: mark_exclusive_def not_less)
qed

lemma mark_shared_spec:
  assumes "mark_shared c xid = Some c'"
  shows "c' = mark_exclusive c xid"
  using assms by (auto simp: mark_shared_def mark_exclusive_def clog_set_bit_def Let_def split: if_splits)

lemma mark_committed_exclusive: "mark_committed c xid = mark_exclusive c xid"
  by (auto simp: mark_committed_def split: option.split dest: mark_shared_spec)

lemmas mark_committed_spec = mark_exclusive_spec [folded mark_committed_exclusive]

lemma is_committed_set: "is_committed c xid \<longleftrightarrow> xid \<noteq> 0 \<and> xid \<in> clog_set c"
  by (auto simp: is_committed_def clog_set_def bit_at_def Let_def bit_iff_and_push_bit_not_eq_0)

lemma clog_new_spec [simp]: "clog_ok clog_new" "clog_set clog_new = {}" "cl_base clog_new = 0"
  by (simp_all add: clog_new_def clog_ok_def clog_set_def)

subsection \<open>Enumerating the ids\<close>

lemma bits_lowest_first:
  assumes "w \<noteq> (0 :: u64)"
  shows "filter (bit w) [0..<64] = trailing_zeros w # filter (bit (w AND (w - 1))) [0..<64]"
proof (rule strict_sorted_equal)
  note tz = trailing_zeros_bit [OF assms]
  have eq: "bit (w AND (w - 1)) i \<longleftrightarrow> bit w i \<and> i \<noteq> trailing_zeros w" for i
    by (auto simp: clear_lowest_bit [OF assms] bit_simps)
  show "sorted_wrt (<) (filter (bit w) [0..<64])"
    by (simp add: sorted_wrt_filter)
  show "sorted_wrt (<) (trailing_zeros w # filter (bit (w AND (w - 1))) [0..<64])"
    using tz(3) unfolding eq by (auto simp: sorted_wrt_filter linorder_neq_iff)
  show "set (filter (bit w) [0..<64]) = set (trailing_zeros w # filter (bit (w AND (w - 1))) [0..<64])"
    using tz(1,2) unfolding eq by auto
qed

lemma word_ids_filter: "word_ids base w bits = map (\<lambda>i. base + word_of_nat (w * BITS + i)) (filter (bit bits) [0..<64])"
  by (induction base w bits rule: word_ids.induct) (subst word_ids.simps, simp add: bits_lowest_first)

lemma clog_ids_filter:
  "clog_ids c = map (\<lambda>i. cl_base c + word_of_nat i) (filter (bit_at (cl_words c)) [0..<length (cl_words c) * BITS])"
proof -
  have "concat (map (\<lambda>(w, word). word_ids b w word) (enumerate 0 ws)) =
      map (\<lambda>i. b + word_of_nat i) (filter (bit_at ws) [0..<length ws * BITS])" for b ws
  proof (induction ws rule: rev_induct)
    case (snoc w ws)
    let ?n = "length ws * BITS"
    have old: "filter (bit_at (ws @ [w])) [0..<?n] = filter (bit_at ws) [0..<?n]"
      by (rule filter_cong) (auto simp: bit_at_def nth_append BITS_def less_mult_imp_div_less)
    have "[?n..<?n + BITS] = map (\<lambda>i. i + ?n) [0..<64]"
      by (simp only: map_add_upt BITS_def add.commute)
    then have "filter (bit_at (ws @ [w])) [?n..<?n + BITS] = map (\<lambda>i. i + ?n) (filter (bit w) [0..<64])"
      by (auto simp: filter_map o_def bit_at_def BITS_def intro!: filter_cong)
    moreover have "[0..<length (ws @ [w]) * BITS] = [0..<?n] @ [?n..<?n + BITS]"
      using upt_add_eq_append [of 0 ?n BITS] by (simp add: add.commute)
    ultimately show ?case
      using snoc old by (simp add: enumerate_append_eq word_ids_filter o_def add.commute)
  qed simp
  then show ?thesis by (simp add: clog_ids_def)
qed

lemma clog_ids_spec:
  assumes "clog_ok c"
  shows "sorted_wrt (<) (clog_ids c)" "set (clog_ids c) = {xid \<in> clog_set c. cl_base c \<le> xid}"
proof -
  have up: "unat (cl_base c + word_of_nat i) = unat (cl_base c) + i" if "bit_at (cl_words c) i" for i
  proof -
    have "unat (cl_base c) + i < 2 ^ 64" using assms that by (simp add: clog_ok_def)
    then show ?thesis by (simp add: unat_word_ariths unat_u64_of_nat del: unat_of_nat)
  qed
  have "sorted_wrt (\<lambda>i j. cl_base c + word_of_nat i < cl_base c + word_of_nat j)
      (filter (bit_at (cl_words c)) [0..<length (cl_words c) * BITS])"
    by (rule sorted_wrt_mono_rel [of _ "(<)"]) (auto simp: sorted_wrt_filter word_less_nat_alt up)
  then show "sorted_wrt (<) (clog_ids c)"
    by (simp add: clog_ids_filter sorted_wrt_map)
  show "set (clog_ids c) = {xid \<in> clog_set c. cl_base c \<le> xid}"
  proof (intro set_eqI iffI)
    fix xid assume "xid \<in> set (clog_ids c)"
    then obtain i where i: "xid = cl_base c + word_of_nat i" "bit_at (cl_words c) i"
      by (auto simp: clog_ids_filter)
    have le: "cl_base c \<le> xid" using up [OF i(2)] by (simp add: i(1) word_le_nat_alt)
    then have "unat (xid - cl_base c) = i"
      unfolding unat_sub [OF le] using up [OF i(2)] by (simp add: i(1))
    with i(2) le show "xid \<in> {xid \<in> clog_set c. cl_base c \<le> xid}"
      by (simp add: clog_set_def)
  next
    fix xid assume "xid \<in> {xid \<in> clog_set c. cl_base c \<le> xid}"
    then have b: "bit_at (cl_words c) (unat (xid - cl_base c))" by (auto simp: clog_set_def)
    moreover from b have "unat (xid - cl_base c) < length (cl_words c) * BITS"
      by (simp add: bit_at_def div_less_iff_less_mult BITS_def)
    moreover have "xid = cl_base c + word_of_nat (unat (xid - cl_base c))" by simp
    ultimately show "xid \<in> set (clog_ids c)"
      by (simp only: clog_ids_filter set_map set_filter set_upt) (rule image_eqI, assumption, simp)
  qed
qed

lemma clog_set_bits_spec:
  assumes "clog_ok c" "\<forall>xid \<in> set xids. cl_base c \<le> xid" "c' = fold (\<lambda>xid c. clog_set_bit c xid) xids c"
  shows "clog_ok c' \<and> clog_set c' = clog_set c \<union> set xids \<and> cl_base c' = cl_base c"
  using assms
proof (induction xids arbitrary: c)
  case (Cons x xids)
  from Cons.IH [of "clog_set_bit c x"] Cons.prems clog_set_bit_spec [of c x] show ?case by simp
qed simp

lemma advance_base_spec:
  assumes "clog_ok c"
  shows "clog_ok (advance_base c b)" "cl_base (advance_base c b) = max (cl_base c) b"
    "clog_set (advance_base c b) = {xid. xid < b \<or> xid \<in> clog_set c}"
proof -
  let ?c0 = "\<lparr>cl_base = b, cl_words = []\<rparr>" and ?xs = "filter (\<lambda>xid. b \<le> xid) (clog_ids c)"
  have 0: "clog_ok ?c0" "clog_set ?c0 = {xid. xid < b}"
    by (simp_all add: clog_ok_def clog_set_def)
  note 1 = clog_set_bits_spec [OF 0(1), of ?xs, OF _ refl]
  have "clog_ok (advance_base c b) \<and> cl_base (advance_base c b) = max (cl_base c) b \<and>
    clog_set (advance_base c b) = {xid. xid < b \<or> xid \<in> clog_set c}"
  proof (cases "b \<le> cl_base c")
    case True
    then have "xid < b \<Longrightarrow> xid \<in> clog_set c" for xid by (auto simp: clog_set_def)
    with True assms show ?thesis by (auto simp: advance_base_def max_absorb1)
  next
    case False
    with 1 clog_ids_spec(2) [OF assms] 0(2) show ?thesis
      by (auto simp: advance_base_def not_le max_absorb2)
  qed
  then show "clog_ok (advance_base c b)" "cl_base (advance_base c b) = max (cl_base c) b"
    "clog_set (advance_base c b) = {xid. xid < b \<or> xid \<in> clog_set c}" by blast+
qed

subsection \<open>The contract\<close>

interpretation clog: commit_log clog_ok clog_new is_committed mark_committed advance_base
  by standard (auto simp: is_committed_set mark_committed_spec advance_base_spec)

definition clog_run :: "log_event list \<Rightarrow> clog" where
  "clog_run es = fold (\<lambda>e c. case e of Mark x \<Rightarrow> mark_committed c x | Advance b \<Rightarrow> advance_base c b) es clog_new"

lemma clog_run_spec:
  "clog_ok (clog_run es) \<and> clog_set (clog_run es) = {x. Mark x \<in> set es \<or> x < cl_base (clog_run es)}"
proof (induction es rule: rev_induct)
  case (snoc e es)
  then have ok: "clog_ok (clog_run es)" by blast
  from snoc mark_committed_spec [OF ok] advance_base_spec [OF ok] show ?case
    by (cases e) (auto simp: clog_run_def less_max_iff_disj)
qed (simp add: clog_run_def)

text \<open>
  C10: The commit log is a set of transaction ids. After any sequence of commits and horizon moves
  from the empty log, an id reads as committed exactly when it is not the sentinel 0 and was marked or lies
  below some horizon that was set; \<open>ids\<close> lists the marked ids at or above the horizon, each once and in
  ascending order; and marking under the exclusive lock after the bitmap was seen to be too short
  has the effect of marking in one step, in whatever state the log is by then.
\<close>

theorem clog_refines_set:
  "(\<forall>x. is_committed (clog_run es) x \<longleftrightarrow> x \<noteq> 0 \<and> (Mark x \<in> set es \<or> (\<exists>b. Advance b \<in> set es \<and> x < b))) \<and>
   sorted_wrt (<) (clog_ids (clog_run es)) \<and>
   set (clog_ids (clog_run es)) = {x. Mark x \<in> set es \<and> cl_base (clog_run es) \<le> x} \<and>
   (\<forall>c x. mark_exclusive c x = mark_committed c x)"
proof (intro conjI allI)
  note ok = conjunct1 [OF clog_run_spec [of es]]
  show "is_committed (clog_run es) x \<longleftrightarrow> x \<noteq> 0 \<and> (Mark x \<in> set es \<or> (\<exists>b. Advance b \<in> set es \<and> x < b))" for x
    using clog.committed_run [OF clog.ok_empty, of es x] by (simp add: clog_run_def clog.run_def clog.not_committed_empty)
  show "sorted_wrt (<) (clog_ids (clog_run es))"
    by (rule clog_ids_spec(1) [OF ok])
  show "set (clog_ids (clog_run es)) = {x. Mark x \<in> set es \<and> cl_base (clog_run es) \<le> x}"
    using clog_ids_spec(2) [OF ok] clog_run_spec [of es] by auto
  show "mark_exclusive c x = mark_committed c x" for c x
    by (rule mark_committed_exclusive [symmetric])
qed

end
