(* ===== verification/Ssi.thy ===== *)
theory Ssi
  imports Prelude
begin

section \<open>Serializable conflict tracking\<close>

text \<open>
  \<open>src/src/db/ssi.rs\<close>: rw-antidependencies between open transactions at table granularity, and the
  search for a cycle through a committing transaction. \<open>ssi\<close> is \<open>Inner\<close>; the mutex makes each
  method one step. A \<open>HashSet\<close> is a list whose order stands for the iteration order, a \<open>HashMap\<close> a
  map. The lemmas show that the search answers exactly whether a cycle exists, whatever the
  iteration order, that conflicts between open transactions are always in the graph, and
  that those with a transaction that already committed are not.
\<close>

record ssi =
  ss_active :: "u64 list"
  ss_readers :: "string \<rightharpoonup> u64 list"
  ss_writers :: "string \<rightharpoonup> u64 list"
  ss_out :: "u64 \<rightharpoonup> u64 list"

definition ssi_new :: ssi where
  "ssi_new = \<lparr>ss_active = [], ss_readers = Map.empty, ss_writers = Map.empty, ss_out = Map.empty\<rparr>"

definition ssi_begin :: "ssi \<Rightarrow> u64 \<Rightarrow> ssi" where
  "ssi_begin s i = s\<lparr>ss_active := hs_insert i (ss_active s)\<rparr>"

definition note_read :: "ssi \<Rightarrow> u64 \<Rightarrow> string \<Rightarrow> ssi" where
  "note_read s i table =
     (if i \<notin> set (ss_active s) then s
      else
        let s = s\<lparr>ss_readers := (ss_readers s)(table \<mapsto> hs_insert i (or_default (ss_readers s table)))\<rparr> in
        case ss_writers s table of
          None \<Rightarrow> s
        | Some writers \<Rightarrow>
            let edges = filter (\<lambda>w. w \<noteq> i) writers in
            if edges = [] then s
            else s\<lparr>ss_out := (ss_out s)(i \<mapsto> fold hs_insert edges (or_default (ss_out s i)))\<rparr>)"

definition add_edge :: "u64 \<Rightarrow> u64 \<Rightarrow> (u64 \<rightharpoonup> u64 list) \<Rightarrow> (u64 \<rightharpoonup> u64 list)" where
  "add_edge w r out = out(r \<mapsto> hs_insert w (or_default (out r)))"

definition note_write :: "ssi \<Rightarrow> u64 \<Rightarrow> string \<Rightarrow> ssi" where
  "note_write s i table =
     (if i \<notin> set (ss_active s) then s
      else
        let s = s\<lparr>ss_writers := (ss_writers s)(table \<mapsto> hs_insert i (or_default (ss_writers s table)))\<rparr> in
        case ss_readers s table of
          None \<Rightarrow> s
        | Some readers \<Rightarrow>
            let edges = filter (\<lambda>r. r \<noteq> i) readers in
            s\<lparr>ss_out := fold (add_edge i) edges (ss_out s)\<rparr>)"

text \<open>Removing an id from every set of a map and dropping the sets that became empty.\<close>

definition remove_retain :: "u64 \<Rightarrow> (string \<rightharpoonup> u64 list) \<Rightarrow> (string \<rightharpoonup> u64 list)" where
  "remove_retain i m = (\<lambda>t. case m t of None \<Rightarrow> None
     | Some xs \<Rightarrow> if hs_remove i xs = [] then None else Some (hs_remove i xs))"

definition forget :: "ssi \<Rightarrow> u64 \<Rightarrow> ssi" where
  "forget s i = s\<lparr>ss_active := hs_remove i (ss_active s),
     ss_readers := remove_retain i (ss_readers s), ss_writers := remove_retain i (ss_writers s)\<rparr>"

definition ssi_commit :: "ssi \<Rightarrow> u64 \<Rightarrow> ssi" where
  "ssi_commit s i =
     (let s = forget s i in if ss_active s = [] then s\<lparr>ss_out := Map.empty\<rparr> else s)"

definition remove_edges :: "u64 \<Rightarrow> (u64 \<rightharpoonup> u64 list) \<Rightarrow> (u64 \<rightharpoonup> u64 list)" where
  "remove_edges i out = (\<lambda>r. map_option (hs_remove i) ((out(i := None)) r))"

definition ssi_abort :: "ssi \<Rightarrow> u64 \<Rightarrow> ssi" where
  "ssi_abort s i =
     (let s = forget s i;
          s = s\<lparr>ss_out := remove_edges i (ss_out s)\<rparr>
      in if ss_active s = [] then s\<lparr>ss_out := Map.empty\<rparr> else s)"

text \<open>
  The search. \<open>push_nexts\<close> is the inner loop: \<open>None\<close> when it meets the start. The head of the
  list is the top of the stack.
\<close>

fun push_nexts :: "u64 \<Rightarrow> u64 list \<Rightarrow> u64 list \<Rightarrow> u64 list \<Rightarrow> (u64 list \<times> u64 list) option" where
  "push_nexts i [] stack seen = Some (stack, seen)"
| "push_nexts i (n # ns) stack seen =
     (if n = i then None
      else if n \<in> set seen then push_nexts i ns stack seen
      else push_nexts i ns (n # stack) (n # seen))"

lemma push_nexts_measure:
  "push_nexts i ns stack seen = Some (stack', seen') \<Longrightarrow>
   card (- set seen') + length stack' = card (- set seen) + length stack"
proof (induction i ns stack seen rule: push_nexts.induct)
  case (2 i n ns stack seen)
  have "card (- set seen) = Suc (card (- set (n # seen)))" if "n \<notin> set seen"
  proof -
    have "- set (n # seen) = - set seen - {n}" by auto
    then show ?thesis
      using card_Suc_Diff1 [of "- set seen" n] that by (simp only: finite Compl_iff not_False_eq_True)
  qed
  with 2 show ?case by (auto split: if_splits)
qed simp

function cycle_loop :: "(u64 \<rightharpoonup> u64 list) \<Rightarrow> u64 \<Rightarrow> u64 list \<Rightarrow> u64 list \<Rightarrow> bool" where
  "cycle_loop out i [] seen = False"
| "cycle_loop out i (cur # stack) seen =
     (case out cur of
        None \<Rightarrow> cycle_loop out i stack seen
      | Some nexts \<Rightarrow>
          (case push_nexts i nexts stack seen of
             None \<Rightarrow> True
           | Some (stack', seen') \<Rightarrow> cycle_loop out i stack' seen'))"
  by pat_completeness auto
termination
  by (relation "measure (\<lambda>(_, _, stack, seen). card (- set seen) + length stack)")
    (auto dest: push_nexts_measure)

definition has_cycle_through :: "ssi \<Rightarrow> u64 \<Rightarrow> bool" where
  "has_cycle_through s i = cycle_loop (ss_out s) i [i] []"

subsection \<open>The search is exact\<close>

definition edges :: "(u64 \<rightharpoonup> u64 list) \<Rightarrow> u64 rel" where
  "edges out = {(r, w). w \<in> set (or_default (out r))}"

lemma push_nexts_None: "push_nexts i ns stack seen = None \<longleftrightarrow> i \<in> set ns"
  by (induction i ns stack seen rule: push_nexts.induct) auto

lemma push_nexts_Some:
  "push_nexts i ns stack seen = Some (stack', seen') \<Longrightarrow>
   set seen' = set seen \<union> set ns \<and> set stack \<subseteq> set stack' \<and> set stack' \<subseteq> set stack \<union> set ns \<and> set seen' - set seen \<subseteq> set stack'"
  by (induction i ns stack seen rule: push_nexts.induct) (auto split: if_splits)

lemma cycle_loop_sound:
  assumes "cycle_loop out i stack seen" "set stack \<subseteq> (edges out)\<^sup>* `` {i}"
  shows "(i, i) \<in> (edges out)\<^sup>+"
  using assms
proof (induction out i stack seen rule: cycle_loop.induct)
  case (2 out i cur stack seen)
  show ?case
  proof (cases "out cur")
    case (Some nexts)
    then have nexts: "\<forall>n \<in> set nexts. (cur, n) \<in> edges out" by (simp add: edges_def or_default_def)
    from 2(4) have cur: "(i, cur) \<in> (edges out)\<^sup>*" by simp
    show ?thesis
    proof (cases "push_nexts i nexts stack seen")
      case None
      with nexts cur show ?thesis by (auto simp: push_nexts_None intro: rtrancl_into_trancl1)
    next
      case (Some p)
      obtain stack' seen' where p: "p = (stack', seen')" by force
      have "set nexts \<subseteq> (edges out)\<^sup>* `` {i}"
        using nexts cur by (auto intro: rtrancl_into_rtrancl)
      then have "set stack' \<subseteq> (edges out)\<^sup>* `` {i}"
        using push_nexts_Some [OF Some [unfolded p]] 2(4) by auto
      with 2(2,3) Some p \<open>out cur = Some nexts\<close> show ?thesis by simp
    qed
  qed (use 2 in simp)
qed simp

lemma cycle_loop_complete:
  assumes "\<not> cycle_loop out i stack seen"
    and "\<forall>x \<in> insert i (set seen). x \<in> set stack \<or> (\<forall>y. (x, y) \<in> edges out \<longrightarrow> y \<noteq> i \<and> y \<in> set seen)"
  shows "\<exists>S. i \<in> S \<and> (\<forall>x \<in> S. \<forall>y. (x, y) \<in> edges out \<longrightarrow> y \<in> S \<and> y \<noteq> i)"
  using assms
proof (induction out i stack seen rule: cycle_loop.induct)
  case (1 out i seen)
  then show ?case by (intro exI [of _ "insert i (set seen)"]) auto
next
  case (2 out i cur stack seen)
  show ?case
  proof (cases "out cur")
    case None
    then have "\<forall>y. (cur, y) \<notin> edges out" by (simp add: edges_def or_default_def)
    with 2(4) have "\<forall>x \<in> insert i (set seen). x \<in> set stack \<or> (\<forall>y. (x, y) \<in> edges out \<longrightarrow> y \<noteq> i \<and> y \<in> set seen)"
      by auto
    with 2(1,3) None show ?thesis by simp
  next
    case (Some nexts)
    with 2(3) obtain stack' seen' where p: "push_nexts i nexts stack seen = Some (stack', seen')"
      by (auto split: option.splits)
    then have i: "i \<notin> set nexts" using push_nexts_None [of i nexts stack seen] by auto
    have cur: "y \<in> set nexts" if "(cur, y) \<in> edges out" for y
      using that Some by (simp add: edges_def or_default_def)
    have "\<forall>x \<in> insert i (set seen'). x \<in> set stack' \<or> (\<forall>y. (x, y) \<in> edges out \<longrightarrow> y \<noteq> i \<and> y \<in> set seen')"
    proof
      fix x assume x: "x \<in> insert i (set seen')"
      note pn = push_nexts_Some [OF p]
      show "x \<in> set stack' \<or> (\<forall>y. (x, y) \<in> edges out \<longrightarrow> y \<noteq> i \<and> y \<in> set seen')"
      proof (cases "x \<in> set stack' \<or> x = cur")
        case True
        with cur i pn show ?thesis by blast
      next
        case False
        with x pn have "x \<in> insert i (set seen)" "x \<notin> set (cur # stack)" by auto
        with 2(4) pn show ?thesis by blast
      qed
    qed
    with 2(2) 2(3) Some p show ?thesis by simp
  qed
qed

lemma has_cycle_iff: "has_cycle_through s i \<longleftrightarrow> (i, i) \<in> (edges (ss_out s))\<^sup>+"
proof
  show "(i, i) \<in> (edges (ss_out s))\<^sup>+" if "has_cycle_through s i"
    using cycle_loop_sound [of "ss_out s" i "[i]" "[]"] that by (simp add: has_cycle_through_def)
  show "has_cycle_through s i" if "(i, i) \<in> (edges (ss_out s))\<^sup>+"
  proof (rule ccontr)
    assume "\<not> has_cycle_through s i"
    then obtain S where S: "i \<in> S" "\<And>x y. x \<in> S \<Longrightarrow> (x, y) \<in> edges (ss_out s) \<Longrightarrow> y \<in> S \<and> y \<noteq> i"
      using cycle_loop_complete [of "ss_out s" i "[i]" "[]"] by (auto simp: has_cycle_through_def)
    have "y \<in> S \<and> y \<noteq> i" if "(i, y) \<in> (edges (ss_out s))\<^sup>+" for y
      using that by induction (use S in auto)
    with that show False by blast
  qed
qed

text \<open>
  C14: The commit-time check is exact: \<open>has_cycle_through\<close> returns true if and only if the transaction
  reaches itself along one or more rw-antidependency edges. It always terminates, and the answer
  does not depend on the iteration order of the hash sets.
\<close>

theorem ssi_cycle_check_exact: "has_cycle_through s i \<longleftrightarrow> (i, i) \<in> (edges (ss_out s))\<^sup>+"
  by (rule has_cycle_iff)

subsection \<open>What the graph holds\<close>

datatype ssi_event = SBegin u64 | SRead u64 string | SWrite u64 string | SCommit u64 | SAbort u64

fun ssi_step :: "ssi_event \<Rightarrow> ssi \<Rightarrow> ssi" where
  "ssi_step (SBegin i) s = ssi_begin s i"
| "ssi_step (SRead i t) s = note_read s i t"
| "ssi_step (SWrite i t) s = note_write s i t"
| "ssi_step (SCommit i) s = ssi_commit s i"
| "ssi_step (SAbort i) s = ssi_abort s i"

definition ssi_run :: "ssi_event list \<Rightarrow> ssi" where
  "ssi_run es = fold ssi_step es ssi_new"

definition reads :: "ssi \<Rightarrow> u64 \<Rightarrow> string \<Rightarrow> bool" where
  "reads s i t \<longleftrightarrow> i \<in> set (or_default (ss_readers s t))"

definition writes :: "ssi \<Rightarrow> u64 \<Rightarrow> string \<Rightarrow> bool" where
  "writes s i t \<longleftrightarrow> i \<in> set (or_default (ss_writers s t))"

definition ssi_inv :: "ssi \<Rightarrow> bool" where
  "ssi_inv s \<longleftrightarrow> (\<forall>i t. reads s i t \<or> writes s i t \<longrightarrow> i \<in> set (ss_active s)) \<and>
     (\<forall>r w t. reads s r t \<and> writes s w t \<and> r \<noteq> w \<longrightarrow> (r, w) \<in> edges (ss_out s)) \<and>
     (ss_active s = [] \<longrightarrow> edges (ss_out s) = {})"

lemma edges_fold_writers:
  "edges (fold (add_edge i) rs out) = edges out \<union> set rs \<times> {i}"
proof (induction rs arbitrary: out)
  case (Cons r rs)
  have "edges (add_edge i r out) = edges out \<union> {(r, i)}"
    by (auto simp: edges_def add_edge_def split: if_splits)
  with Cons show ?case by auto
qed simp

lemma note_read_fields:
  assumes "i \<in> set (ss_active s)"
  shows "ss_active (note_read s i t) = ss_active s" "writes (note_read s i t) = writes s"
    "reads (note_read s i t) j u \<longleftrightarrow> reads s j u \<or> j = i \<and> u = t"
    "edges (ss_out (note_read s i t)) = edges (ss_out s) \<union> {(i, w) | w. writes s w t \<and> w \<noteq> i}"
proof -
  have e: "edges ((ss_out s)(i \<mapsto> fold hs_insert ws (or_default (ss_out s i)))) = edges (ss_out s) \<union> {i} \<times> set ws" for ws
    by (auto simp: edges_def split: if_splits)
  show "ss_active (note_read s i t) = ss_active s" "writes (note_read s i t) = writes s"
    "reads (note_read s i t) j u \<longleftrightarrow> reads s j u \<or> j = i \<and> u = t"
    using assms by (auto simp: note_read_def Let_def writes_def reads_def fun_eq_iff split: option.split)
  show "edges (ss_out (note_read s i t)) = edges (ss_out s) \<union> {(i, w) | w. writes s w t \<and> w \<noteq> i}"
    using assms e by (auto simp: note_read_def Let_def writes_def filter_empty_conv split: option.split)
qed

lemma note_write_fields:
  assumes "i \<in> set (ss_active s)"
  shows "ss_active (note_write s i t) = ss_active s" "reads (note_write s i t) = reads s"
    "writes (note_write s i t) j u \<longleftrightarrow> writes s j u \<or> j = i \<and> u = t"
    "edges (ss_out (note_write s i t)) = edges (ss_out s) \<union> {(r, i) | r. reads s r t \<and> r \<noteq> i}"
  using assms
  by (auto simp: note_write_def Let_def writes_def reads_def fun_eq_iff edges_fold_writers split: option.split)

lemma or_default_remove_retain: "or_default (remove_retain i m t) = hs_remove i (or_default (m t))"
  by (auto simp: remove_retain_def hs_remove_def split: option.split)

lemma forget_fields:
  "set (ss_active (forget s i)) = set (ss_active s) - {i}" "ss_out (forget s i) = ss_out s"
  "reads (forget s i) j t \<longleftrightarrow> reads s j t \<and> j \<noteq> i" "writes (forget s i) j t \<longleftrightarrow> writes s j t \<and> j \<noteq> i"
  by (auto simp: forget_def reads_def writes_def or_default_remove_retain)

lemma edges_remove:
  "edges (remove_edges i out) = {(a, b) \<in> edges out. a \<noteq> i \<and> b \<noteq> i}"
proof -
  have "or_default (map_option (hs_remove i) v) = hs_remove i (or_default v)" for v
    by (cases v) (simp_all add: hs_remove_def)
  then show ?thesis by (auto simp: edges_def remove_edges_def split: if_splits)
qed

lemma edges_empty [simp]: "edges Map.empty = {}"
  by (simp add: edges_def)

lemma reads_out [simp]: "reads (s\<lparr>ss_out := out\<rparr>) = reads s" "writes (s\<lparr>ss_out := out\<rparr>) = writes s"
  by (simp_all add: reads_def writes_def fun_eq_iff)

lemma ssi_inv_step:
  assumes "ssi_inv s"
  shows "ssi_inv (ssi_step e s)"
proof (cases e)
  case (SBegin i)
  then show ?thesis using assms by (auto simp: ssi_begin_def ssi_inv_def reads_def writes_def hs_insert_def)
next
  case (SRead i t)
  show ?thesis
  proof (cases "i \<in> set (ss_active s)")
    case True
    with assms show ?thesis
      unfolding SRead ssi_step.simps ssi_inv_def note_read_fields [OF True] by force
  qed (use assms in \<open>simp add: SRead note_read_def\<close>)
next
  case (SWrite i t)
  show ?thesis
  proof (cases "i \<in> set (ss_active s)")
    case True
    with assms show ?thesis
      unfolding SWrite ssi_step.simps ssi_inv_def note_write_fields [OF True] by force
  qed (use assms in \<open>simp add: SWrite note_write_def\<close>)
next
  case (SCommit i)
  have "ssi_inv (forget s i)" if "ss_active (forget s i) \<noteq> []"
    using assms that unfolding ssi_inv_def forget_fields by blast
  moreover have "ssi_inv ((forget s i)\<lparr>ss_out := Map.empty\<rparr>)" if "ss_active (forget s i) = []"
    using assms forget_fields(1) [of s i] that by (auto simp: ssi_inv_def forget_fields)
  ultimately show ?thesis by (simp add: SCommit ssi_commit_def Let_def)
next
  case (SAbort i)
  let ?s = "(forget s i)\<lparr>ss_out := remove_edges i (ss_out (forget s i))\<rparr>"
  have "ssi_inv ?s" if "ss_active (forget s i) \<noteq> []"
    using assms that by (simp add: ssi_inv_def forget_fields edges_remove) blast
  moreover have "ssi_inv (?s\<lparr>ss_out := Map.empty\<rparr>)" if "ss_active (forget s i) = []"
    using assms forget_fields(1) [of s i] that by (auto simp: ssi_inv_def forget_fields)
  ultimately show ?thesis by (simp add: SAbort ssi_abort_def Let_def)
qed

lemma ssi_inv_run: "ssi_inv (ssi_run es)"
proof -
  have "ssi_inv s \<Longrightarrow> ssi_inv (fold ssi_step es s)" for s
    by (induction es arbitrary: s) (auto simp: ssi_inv_step)
  moreover have "ssi_inv ssi_new" by (simp add: ssi_inv_def ssi_new_def reads_def writes_def)
  ultimately show ?thesis by (simp add: ssi_run_def)
qed

text \<open>No set is left empty, and nothing of the graph is left when no transaction is open.\<close>

definition ssi_clean :: "ssi \<Rightarrow> bool" where
  "ssi_clean s \<longleftrightarrow> (\<forall>t. ss_readers s t \<noteq> Some [] \<and> ss_writers s t \<noteq> Some []) \<and> (ss_active s = [] \<longrightarrow> ss_out s = Map.empty)"

lemma hs_insert_nonempty [simp]: "hs_insert x xs \<noteq> []"
  by (auto simp: hs_insert_def)

lemma remove_retain_nonempty [simp]: "remove_retain i m t \<noteq> Some []"
  by (simp add: remove_retain_def split: option.split)

lemma ssi_clean_step: "ssi_clean s \<Longrightarrow> ssi_clean (ssi_step e s)"
  by (cases e)
    (auto simp: ssi_clean_def ssi_begin_def note_read_def note_write_def ssi_commit_def ssi_abort_def forget_def Let_def split: option.split)

lemma ssi_clean_run: "ssi_clean (ssi_run es)"
proof -
  have "ssi_clean s \<Longrightarrow> ssi_clean (fold ssi_step es s)" for s by (induction es arbitrary: s) (simp_all add: ssi_clean_step)
  then show ?thesis by (simp add: ssi_run_def ssi_clean_def ssi_new_def)
qed

lemma ssi_run_quiescent:
  assumes "ss_active (ssi_run es) = []"
  shows "ssi_run es = ssi_new"
proof -
  note inv = ssi_inv_run [of es, unfolded ssi_inv_def] and clean = ssi_clean_run [of es, unfolded ssi_clean_def]
  have "\<not> reads (ssi_run es) i t" "\<not> writes (ssi_run es) i t" for i t using inv assms by auto
  then have "or_default (ss_readers (ssi_run es) t) = []" "or_default (ss_writers (ssi_run es) t) = []" for t
    unfolding reads_def writes_def by (metis list.set_intros(1) neq_Nil_conv)+
  then have "ss_readers (ssi_run es) t = None" "ss_writers (ssi_run es) t = None" for t
    using clean by (metis or_default_simps(2) option.exhaust)+
  then have "ss_readers (ssi_run es) = Map.empty" "ss_writers (ssi_run es) = Map.empty" by auto
  with assms clean show ?thesis by (simp add: ssi_new_def)
qed

lemma ssi_run_append: "ssi_run (es @ fs) = fold ssi_step fs (ssi_run es)"
  by (simp add: ssi_run_def)

text \<open>Once a transaction is over it gets no further edge.\<close>

lemma inactive_step:
  assumes "ssi_inv s" "i \<notin> set (ss_active s)" "e \<noteq> SBegin i"
  shows "i \<notin> set (ss_active (ssi_step e s))" "(i, j) \<in> edges (ss_out (ssi_step e s)) \<Longrightarrow> (i, j) \<in> edges (ss_out s)"
proof -
  have tracked: "reads s k t \<Longrightarrow> k \<noteq> i" "writes s k t \<Longrightarrow> k \<noteq> i" for k t using assms(1,2) by (auto simp: ssi_inv_def)
  have "i \<notin> set (ss_active (ssi_step e s)) \<and> ((i, j) \<in> edges (ss_out (ssi_step e s)) \<longrightarrow> (i, j) \<in> edges (ss_out s))"
  proof (cases e)
    case (SRead k t)
    have "note_read s k t = s" if "k \<notin> set (ss_active s)" using that by (simp add: note_read_def)
    with SRead assms tracked show ?thesis by (cases "k \<in> set (ss_active s)") (auto simp: note_read_fields)
  next
    case (SWrite k t)
    have "note_write s k t = s" if "k \<notin> set (ss_active s)" using that by (simp add: note_write_def)
    with SWrite assms tracked show ?thesis by (cases "k \<in> set (ss_active s)") (auto simp: note_write_fields)
  qed (use assms in \<open>auto simp: ssi_begin_def ssi_commit_def ssi_abort_def Let_def forget_fields edges_remove hs_insert_def\<close>)
  then show "i \<notin> set (ss_active (ssi_step e s))" "(i, j) \<in> edges (ss_out (ssi_step e s)) \<Longrightarrow> (i, j) \<in> edges (ss_out s)" by blast+
qed

lemma inactive_run:
  assumes "ssi_inv s" "i \<notin> set (ss_active s)" "SBegin i \<notin> set fs"
  shows "(i, j) \<in> edges (ss_out (fold ssi_step fs s)) \<Longrightarrow> (i, j) \<in> edges (ss_out s)"
  using assms
proof (induction fs arbitrary: s)
  case (Cons e fs)
  have e: "e \<noteq> SBegin i" using Cons.prems(4) by auto
  from Cons.IH [of "ssi_step e s"] Cons.prems inactive_step [OF Cons.prems(2,3) e] ssi_inv_step [OF Cons.prems(2)] show ?case by simp
qed simp

text \<open>
  C15: Write skew between open transactions is always caught. After any history of begins, reads,
  writes, commits and aborts, if two transactions each read a table that the other wrote
  and both are still tracked, the check fails for both of them.
\<close>

theorem ssi_detects_open_write_skew:
  assumes "a \<noteq> b" "reads (ssi_run es) a t" "writes (ssi_run es) b t" "reads (ssi_run es) b u" "writes (ssi_run es) a u"
  shows "has_cycle_through (ssi_run es) a \<and> has_cycle_through (ssi_run es) b"
proof -
  have "(a, b) \<in> edges (ss_out (ssi_run es))" "(b, a) \<in> edges (ss_out (ssi_run es))"
    using assms ssi_inv_run [of es] unfolding ssi_inv_def by blast+
  then show ?thesis by (auto simp: has_cycle_iff intro: trancl_trans)
qed

theorem ssi_detects_open_write_skew_witness:
  "has_cycle_through (ssi_run [SBegin 1, SBegin 2, SRead 1 ''t'', SRead 2 ''t'', SWrite 1 ''t'', SWrite 2 ''t'']) 1"
  by (rule conjunct1, rule ssi_detects_open_write_skew [of 1 2 _ "''t''" "''t''"]) code_simp+

text \<open>
  C16: What the tracker keeps. After any history, only open transactions are tracked as readers and
  writers; while a transaction is open its reads and writes are recorded and stay recorded under every event that
  does not end it; an abort removes every edge at the transaction; and when no transaction is open
  nothing is left: the graph, the readers and the writers are empty, as in a new tracker.
\<close>

theorem ssi_tracking:
  assumes "s = ssi_run es"
  shows "(\<forall>i t. reads s i t \<or> writes s i t \<longrightarrow> i \<in> set (ss_active s)) \<and>
    (\<forall>i t. i \<in> set (ss_active s) \<longrightarrow> reads (note_read s i t) i t \<and> writes (note_write s i t) i t) \<and>
    (\<forall>i t e. e \<noteq> SCommit i \<and> e \<noteq> SAbort i \<longrightarrow> (reads s i t \<longrightarrow> reads (ssi_step e s) i t) \<and> (writes s i t \<longrightarrow> writes (ssi_step e s) i t)) \<and>
    (\<forall>i j. (i, j) \<notin> edges (ss_out (ssi_abort s i)) \<and> (j, i) \<notin> edges (ss_out (ssi_abort s i))) \<and>
    (ss_active s = [] \<longrightarrow> s = ssi_new)"
proof (intro conjI allI impI)
  note inv = ssi_inv_run [of es, folded assms, unfolded ssi_inv_def]
  show "i \<in> set (ss_active s)" if "reads s i t \<or> writes s i t" for i t using inv that by blast
  show "reads (note_read s i t) i t" "writes (note_write s i t) i t" if "i \<in> set (ss_active s)" for i t
    using that by (simp_all add: note_read_fields note_write_fields)
  have keep: "(reads s i t \<longrightarrow> reads (ssi_step e s) i t) \<and> (writes s i t \<longrightarrow> writes (ssi_step e s) i t)"
    if "e \<noteq> SCommit i" "e \<noteq> SAbort i" for i t e
  proof (cases e)
    case (SRead j u)
    have "note_read s j u = s" if "j \<notin> set (ss_active s)" using that by (simp add: note_read_def)
    then show ?thesis using SRead by (cases "j \<in> set (ss_active s)") (simp_all add: note_read_fields)
  next
    case (SWrite j u)
    have "note_write s j u = s" if "j \<notin> set (ss_active s)" using that by (simp add: note_write_def)
    then show ?thesis using SWrite by (cases "j \<in> set (ss_active s)") (simp_all add: note_write_fields)
  qed (use that in \<open>auto simp: ssi_begin_def ssi_commit_def ssi_abort_def Let_def forget_fields reads_def writes_def
        or_default_remove_retain forget_def\<close>)
  show "reads (ssi_step e s) i t" if "e \<noteq> SCommit i \<and> e \<noteq> SAbort i" "reads s i t" for i t e using keep that by blast
  show "writes (ssi_step e s) i t" if "e \<noteq> SCommit i \<and> e \<noteq> SAbort i" "writes s i t" for i t e using keep that by blast
  show "(i, j) \<notin> edges (ss_out (ssi_abort s i))" "(j, i) \<notin> edges (ss_out (ssi_abort s i))" for i j
    by (auto simp: ssi_abort_def Let_def edges_remove)
  show "s = ssi_new" if "ss_active s = []"
    using ssi_run_quiescent [of es] that assms by simp
qed

theorem ssi_tracking_witness:
  "(1, 2) \<in> edges (ss_out (ssi_run [SBegin 1, SBegin 2, SRead 1 ''t'', SWrite 2 ''t'', SCommit 1])) \<and>
   ssi_run [SBegin 1, SBegin 2, SRead 1 ''t'', SWrite 2 ''t'', SCommit 1, SCommit 2] = ssi_new"
proof -
  let ?es = "[SBegin 1, SBegin 2, SRead 1 ''t'', SWrite 2 ''t'', SCommit 1]"
  have "2 \<in> set (or_default (ss_out (ssi_run ?es) 1))" by code_simp
  moreover have "ss_active (ssi_run (?es @ [SCommit 2])) = []" by code_simp
  with ssi_tracking [OF refl, of "?es @ [SCommit 2]"] have "ssi_run (?es @ [SCommit 2]) = ssi_new" by blast
  ultimately show ?thesis by (simp add: edges_def)
qed

text \<open>Two transactions side by side: \<open>i\<close> reads \<open>a\<close> and writes \<open>b\<close>, \<open>j\<close> reads \<open>b\<close>; what is missing for a write skew is that \<open>j\<close> writes \<open>a\<close>.\<close>

definition skew :: "u64 \<Rightarrow> u64 \<Rightarrow> string \<Rightarrow> string \<Rightarrow> ssi_event list" where
  "skew i j a b = [SBegin i, SBegin j, SRead i a, SRead j b, SWrite i b]"

text \<open>
  C17: A committed transaction's reads are forgotten at commit, so an antidependency that arises after it is missed. In
  general, after a transaction has committed it never gets another outgoing edge, whatever is written later to the tables it read.
  Hence the write skew of any two transactions over any two tables, started when no other is open, is missed when the first
  commits before the second writes: neither check finds it. With the write before the commit both checks do.
\<close>

theorem ssi_misses_skew_after_commit:
  assumes "i \<noteq> j" "a \<noteq> b" "ss_active (ssi_run es) = []"
  shows "(\<forall>hs fs k. (i, k) \<notin> edges (ss_out (ssi_run hs)) \<and> SBegin i \<notin> set fs \<longrightarrow>
      (i, k) \<notin> edges (ss_out (ssi_run (hs @ SCommit i # fs)))) \<and>
    \<not> has_cycle_through (ssi_run (es @ skew i j a b)) i \<and>
    \<not> has_cycle_through (ssi_run (es @ skew i j a b @ [SCommit i, SWrite j a])) j \<and>
    has_cycle_through (ssi_run (es @ skew i j a b @ [SWrite j a])) i \<and>
    has_cycle_through (ssi_run (es @ skew i j a b @ [SWrite j a])) j"
proof (intro conjI allI impI)
  have "(i, k) \<notin> edges (ss_out (ssi_run (hs @ SCommit i # fs)))" if "(i, k) \<notin> edges (ss_out (ssi_run hs))" "SBegin i \<notin> set fs" for hs fs k
  proof -
    let ?s = "ssi_step (SCommit i) (ssi_run hs)"
    have "i \<notin> set (ss_active ?s)" "(i, k) \<notin> edges (ss_out ?s)" using that(1) by (auto simp: ssi_commit_def Let_def forget_fields)
    with inactive_run [OF ssi_inv_step [OF ssi_inv_run], of i "SCommit i" hs fs k] that(2) show ?thesis by (auto simp: ssi_run_append)
  qed
  then show "(i, k) \<notin> edges (ss_out (ssi_run (hs @ SCommit i # fs)))"
    if "(i, k) \<notin> edges (ss_out (ssi_run hs)) \<and> SBegin i \<notin> set fs" for hs fs k using that by blast
  have start: "ssi_run (es @ fs) = fold ssi_step fs ssi_new" for fs by (simp add: ssi_run_append ssi_run_quiescent [OF assms(3)])
  note eval = start skew_def ssi_new_def ssi_begin_def note_read_def note_write_def ssi_commit_def forget_def remove_retain_def
    add_edge_def hs_insert_def hs_remove_def Let_def
  have e: "edges (ss_out (ssi_run (es @ skew i j a b))) = {(j, i)}"
      "edges (ss_out (ssi_run (es @ skew i j a b @ [SCommit i, SWrite j a]))) = {(j, i)}"
      "edges (ss_out (ssi_run (es @ skew i j a b @ [SWrite j a]))) = {(j, i), (i, j)}"
    using assms(1,2) by (auto simp: eval edges_def split: if_splits)
  have one: "(k, k) \<notin> {(j, i)}\<^sup>+" for k using assms(1) by (auto elim: tranclE dest: tranclD)
  show "\<not> has_cycle_through (ssi_run (es @ skew i j a b)) i" "\<not> has_cycle_through (ssi_run (es @ skew i j a b @ [SCommit i, SWrite j a])) j"
    unfolding has_cycle_iff e using one by blast+
  have "(i, i) \<in> {(j, i), (i, j)}\<^sup>+" "(j, j) \<in> {(j, i), (i, j)}\<^sup>+" by (auto intro: trancl_into_trancl)
  then show "has_cycle_through (ssi_run (es @ skew i j a b @ [SWrite j a])) i" "has_cycle_through (ssi_run (es @ skew i j a b @ [SWrite j a])) j"
    unfolding has_cycle_iff e by blast+
qed

theorem ssi_misses_skew_after_commit_witness:
  "\<not> has_cycle_through (ssi_run ([SBegin 9, SRead 9 ''a'', SCommit 9] @ skew 1 2 ''a'' ''b'' @ [SCommit 1, SWrite 2 ''a''])) 2"
proof -
  have "ss_active (ssi_run [SBegin 9, SRead 9 ''a'', SCommit 9]) = []" by code_simp
  from ssi_misses_skew_after_commit [OF _ _ this, of 1 2 "''a''" "''b''"] show ?thesis by simp
qed

end
