(* ===== verification/Value.thy ===== *)
theory Value
  imports Prelude
begin

section \<open>Values\<close>

text \<open>
  \<open>Value\<close> of \<open>src/src/sql/value.rs\<close>. Signed integers are words read with \<open>sint\<close>; a float is its bit
  pattern, and the operations on floats are parameters where they are used; a \<open>String\<close> is the list of its UTF-8
  bytes.
\<close>

type_synonym i64 = "64 word"
type_synonym i32 = "32 word"
type_synonym f64 = "64 word"
type_synonym rust_string = "byte list"

datatype sql_value =
    VNull
  | VBool bool
  | VInt i64
  | VFloat f64
  | VStr rust_string
  | VDate i32

text \<open>
  Literals of the source as byte strings, and byte strings inside error messages. The two are inverse on bytes.
\<close>

definition bytes_of :: "string \<Rightarrow> rust_string" where
  "bytes_of s = map (\<lambda>c. word_of_nat (of_char c)) s"

definition text_of :: "rust_string \<Rightarrow> string" where
  "text_of b = map (\<lambda>x. char_of (unat x)) b"

lemma text_of_bytes_of [simp]: "text_of (bytes_of s) = s"
proof -
  have "char_of (unat (word_of_nat (of_char c) :: byte)) = c" for c :: char
    using nat_of_char_less_256 [of c] by (simp add: unat_of_nat take_bit_nat_eq_self)
  then show ?thesis by (simp add: text_of_def bytes_of_def comp_def map_idI)
qed

subsection \<open>UTF-8\<close>

text \<open>
  \<open>utf8_decode\<close> gives the \<open>chars()\<close> of a byte string, \<open>None\<close> where \<open>String::from_utf8\<close> fails: no overlong
  forms, no surrogates, nothing beyond \<open>U+10FFFF\<close>.
\<close>

definition cont_byte :: "byte \<Rightarrow> bool" where
  "cont_byte b = (0x80 \<le> b \<and> b \<le> 0xBF)"

definition low6 :: "byte \<Rightarrow> nat" where
  "low6 b = unat b mod 64"

fun utf8_decode :: "byte list \<Rightarrow> nat list option" where
  "utf8_decode [] = Some []"
| "utf8_decode (b # bs) =
     (if b < 0x80 then map_option ((#) (unat b)) (utf8_decode bs)
      else if 0xC2 \<le> b \<and> b \<le> 0xDF then
        (case bs of
           c1 # r \<Rightarrow> if cont_byte c1 then map_option ((#) (unat b mod 32 * 64 + low6 c1)) (utf8_decode r) else None
         | _ \<Rightarrow> None)
      else if 0xE0 \<le> b \<and> b \<le> 0xEF then
        (case bs of
           c1 # c2 # r \<Rightarrow>
             if cont_byte c1 \<and> cont_byte c2 \<and> (b = 0xE0 \<longrightarrow> 0xA0 \<le> c1) \<and> (b = 0xED \<longrightarrow> c1 \<le> 0x9F)
             then map_option ((#) ((unat b mod 16 * 64 + low6 c1) * 64 + low6 c2)) (utf8_decode r) else None
         | _ \<Rightarrow> None)
      else if 0xF0 \<le> b \<and> b \<le> 0xF4 then
        (case bs of
           c1 # c2 # c3 # r \<Rightarrow>
             if cont_byte c1 \<and> cont_byte c2 \<and> cont_byte c3 \<and> (b = 0xF0 \<longrightarrow> 0x90 \<le> c1) \<and> (b = 0xF4 \<longrightarrow> c1 \<le> 0x8F)
             then map_option ((#) (((unat b mod 8 * 64 + low6 c1) * 64 + low6 c2) * 64 + low6 c3)) (utf8_decode r) else None
         | _ \<Rightarrow> None)
      else None)"

definition utf8_valid :: "byte list \<Rightarrow> bool" where
  "utf8_valid bs = (utf8_decode bs \<noteq> None)"

lemma utf8_valid_ascii: "\<forall>b \<in> set bs. b < 0x80 \<Longrightarrow> utf8_valid bs \<and> utf8_decode bs = Some (map unat bs)"
  by (induction bs) (auto simp: utf8_valid_def)

text \<open>
  The characters of a string, each kept as its UTF-8 bytes: a leading byte and the continuation bytes after
  it. On valid UTF-8 these are the \<open>chars()\<close>.
\<close>

type_synonym rust_char = "byte list"

function chars :: "rust_string \<Rightarrow> rust_char list" where
  "chars [] = []"
| "chars (b # bs) = (b # takeWhile cont_byte bs) # chars (dropWhile cont_byte bs)"
  by pat_completeness auto
termination
  by (relation "measure length") (auto simp: less_Suc_eq_le length_dropWhile_le)

lemma concat_chars [simp]: "concat (chars s) = s"
  by (induction s rule: chars.induct) auto

lemma chars_nonempty: "c \<in> set (chars s) \<Longrightarrow> c \<noteq> []"
  by (induction s rule: chars.induct) auto

subsection \<open>Comparing values\<close>

datatype ordering = Less | Equal | Greater

text \<open>
  IEEE comparison read off the bit pattern: the magnitude with its sign, under which the two zeros are equal;
  a NaN has a magnitude beyond infinity and is unordered.
\<close>

unbundle bit_operations_syntax

definition f64_magnitude :: "f64 \<Rightarrow> nat" where
  "f64_magnitude x = unat (take_bit 63 x)"

definition f64_is_nan :: "f64 \<Rightarrow> bool" where
  "f64_is_nan x = (0x7FF0000000000000 < f64_magnitude x)"

definition f64_key :: "f64 \<Rightarrow> int" where
  "f64_key x = (if bit x 63 then - int (f64_magnitude x) else int (f64_magnitude x))"

definition cmp_by :: "('a \<Rightarrow> 'b :: linorder) \<Rightarrow> 'a \<Rightarrow> 'a \<Rightarrow> ordering" where
  "cmp_by f a b = (if f a < f b then Less else if f a = f b then Equal else Greater)"

definition f64_partial_cmp :: "f64 \<Rightarrow> f64 \<Rightarrow> ordering option" where
  "f64_partial_cmp a b = (if f64_is_nan a \<or> f64_is_nan b then None else Some (cmp_by f64_key a b))"

definition f64_eq :: "f64 \<Rightarrow> f64 \<Rightarrow> bool" where
  "f64_eq a b = (\<not> f64_is_nan a \<and> \<not> f64_is_nan b \<and> f64_key a = f64_key b)"

text \<open>\<open>PartialEq\<close> of values: derived, with the float equality above.\<close>

fun value_eq :: "sql_value \<Rightarrow> sql_value \<Rightarrow> bool" where
  "value_eq (VFloat a) (VFloat b) = f64_eq a b"
| "value_eq v w = (v = w)"

definition f64_neg :: "f64 \<Rightarrow> f64" where
  "f64_neg x = flip_bit 63 x"

lemma f64_magnitude_mod: "f64_magnitude x = unat x mod 2 ^ 63"
  by (simp add: f64_magnitude_def take_bit_eq_mod unat_mod_distrib)

lemma f64_magnitude_bound: "f64_magnitude x < 2 ^ 63"
  by (simp add: f64_magnitude_mod)

lemma f64_sign: "bit x 63 \<longleftrightarrow> 2 ^ 63 \<le> unat (x :: f64)"
proof -
  have "bit x 63 \<longleftrightarrow> odd (unat x div 2 ^ 63)"
    using bit_unsigned_iff [of x 63, where ?'a = nat] bit_iff_odd [of "unat x" 63] by (simp only: possible_bit_nat simp_thms)
  moreover have "unat x div 2 ^ 63 < 2" using unat_u64_bound [of x] by simp
  then have "odd (unat x div 2 ^ 63) \<longleftrightarrow> unat x div 2 ^ 63 = 1"
    by (cases "unat x div 2 ^ 63") auto
  moreover have "unat x div 2 ^ 63 = 1 \<longleftrightarrow> 2 ^ 63 \<le> unat x"
    using unat_u64_bound [of x] by simp linarith
  ultimately show ?thesis by simp
qed

lemma unat_f64: "unat x = (if bit x 63 then 2 ^ 63 else 0) + f64_magnitude x"
  using unat_u64_bound [of x] by (auto simp: f64_sign f64_magnitude_mod le_mod_geq)

lemma f64_key_eq: "f64_key x = f64_key y \<longleftrightarrow> x = y \<or> f64_magnitude x = 0 \<and> f64_magnitude y = 0"
proof (cases "bit x 63 = bit y 63")
  case True
  then show ?thesis
    using unat_f64 [of x] unat_f64 [of y] by (auto simp: f64_key_def word_unat_eq_iff)
next
  case False
  then have "x \<noteq> y" by auto
  with False show ?thesis by (auto simp: f64_key_def)
qed

lemma cmp_by_simps [simp]:
  "cmp_by f a b = Less \<longleftrightarrow> f a < f b" "cmp_by f a b = Equal \<longleftrightarrow> f a = f b" "cmp_by f a b = Greater \<longleftrightarrow> f b < f a"
  by (auto simp: cmp_by_def)

end
