(* ===== verification/Transaction.thy ===== *)
theory Transaction
  imports Clog Ssi Table_Storage Value
begin

section \<open>Transactions and snapshots\<close>

text \<open>
  \<open>src/src/db/transaction.rs\<close> and \<open>src/src/db/trx.rs\<close>: the id counter, the open set, snapshots, and the
  visibility rule of a row version. \<open>tm\<close> is \<open>TransactionManager\<close>. Its methods are compositions of the actions each
  takes under one lock or atomic access, and \<open>sys_step\<close> interleaves these actions: sessions share the database, so
  another session's action may fall between any two of them. The one exception is \<open>mark_committed\<close>, whose two lock scopes have the effect of one
  (\<open>Clog\<close>). The lemmas show what a snapshot sees, that it never changes afterwards, and when it is not what had committed at
  one moment.
\<close>

record snapshot =
  xmax :: u64
  xip :: "u64 list"

record tm =
  tm_next_id :: u64
  tm_commits :: u64
  tm_committed :: clog
  tm_open :: "u64 list"
  tm_ssi :: ssi
  tm_serializable :: bool

definition tm_new :: "u64 \<Rightarrow> u64 list \<Rightarrow> u64 \<Rightarrow> bool \<Rightarrow> tm" where
  "tm_new next_id committed base serializable =
     (let status = fold (\<lambda>x c. mark_committed c x) committed (advance_base clog_new base) in
      \<lparr>tm_next_id = next_id, tm_commits = 0, tm_committed = status, tm_open = [], tm_ssi = ssi_new,
       tm_serializable = serializable\<rparr>)"

definition tm_note_read :: "tm \<Rightarrow> u64 \<Rightarrow> string \<Rightarrow> tm" where
  "tm_note_read t i table = (if tm_serializable t then t\<lparr>tm_ssi := note_read (tm_ssi t) i table\<rparr> else t)"

definition tm_note_write :: "tm \<Rightarrow> u64 \<Rightarrow> string \<Rightarrow> tm" where
  "tm_note_write t i table = (if tm_serializable t then t\<lparr>tm_ssi := note_write (tm_ssi t) i table\<rparr> else t)"

definition ssi_conflict :: "tm \<Rightarrow> u64 \<Rightarrow> bool" where
  "ssi_conflict t i = (tm_serializable t \<and> has_cycle_through (tm_ssi t) i)"

definition allocate :: "tm \<Rightarrow> u64 \<times> tm" where
  "allocate t = (tm_next_id t, t\<lparr>tm_next_id := tm_next_id t + 1\<rparr>)"

text \<open>\<open>open.insert\<close> and \<open>open.remove\<close> under the write lock of the open set.\<close>

definition open_insert :: "tm \<Rightarrow> u64 \<Rightarrow> tm" where
  "open_insert t i = t\<lparr>tm_open := hs_insert i (tm_open t)\<rparr>"

definition open_remove :: "tm \<Rightarrow> u64 \<Rightarrow> tm" where
  "open_remove t i = t\<lparr>tm_open := hs_remove i (tm_open t)\<rparr>"

definition tm_ssi_begin :: "tm \<Rightarrow> u64 \<Rightarrow> tm" where
  "tm_ssi_begin t i = (if tm_serializable t then t\<lparr>tm_ssi := ssi_begin (tm_ssi t) i\<rparr> else t)"

definition tm_ssi_abort :: "tm \<Rightarrow> u64 \<Rightarrow> tm" where
  "tm_ssi_abort t i = (if tm_serializable t then t\<lparr>tm_ssi := ssi_abort (tm_ssi t) i\<rparr> else t)"

definition tm_ssi_commit :: "tm \<Rightarrow> u64 \<Rightarrow> tm" where
  "tm_ssi_commit t i = (if tm_serializable t then t\<lparr>tm_ssi := ssi_commit (tm_ssi t) i\<rparr> else t)"

definition count_commit :: "tm \<Rightarrow> tm" where
  "count_commit t = t\<lparr>tm_commits := tm_commits t + 1\<rparr>"

definition mark_commit :: "tm \<Rightarrow> u64 \<Rightarrow> tm" where
  "mark_commit t i = t\<lparr>tm_committed := mark_committed (tm_committed t) i\<rparr>"

definition insert_open :: "tm \<Rightarrow> u64 \<Rightarrow> tm" where
  "insert_open t i = tm_ssi_begin (open_insert t i) i"

definition begin_open :: "tm \<Rightarrow> u64 \<times> tm" where
  "begin_open t =
     (let (i, t) = allocate t;
          t = open_insert t i
      in (i, tm_ssi_begin t i))"

definition saturating_succ :: "u64 \<Rightarrow> u64" where
  "saturating_succ x = (if x = - 1 then - 1 else x + 1)"

definition ensure_next_id_at_least :: "tm \<Rightarrow> u64 \<Rightarrow> tm" where
  "ensure_next_id_at_least t i =
     (if tm_next_id t \<le> i then t\<lparr>tm_next_id := saturating_succ i\<rparr> else t)"

text \<open>The counter is loaded first, as \<open>upper\<close>; the open set is read afterwards, in state \<open>t\<close>.\<close>

definition snapshot_of :: "u64 \<Rightarrow> tm \<Rightarrow> snapshot" where
  "snapshot_of upper t = \<lparr>xmax = upper, xip = sort (tm_open t)\<rparr>"

definition tm_snapshot :: "tm \<Rightarrow> snapshot" where
  "tm_snapshot t = snapshot_of (tm_next_id t) t"

definition clog_base :: "tm \<Rightarrow> u64" where
  "clog_base t = cl_base (tm_committed t)"

definition advance_horizon :: "tm \<Rightarrow> u64 \<Rightarrow> tm" where
  "advance_horizon t b = t\<lparr>tm_committed := advance_base (tm_committed t) b\<rparr>"

definition committed_ids :: "tm \<Rightarrow> u64 list" where
  "committed_ids t = clog_ids (tm_committed t)"

definition tm_is_committed :: "tm \<Rightarrow> u64 \<Rightarrow> bool" where
  "tm_is_committed t i = is_committed (tm_committed t) i"

definition remove_open :: "tm \<Rightarrow> u64 \<Rightarrow> tm" where
  "remove_open t i = tm_ssi_abort (open_remove t i) i"

definition tm_commit :: "tm \<Rightarrow> u64 \<Rightarrow> tm" where
  "tm_commit t i = tm_ssi_commit (open_remove (mark_commit (count_commit t) i) i) i"

definition extend_committed :: "tm \<Rightarrow> u64 list \<Rightarrow> tm" where
  "extend_committed t ids = t\<lparr>tm_committed := fold (\<lambda>x c. mark_committed c x) ids (tm_committed t)\<rparr>"

definition no_open_transactions :: "tm \<Rightarrow> bool" where
  "no_open_transactions t = (tm_open t = [])"

definition has_open_excluding :: "tm \<Rightarrow> u64 \<Rightarrow> bool" where
  "has_open_excluding t i = list_ex (\<lambda>x. x \<noteq> i) (tm_open t)"

subsection \<open>A session's transaction\<close>

definition READ_ONLY_TRX_ID :: u64 where
  "READ_ONLY_TRX_ID = 0"

datatype undo =
    UInsert (undo_table: string) rid "sql_value list"
  | UDeleteMark (undo_table: string) rid u64 u64
  | UUpdate (undo_table: string) rid rid "sql_value list" u64 u64

record trx_state =
  trx_id :: u64
  trx_snapshot :: snapshot
  trx_undo :: "undo list"
  trx_wal :: "byte list"
  trx_explicit :: bool

record session =
  se_trx :: "trx_state option"
  se_current_db :: "string option"
  se_user :: "string option"
  se_autocommit :: bool

definition session_new :: session where
  "session_new = \<lparr>se_trx = None, se_current_db = None, se_user = None, se_autocommit = True\<rparr>"

definition in_transaction :: "session \<Rightarrow> bool" where
  "in_transaction s = (se_trx s \<noteq> None)"

definition session_begin :: "session \<Rightarrow> u64 \<Rightarrow> snapshot \<Rightarrow> bool \<Rightarrow> session" where
  "session_begin s i snap explicit =
     s\<lparr>se_trx := Some \<lparr>trx_id = i, trx_snapshot = snap, trx_undo = [], trx_wal = [], trx_explicit = explicit\<rparr>\<rparr>"

definition session_begin_readonly :: "session \<Rightarrow> snapshot \<Rightarrow> session" where
  "session_begin_readonly s snap =
     s\<lparr>se_trx := Some \<lparr>trx_id = READ_ONLY_TRX_ID, trx_snapshot = snap, trx_undo = [], trx_wal = [], trx_explicit = False\<rparr>\<rparr>"

definition session_trx :: "session \<Rightarrow> trx_state result" where
  "session_trx s = (case se_trx s of None \<Rightarrow> Err Panic | Some t \<Rightarrow> Ok t)"

text \<open>
  The transaction's \<open>clog\<close> is shared with the manager, so it is an argument: its contents at the time
  of the call. \<open>binary_search\<close> on the sorted \<open>xip\<close> is membership.
\<close>

definition committed_before :: "snapshot \<Rightarrow> clog \<Rightarrow> u64 \<Rightarrow> bool" where
  "committed_before snap c xid = (xid < xmax snap \<and> xid \<notin> set (xip snap) \<and> is_committed c xid)"

definition visible :: "trx_state \<Rightarrow> clog \<Rightarrow> u64 \<Rightarrow> u64 \<Rightarrow> bool" where
  "visible t c creator deleter =
     (let creator_visible = (creator = 0 \<or> creator = trx_id t \<or> committed_before (trx_snapshot t) c creator);
          deleted_for_me = (deleter \<noteq> 0 \<and> (deleter = trx_id t \<or> committed_before (trx_snapshot t) c deleter))
      in creator_visible \<and> \<not> deleted_for_me)"

subsection \<open>Sessions sharing the manager\<close>

text \<open>
  How far the transaction with an id has come; an id that has not been registered, or that has ended, has no phase. Between the \<open>fetch_add\<close> and the
  \<open>insert\<close> of \<open>begin_open\<close> the session holds the write lock of the open set, and the id is \<open>sy_holder\<close>.
\<close>

datatype phase = Registered | Running | Counted | Marked | Left | Dropped

record sys =
  sy_tm :: tm
  sy_holder :: "u64 option"
  sy_phase :: "u64 \<Rightarrow> phase option"

text \<open>
  The actions of \<open>begin_open\<close>, \<open>commit\<close> and \<open>remove_open\<close>, each in its order for its transaction and interleaved with all others;
  access to the open set waits while another session holds it. A failed read-only statement removes the sentinel id.
  \<open>VACUUM\<close> moves the horizon to the next id when no transaction but its own is open.
\<close>

inductive sys_step :: "sys \<Rightarrow> sys \<Rightarrow> bool" where
  sy_take: "sy_holder s = None \<Longrightarrow> tm_next_id (sy_tm s) \<noteq> - 1 \<Longrightarrow>
    sys_step s (s\<lparr>sy_tm := snd (allocate (sy_tm s)), sy_holder := Some (fst (allocate (sy_tm s)))\<rparr>)"
| sy_register: "sy_holder s = Some i \<Longrightarrow>
    sys_step s (s\<lparr>sy_tm := open_insert (sy_tm s) i, sy_holder := None, sy_phase := (sy_phase s)(i \<mapsto> Registered)\<rparr>)"
| sy_track: "sy_phase s i = Some Registered \<Longrightarrow>
    sys_step s (s\<lparr>sy_tm := tm_ssi_begin (sy_tm s) i, sy_phase := (sy_phase s)(i \<mapsto> Running)\<rparr>)"
| sy_read: "sys_step s (s\<lparr>sy_tm := tm_note_read (sy_tm s) i table\<rparr>)"
| sy_write: "sys_step s (s\<lparr>sy_tm := tm_note_write (sy_tm s) i table\<rparr>)"
| sy_count: "sy_phase s i = Some Running \<Longrightarrow>
    sys_step s (s\<lparr>sy_tm := count_commit (sy_tm s), sy_phase := (sy_phase s)(i \<mapsto> Counted)\<rparr>)"
| sy_mark: "sy_phase s i = Some Counted \<Longrightarrow>
    sys_step s (s\<lparr>sy_tm := mark_commit (sy_tm s) i, sy_phase := (sy_phase s)(i \<mapsto> Marked)\<rparr>)"
| sy_leave: "sy_phase s i = Some Marked \<Longrightarrow> sy_holder s = None \<Longrightarrow>
    sys_step s (s\<lparr>sy_tm := open_remove (sy_tm s) i, sy_phase := (sy_phase s)(i \<mapsto> Left)\<rparr>)"
| sy_forget: "sy_phase s i = Some Left \<Longrightarrow>
    sys_step s (s\<lparr>sy_tm := tm_ssi_commit (sy_tm s) i, sy_phase := (sy_phase s)(i := None)\<rparr>)"
| sy_drop: "sy_phase s i = Some Running \<Longrightarrow> sy_holder s = None \<Longrightarrow>
    sys_step s (s\<lparr>sy_tm := open_remove (sy_tm s) i, sy_phase := (sy_phase s)(i \<mapsto> Dropped)\<rparr>)"
| sy_abort: "sy_phase s i = Some Dropped \<Longrightarrow>
    sys_step s (s\<lparr>sy_tm := tm_ssi_abort (sy_tm s) i, sy_phase := (sy_phase s)(i := None)\<rparr>)"
| sy_drop_sentinel: "sy_holder s = None \<Longrightarrow> sys_step s (s\<lparr>sy_tm := open_remove (sy_tm s) READ_ONLY_TRX_ID\<rparr>)"
| sy_abort_sentinel: "sys_step s (s\<lparr>sy_tm := tm_ssi_abort (sy_tm s) READ_ONLY_TRX_ID\<rparr>)"
| sy_vacuum: "sy_phase s i = Some Running \<Longrightarrow> sy_holder s = None \<Longrightarrow> \<not> has_open_excluding (sy_tm s) i \<Longrightarrow>
    sys_step s (s\<lparr>sy_tm := advance_horizon (sy_tm s) (tm_next_id (sy_tm s))\<rparr>)"

abbreviation sys_steps :: "sys \<Rightarrow> sys \<Rightarrow> bool" where
  "sys_steps \<equiv> sys_step\<^sup>*\<^sup>*"

text \<open>
  \<open>Database::open\<close>: the manager is made from the catalog, then the log's largest id raises the counter and its commits are added.
\<close>

definition tm_recovered :: "u64 \<Rightarrow> u64 list \<Rightarrow> u64 \<Rightarrow> bool \<Rightarrow> u64 \<Rightarrow> u64 list \<Rightarrow> tm" where
  "tm_recovered next_id ids base serializable max_trx_id committed =
     extend_committed (ensure_next_id_at_least (tm_new next_id ids base serializable) max_trx_id) committed"

inductive sys_reachable :: "sys \<Rightarrow> bool" where
  sy_start: "0 < n \<Longrightarrow> \<forall>x \<in> set ids. 0 < x \<and> x < n \<Longrightarrow> base \<le> n \<Longrightarrow> m \<noteq> - 1 \<Longrightarrow> \<forall>x \<in> set committed. 0 < x \<and> x \<le> m \<Longrightarrow>
    sys_reachable \<lparr>sy_tm = tm_recovered n ids base serializable m committed, sy_holder = None, sy_phase = Map.empty\<rparr>"
| sy_next: "sys_reachable s \<Longrightarrow> sys_step s s' \<Longrightarrow> sys_reachable s'"

inductive_cases sys_stepE: "sys_step s s'"

lemmas tm_defs = allocate_def open_insert_def open_remove_def tm_ssi_begin_def tm_ssi_abort_def tm_ssi_commit_def count_commit_def
  mark_commit_def tm_note_read_def tm_note_write_def advance_horizon_def

lemma tm_fields [simp]:
  "tm_next_id (snd (allocate t)) = tm_next_id t + 1" "tm_open (snd (allocate t)) = tm_open t" "tm_committed (snd (allocate t)) = tm_committed t"
  "fst (allocate t) = tm_next_id t"
  "tm_next_id (open_insert t i) = tm_next_id t" "tm_open (open_insert t i) = hs_insert i (tm_open t)" "tm_committed (open_insert t i) = tm_committed t"
  "tm_next_id (open_remove t i) = tm_next_id t" "tm_open (open_remove t i) = hs_remove i (tm_open t)" "tm_committed (open_remove t i) = tm_committed t"
  "tm_next_id (tm_ssi_begin t i) = tm_next_id t" "tm_open (tm_ssi_begin t i) = tm_open t" "tm_committed (tm_ssi_begin t i) = tm_committed t"
  "tm_next_id (tm_ssi_abort t i) = tm_next_id t" "tm_open (tm_ssi_abort t i) = tm_open t" "tm_committed (tm_ssi_abort t i) = tm_committed t"
  "tm_next_id (tm_ssi_commit t i) = tm_next_id t" "tm_open (tm_ssi_commit t i) = tm_open t" "tm_committed (tm_ssi_commit t i) = tm_committed t"
  "tm_next_id (count_commit t) = tm_next_id t" "tm_open (count_commit t) = tm_open t" "tm_committed (count_commit t) = tm_committed t"
  "tm_next_id (mark_commit t i) = tm_next_id t" "tm_open (mark_commit t i) = tm_open t"
  "tm_committed (mark_commit t i) = mark_committed (tm_committed t) i"
  "tm_next_id (tm_note_read t i table) = tm_next_id t" "tm_open (tm_note_read t i table) = tm_open t"
  "tm_committed (tm_note_read t i table) = tm_committed t"
  "tm_next_id (tm_note_write t i table) = tm_next_id t" "tm_open (tm_note_write t i table) = tm_open t"
  "tm_committed (tm_note_write t i table) = tm_committed t"
  "tm_next_id (advance_horizon t b) = tm_next_id t" "tm_open (advance_horizon t b) = tm_open t"
  "tm_committed (advance_horizon t b) = advance_base (tm_committed t) b"
  by (simp_all add: tm_defs)

text \<open>Open are the ids in the middle phases; none of them is marked before its phase says so, unless the horizon has passed it.\<close>

definition sys_inv :: "sys \<Rightarrow> bool" where
  "sys_inv s \<longleftrightarrow> clog_ok (tm_committed (sy_tm s)) \<and> 0 < tm_next_id (sy_tm s) \<and> clog_base (sy_tm s) \<le> tm_next_id (sy_tm s) \<and>
     (\<forall>x \<in> clog_set (tm_committed (sy_tm s)). x < tm_next_id (sy_tm s)) \<and>
     (\<forall>x. x \<in> set (tm_open (sy_tm s)) \<longleftrightarrow> sy_phase s x \<in> Some ` {Registered, Running, Counted, Marked}) \<and>
     (\<forall>x. sy_phase s x \<noteq> None \<longrightarrow> 0 < x \<and> x < tm_next_id (sy_tm s)) \<and>
     (\<forall>x. sy_phase s x \<in> Some ` {Registered, Running, Counted} \<and> x \<in> clog_set (tm_committed (sy_tm s)) \<longrightarrow> x < clog_base (sy_tm s)) \<and>
     (\<forall>x. sy_holder s = Some x \<longrightarrow> 0 < x \<and> x < tm_next_id (sy_tm s) \<and> sy_phase s x = None \<and> x \<notin> clog_set (tm_committed (sy_tm s)))"

lemma sys_inv_step:
  assumes "sys_step s s'" "sys_inv s"
  shows "sys_inv s'"
  using assms(1)
proof (rule sys_stepE)
  assume "sy_holder s = None" "tm_next_id (sy_tm s) \<noteq> - 1"
    and s': "s' = s\<lparr>sy_tm := snd (allocate (sy_tm s)), sy_holder := Some (fst (allocate (sy_tm s)))\<rparr>"
  moreover have "tm_next_id (sy_tm s) < tm_next_id (sy_tm s) + 1" using calculation(2) by (rule word_succ_less)
  moreover have "sy_phase s (tm_next_id (sy_tm s)) = None" "tm_next_id (sy_tm s) \<notin> clog_set (tm_committed (sy_tm s))"
    using assms(2) by (auto simp: sys_inv_def)
  ultimately show ?thesis
    using assms(2) by (auto simp: sys_inv_def clog_base_def intro: less_trans)
next
  fix i assume "sy_phase s i = Some Counted" "s' = s\<lparr>sy_tm := mark_commit (sy_tm s) i, sy_phase := (sy_phase s)(i \<mapsto> Marked)\<rparr>"
  with assms(2) show ?thesis by (auto simp: sys_inv_def clog_base_def mark_committed_spec)
next
  fix i assume "sy_holder s = None" "s' = s\<lparr>sy_tm := advance_horizon (sy_tm s) (tm_next_id (sy_tm s))\<rparr>"
  with assms(2) show ?thesis by (auto simp: sys_inv_def clog_base_def advance_base_spec)
qed (use assms(2) in \<open>auto simp: sys_inv_def clog_base_def READ_ONLY_TRX_ID_def\<close>)

lemma ensure_next_mono: "tm_next_id t \<le> tm_next_id (ensure_next_id_at_least t i)"
  using word_succ_less [of i] by (auto simp: ensure_next_id_at_least_def saturating_succ_def)

lemma mark_all_spec:
  "clog_ok c \<Longrightarrow> clog_ok (fold (\<lambda>x c. mark_committed c x) ids c) \<and>
    clog_set (fold (\<lambda>x c. mark_committed c x) ids c) = clog_set c \<union> set ids \<and> cl_base (fold (\<lambda>x c. mark_committed c x) ids c) = cl_base c"
  by (induction ids arbitrary: c) (auto simp: mark_committed_spec)

lemma tm_recovered_fields:
  assumes "m \<noteq> - 1"
  shows "clog_ok (tm_committed (tm_recovered n ids base serializable m committed)) \<and>
    clog_set (tm_committed (tm_recovered n ids base serializable m committed)) = {x. x < base} \<union> set ids \<union> set committed \<and>
    clog_base (tm_recovered n ids base serializable m committed) = base \<and> tm_open (tm_recovered n ids base serializable m committed) = [] \<and>
    n \<le> tm_next_id (tm_recovered n ids base serializable m committed) \<and> m < tm_next_id (tm_recovered n ids base serializable m committed)"
proof -
  let ?c = "fold (\<lambda>x c. mark_committed c x) ids (advance_base clog_new base)"
  have "tm_committed (tm_recovered n ids base serializable m committed) = fold (\<lambda>x c. mark_committed c x) committed ?c"
    by (simp add: tm_recovered_def extend_committed_def ensure_next_id_at_least_def tm_new_def Let_def)
  moreover have "tm_open (tm_recovered n ids base serializable m committed) = []"
    "n \<le> tm_next_id (tm_recovered n ids base serializable m committed)" "m < tm_next_id (tm_recovered n ids base serializable m committed)"
    using word_succ_less [OF assms]
    by (auto simp: tm_recovered_def extend_committed_def ensure_next_id_at_least_def tm_new_def Let_def saturating_succ_def assms)
  ultimately show ?thesis
    using mark_all_spec [of "advance_base clog_new base" ids] mark_all_spec [of ?c committed] advance_base_spec [of clog_new base]
    by (auto simp: clog_base_def)
qed

lemma sys_inv_reachable: "sys_reachable s \<Longrightarrow> sys_inv s"
proof (induction rule: sys_reachable.induct)
  case (sy_start n ids base m committed serializable)
  with tm_recovered_fields [of m n ids base serializable committed] show ?case
    by (auto simp: sys_inv_def intro: less_le_trans le_less_trans)
qed (auto intro: sys_inv_step)

subsection \<open>Later actions and an earlier snapshot\<close>

text \<open>An id that has been handed out and is neither open nor about to be: nothing later marks it, so its status is final above the horizon.\<close>

definition settled :: "sys \<Rightarrow> u64 \<Rightarrow> bool" where
  "settled s x \<longleftrightarrow> x < tm_next_id (sy_tm s) \<and> x \<notin> set (tm_open (sy_tm s)) \<and> sy_holder s \<noteq> Some x"

lemma sys_step_mono:
  assumes "sys_step s s'" "sys_inv s"
  shows "tm_next_id (sy_tm s) \<le> tm_next_id (sy_tm s')" "clog_base (sy_tm s) \<le> clog_base (sy_tm s')"
  using assms word_succ_less [of "tm_next_id (sy_tm s)"]
  by (auto elim!: sys_stepE simp: sys_inv_def clog_base_def mark_committed_spec advance_base_spec)

lemma settled_step:
  assumes "sys_step s s'" "sys_inv s" "settled s x"
  shows "settled s' x" "clog_base (sy_tm s') \<le> x \<Longrightarrow> tm_is_committed (sy_tm s') x = tm_is_committed (sy_tm s) x"
proof -
  have *: "x \<notin> set (tm_open (sy_tm s')) \<and> sy_holder s' \<noteq> Some x \<and>
    (clog_base (sy_tm s') \<le> x \<longrightarrow> tm_is_committed (sy_tm s') x = tm_is_committed (sy_tm s) x)"
    using assms(1)
  proof (rule sys_stepE)
    fix i assume "sy_phase s i = Some Counted" "s' = s\<lparr>sy_tm := mark_commit (sy_tm s) i, sy_phase := (sy_phase s)(i \<mapsto> Marked)\<rparr>"
    moreover from this have "i \<noteq> x" using assms(2,3) by (auto simp: sys_inv_def settled_def)
    ultimately show ?thesis
      using assms(2,3) by (auto simp: sys_inv_def settled_def tm_is_committed_def is_committed_set mark_committed_spec)
  next
    fix i assume "s' = s\<lparr>sy_tm := advance_horizon (sy_tm s) (tm_next_id (sy_tm s))\<rparr>"
    with assms(2,3) show ?thesis
      by (auto simp: sys_inv_def settled_def tm_is_committed_def is_committed_set advance_base_spec clog_base_def)
  qed (use assms(3) in \<open>auto simp: settled_def tm_is_committed_def\<close>)
  with sys_step_mono(1) [OF assms(1,2)] assms(3)
  show "settled s' x" "clog_base (sy_tm s') \<le> x \<Longrightarrow> tm_is_committed (sy_tm s') x = tm_is_committed (sy_tm s) x"
    by (auto simp: settled_def)
qed

lemma sys_steps_settled:
  assumes "sys_steps s0 s" "sys_inv s0"
  shows "sys_inv s \<and> tm_next_id (sy_tm s0) \<le> tm_next_id (sy_tm s) \<and> clog_base (sy_tm s0) \<le> clog_base (sy_tm s) \<and>
    (\<forall>x. settled s0 x \<longrightarrow> settled s x \<and> (clog_base (sy_tm s) \<le> x \<longrightarrow> tm_is_committed (sy_tm s) x = tm_is_committed (sy_tm s0) x))"
  using assms(1)
proof (induction rule: rtranclp_induct)
  case (step u v)
  then have inv: "sys_inv u" by blast
  note mono = sys_step_mono [OF step.hyps(2) inv]
  show ?case
  proof (intro conjI allI impI)
    fix x assume x: "settled s0 x"
    then have u: "settled u x" using step.IH by blast
    show "settled v x" by (rule settled_step(1) [OF step.hyps(2) inv u])
    assume "clog_base (sy_tm v) \<le> x"
    with settled_step(2) [OF step.hyps(2) inv u] mono(2) step.IH x show "tm_is_committed (sy_tm v) x = tm_is_committed (sy_tm s0) x"
      by (meson order_trans)
  qed (use mono step.IH sys_inv_step [OF step.hyps(2) inv] in auto)
qed (use assms(2) in auto)

text \<open>A transaction has finished committing once it is marked and no longer open.\<close>

definition finished :: "tm \<Rightarrow> u64 \<Rightarrow> bool" where
  "finished t i \<longleftrightarrow> tm_is_committed t i \<and> i \<notin> set (tm_open t)"

lemma finished_settled: "sys_inv s \<Longrightarrow> finished (sy_tm s) x \<Longrightarrow> settled s x"
  by (auto simp: sys_inv_def settled_def finished_def tm_is_committed_def is_committed_set)

lemma snapshot_sees:
  assumes "sys_inv s0" "sy_holder s0 = None" "sys_steps s0 s" "upper \<le> tm_next_id (sy_tm s0)" "clog_base (sy_tm s) \<le> x"
  shows "committed_before (snapshot_of upper (sy_tm s0)) (tm_committed (sy_tm s)) x \<longleftrightarrow> x < upper \<and> finished (sy_tm s0) x"
proof (cases "x < upper \<and> x \<notin> set (tm_open (sy_tm s0))")
  case True
  with assms(2,4) have "settled s0 x" by (auto simp: settled_def)
  with sys_steps_settled [OF assms(3,1)] assms(5) have "tm_is_committed (sy_tm s) x = tm_is_committed (sy_tm s0) x" by blast
  with True show ?thesis by (simp add: committed_before_def snapshot_of_def finished_def tm_is_committed_def)
qed (auto simp: committed_before_def snapshot_of_def finished_def)

text \<open>The run behind the anomaly: the next transaction begins and commits, then \<open>i\<close> commits.\<close>

definition sys_begin_commit :: "sys \<Rightarrow> sys" where
  "sys_begin_commit s =
     (let i = tm_next_id (sy_tm s) in
      s\<lparr>sy_holder := None, sy_tm := tm_commit (snd (begin_open (sy_tm s))) i, sy_phase := (sy_phase s)(i := None)\<rparr>)"

definition sys_commit :: "sys \<Rightarrow> u64 \<Rightarrow> sys" where
  "sys_commit s i = s\<lparr>sy_tm := tm_commit (sy_tm s) i, sy_phase := (sy_phase s)(i := None)\<rparr>"

lemma sys_commit_steps:
  assumes "sy_phase s i = Some Running" "sy_holder s = None"
  shows "sys_steps s (sys_commit s i)"
proof -
  let ?s1 = "s\<lparr>sy_tm := count_commit (sy_tm s), sy_phase := (sy_phase s)(i \<mapsto> Counted)\<rparr>"
  let ?s2 = "?s1\<lparr>sy_tm := mark_commit (sy_tm ?s1) i, sy_phase := (sy_phase ?s1)(i \<mapsto> Marked)\<rparr>"
  let ?s3 = "?s2\<lparr>sy_tm := open_remove (sy_tm ?s2) i, sy_phase := (sy_phase ?s2)(i \<mapsto> Left)\<rparr>"
  let ?s4 = "?s3\<lparr>sy_tm := tm_ssi_commit (sy_tm ?s3) i, sy_phase := (sy_phase ?s3)(i := None)\<rparr>"
  have 1: "sys_step s ?s1" using assms(1) by (rule sy_count)
  have 2: "sys_step ?s1 ?s2" by (rule sy_mark) simp
  have 3: "sys_step ?s2 ?s3" by (rule sy_leave) (simp_all add: assms)
  have 4: "sys_step ?s3 ?s4" by (rule sy_forget) simp
  have "sys_steps s ?s4"
    by (intro converse_rtranclp_into_rtranclp [of sys_step, OF 1] converse_rtranclp_into_rtranclp [of sys_step, OF 2]
      converse_rtranclp_into_rtranclp [of sys_step, OF 3] r_into_rtranclp [of sys_step, OF 4])
  then show ?thesis by (simp add: sys_commit_def tm_commit_def)
qed

lemma sys_begin_commit_steps:
  assumes "sy_holder s = None" "tm_next_id (sy_tm s) \<noteq> - 1"
  shows "sys_steps s (sys_begin_commit s)"
proof -
  let ?i = "tm_next_id (sy_tm s)"
  let ?s1 = "s\<lparr>sy_tm := snd (allocate (sy_tm s)), sy_holder := Some (fst (allocate (sy_tm s)))\<rparr>"
  let ?s2 = "?s1\<lparr>sy_tm := open_insert (sy_tm ?s1) ?i, sy_holder := None, sy_phase := (sy_phase ?s1)(?i \<mapsto> Registered)\<rparr>"
  let ?s3 = "?s2\<lparr>sy_tm := tm_ssi_begin (sy_tm ?s2) ?i, sy_phase := (sy_phase ?s2)(?i \<mapsto> Running)\<rparr>"
  have 1: "sys_step s ?s1" using assms by (rule sy_take)
  have 2: "sys_step ?s1 ?s2" by (rule sy_register) simp
  have 3: "sys_step ?s2 ?s3" by (rule sy_track) simp
  have 4: "sys_steps ?s3 (sys_commit ?s3 ?i)" by (rule sys_commit_steps) simp_all
  have "sys_steps s (sys_commit ?s3 ?i)"
    by (intro converse_rtranclp_into_rtranclp [of sys_step, OF 1] converse_rtranclp_into_rtranclp [of sys_step, OF 2]
      converse_rtranclp_into_rtranclp [of sys_step, OF 3] 4)
  then show ?thesis
    by (simp add: sys_commit_def sys_begin_commit_def begin_open_def Let_def allocate_def)
qed

text \<open>What the two methods do as a whole.\<close>

lemma tm_commit_fields [simp]:
  "tm_next_id (tm_commit t i) = tm_next_id t" "tm_open (tm_commit t i) = hs_remove i (tm_open t)"
  "tm_committed (tm_commit t i) = mark_committed (tm_committed t) i"
  "tm_next_id (snd (begin_open t)) = tm_next_id t + 1" "tm_open (snd (begin_open t)) = hs_insert (tm_next_id t) (tm_open t)"
  "tm_committed (snd (begin_open t)) = tm_committed t" "fst (begin_open t) = tm_next_id t"
  by (simp_all add: tm_commit_def begin_open_def case_prod_unfold Let_def)

lemma begin_commit_anomaly:
  assumes inv: "sys_inv u" and free: "sy_holder u = None" "tm_next_id (sy_tm u) \<noteq> - 1"
    and i: "sy_phase u i = Some Running" "\<not> tm_is_committed (sy_tm u) i"
  defines "n \<equiv> tm_next_id (sy_tm u)" and "v \<equiv> sys_begin_commit u"
  shows "sys_steps u v" "sys_steps v (sys_commit v i)" "finished (sy_tm v) n" "\<not> tm_is_committed (sy_tm v) i"
    "committed_before (snapshot_of n (sy_tm (sys_commit v i))) (tm_committed (sy_tm (sys_commit v i))) i"
    "\<not> committed_before (snapshot_of n (sy_tm (sys_commit v i))) (tm_committed (sy_tm (sys_commit v i))) n"
proof -
  have ok: "clog_ok (tm_committed (sy_tm u))" and "i < n" "0 < i" and "0 < n"
    using inv i(1) by (auto simp: sys_inv_def n_def)
  then have "i \<noteq> n" "n \<noteq> 0" by auto
  then have ph: "sy_phase v i = Some Running" "sy_holder v = None" using i(1) by (simp_all add: v_def sys_begin_commit_def Let_def n_def)
  show "sys_steps u v" unfolding v_def by (rule sys_begin_commit_steps [OF free])
  show "sys_steps v (sys_commit v i)" by (rule sys_commit_steps [OF ph])
  show "finished (sy_tm v) n" "\<not> tm_is_committed (sy_tm v) i"
    "committed_before (snapshot_of n (sy_tm (sys_commit v i))) (tm_committed (sy_tm (sys_commit v i))) i"
    "\<not> committed_before (snapshot_of n (sy_tm (sys_commit v i))) (tm_committed (sy_tm (sys_commit v i))) n"
    using i(2) \<open>i < n\<close> \<open>0 < i\<close> \<open>n \<noteq> 0\<close> \<open>i \<noteq> n\<close> ok
    by (auto simp: finished_def tm_is_committed_def v_def sys_begin_commit_def sys_commit_def n_def [symmetric] Let_def is_committed_set
        mark_committed_spec committed_before_def snapshot_of_def)
qed

text \<open>
  C9: What a snapshot sees. Its upper bound is loaded in state \<open>s1\<close>; the open set is read in the later state \<open>s0\<close>, when no session is registering
  an id; every action of any other session may fall between and afterwards. For every id at or above the current horizon, \<open>committed_before\<close>
  then answers for ever whether the id was below the bound and had finished committing in \<open>s0\<close>, so the visibility of a row version never
  changes during a transaction. The snapshot sees all that had finished committing when the bound was loaded, and if
  no id was handed out before the open set was read, it sees exactly what had finished committing then. Otherwise it need not be
  what had committed at any one moment: whenever a transaction \<open>i\<close> is running, the next one may begin and commit completely, and then \<open>i\<close> commit, between
  the load and the lock, and the snapshot sees \<open>i\<close> and not the one that had committed before it.
\<close>

theorem snapshot_is_stable:
  assumes "sys_reachable s1" "sys_steps s1 s0" "sy_holder s0 = None" "sys_steps s0 s"
    and "snap = snapshot_of (tm_next_id (sy_tm s1)) (sy_tm s0)"
  shows "(\<forall>x. clog_base (sy_tm s) \<le> x \<longrightarrow>
      committed_before snap (tm_committed (sy_tm s)) x = (x < tm_next_id (sy_tm s1) \<and> finished (sy_tm s0) x)) \<and>
    (\<forall>trx creator deleter. trx_snapshot trx = snap \<and> clog_base (sy_tm s) \<le> creator \<and> (deleter = 0 \<or> clog_base (sy_tm s) \<le> deleter) \<longrightarrow>
      visible trx (tm_committed (sy_tm s)) creator deleter = visible trx (tm_committed (sy_tm s0)) creator deleter) \<and>
    (\<forall>x. clog_base (sy_tm s) \<le> x \<and> finished (sy_tm s1) x \<longrightarrow> committed_before snap (tm_committed (sy_tm s)) x) \<and>
    (tm_next_id (sy_tm s0) = tm_next_id (sy_tm s1) \<longrightarrow>
      (\<forall>x. clog_base (sy_tm s) \<le> x \<longrightarrow> committed_before snap (tm_committed (sy_tm s)) x = finished (sy_tm s0) x)) \<and>
    (\<forall>i. sy_holder s1 = None \<and> tm_next_id (sy_tm s1) \<noteq> - 1 \<and> sy_phase s1 i = Some Running \<and> \<not> tm_is_committed (sy_tm s1) i \<longrightarrow>
      (\<exists>v w. sys_steps s1 v \<and> finished (sy_tm v) (tm_next_id (sy_tm s1)) \<and> \<not> tm_is_committed (sy_tm v) i \<and> sys_steps v w \<and> sy_holder w = None \<and>
        committed_before (snapshot_of (tm_next_id (sy_tm s1)) (sy_tm w)) (tm_committed (sy_tm w)) i \<and>
        \<not> committed_before (snapshot_of (tm_next_id (sy_tm s1)) (sy_tm w)) (tm_committed (sy_tm w)) (tm_next_id (sy_tm s1))))"
proof -
  note inv1 = sys_inv_reachable [OF assms(1)]
  note to0 = sys_steps_settled [OF assms(2) inv1]
  then have inv0: "sys_inv s0" and le: "tm_next_id (sy_tm s1) \<le> tm_next_id (sy_tm s0)" by blast+
  note to = sys_steps_settled [OF assms(4) inv0]
  have sees: "committed_before snap (tm_committed (sy_tm s)) x = (x < tm_next_id (sy_tm s1) \<and> finished (sy_tm s0) x)"
    "committed_before snap (tm_committed (sy_tm s0)) x = (x < tm_next_id (sy_tm s1) \<and> finished (sy_tm s0) x)"
    if "clog_base (sy_tm s) \<le> x" for x
  proof -
    have "clog_base (sy_tm s0) \<le> x" using to that by (meson order_trans)
    with snapshot_sees [OF inv0 assms(3,4) le that] snapshot_sees [OF inv0 assms(3) rtranclp.rtrancl_refl le, of x]
    show "committed_before snap (tm_committed (sy_tm s)) x = (x < tm_next_id (sy_tm s1) \<and> finished (sy_tm s0) x)"
      "committed_before snap (tm_committed (sy_tm s0)) x = (x < tm_next_id (sy_tm s1) \<and> finished (sy_tm s0) x)"
      by (simp_all add: assms(5))
  qed
  have early: "x < tm_next_id (sy_tm s1) \<and> finished (sy_tm s0) x" if "clog_base (sy_tm s) \<le> x" "finished (sy_tm s1) x" for x
  proof -
    have "settled s1 x" using finished_settled [OF inv1 that(2)] .
    moreover have "clog_base (sy_tm s0) \<le> x" using to that(1) by (meson order_trans)
    ultimately show ?thesis using to0 that(2) by (auto simp: finished_def settled_def)
  qed
  have all: "x < tm_next_id (sy_tm s1)" if "tm_next_id (sy_tm s0) = tm_next_id (sy_tm s1)" "finished (sy_tm s0) x" for x
    using finished_settled [OF inv0 that(2)] that(1) by (simp add: settled_def)
  have anomaly: "\<exists>v w. sys_steps s1 v \<and> finished (sy_tm v) (tm_next_id (sy_tm s1)) \<and> \<not> tm_is_committed (sy_tm v) i \<and> sys_steps v w \<and> sy_holder w = None \<and>
        committed_before (snapshot_of (tm_next_id (sy_tm s1)) (sy_tm w)) (tm_committed (sy_tm w)) i \<and>
        \<not> committed_before (snapshot_of (tm_next_id (sy_tm s1)) (sy_tm w)) (tm_committed (sy_tm w)) (tm_next_id (sy_tm s1))"
    if "sy_holder s1 = None" "tm_next_id (sy_tm s1) \<noteq> - 1" "sy_phase s1 i = Some Running" "\<not> tm_is_committed (sy_tm s1) i" for i
    using begin_commit_anomaly [OF inv1 that]
    by (intro exI [of _ "sys_begin_commit s1"] exI [of _ "sys_commit (sys_begin_commit s1) i"])
      (simp add: sys_commit_def sys_begin_commit_def Let_def)
  have vis: "visible trx (tm_committed (sy_tm s)) creator deleter = visible trx (tm_committed (sy_tm s0)) creator deleter"
    if "trx_snapshot trx = snap" "clog_base (sy_tm s) \<le> creator" "deleter = 0 \<or> clog_base (sy_tm s) \<le> deleter" for trx creator deleter
    using that sees [of creator] sees [of deleter] by (auto simp: visible_def Let_def)
  show ?thesis
    by (intro conjI allI impI; (elim conjE)?) (use sees early all vis anomaly in \<open>simp_all\<close>, blast+)
qed

text \<open>One transaction is running when the bound is loaded and commits before the open set is read.\<close>

theorem snapshot_is_stable_witness:
  "\<exists>s1 s0. sy_phase s1 1 = Some Running \<and> s0 = sys_commit s1 1 \<and> tm_next_id (sy_tm s1) = 2 \<and>
    committed_before (snapshot_of 2 (sy_tm s0)) (tm_committed (sy_tm s0)) 1 \<and> finished (sy_tm s0) 1 \<and>
    (\<exists>v w. finished (sy_tm v) 2 \<and> \<not> tm_is_committed (sy_tm v) 1 \<and> sys_steps v w \<and>
      committed_before (snapshot_of 2 (sy_tm w)) (tm_committed (sy_tm w)) 1 \<and> \<not> committed_before (snapshot_of 2 (sy_tm w)) (tm_committed (sy_tm w)) 2)"
proof -
  let ?t = "tm_recovered 1 [] 0 False 0 []"
  let ?i0 = "\<lparr>sy_tm = ?t, sy_holder = None, sy_phase = Map.empty\<rparr>"
  let ?i1 = "?i0\<lparr>sy_tm := snd (allocate (sy_tm ?i0)), sy_holder := Some (fst (allocate (sy_tm ?i0)))\<rparr>"
  let ?i2 = "?i1\<lparr>sy_tm := open_insert (sy_tm ?i1) 1, sy_holder := None, sy_phase := (sy_phase ?i1)(1 \<mapsto> Registered)\<rparr>"
  let ?s1 = "?i2\<lparr>sy_tm := tm_ssi_begin (sy_tm ?i2) 1, sy_phase := (sy_phase ?i2)(1 \<mapsto> Running)\<rparr>"
  have t: "tm_next_id ?t = 1" "tm_open ?t = []" "tm_committed ?t = clog_new"
    by (simp_all add: tm_recovered_def extend_committed_def ensure_next_id_at_least_def tm_new_def Let_def advance_base_def clog_new_def)
  have "sys_reachable ?i0" by (rule sy_start) simp_all
  then have "sys_reachable ?i1" by (rule sy_next) (rule sy_take, simp_all add: t)
  then have "sys_reachable ?i2" by (rule sy_next) (rule sy_register, simp add: t)
  then have r: "sys_reachable ?s1" by (rule sy_next) (rule sy_track, simp)
  have st: "sys_steps ?s1 (sys_commit ?s1 1)" by (rule sys_commit_steps) simp_all
  have h: "sy_holder (sys_commit ?s1 1) = None" by (simp add: sys_commit_def)
  have f: "tm_next_id (sy_tm ?s1) = 2" "finished (sy_tm (sys_commit ?s1 1)) 1" "\<not> tm_is_committed (sy_tm ?s1) 1"
    "clog_base (sy_tm (sys_commit ?s1 1)) \<le> 1"
    by (simp_all add: t finished_def sys_commit_def tm_is_committed_def is_committed_set mark_committed_spec clog_base_def)
  note main = snapshot_is_stable [OF r st h rtranclp.rtrancl_refl refl, unfolded f(1)]
  have "(1 :: u64) < 2" "(2 :: u64) \<noteq> - 1" by simp_all
  with main f have "committed_before (snapshot_of 2 (sy_tm (sys_commit ?s1 1))) (tm_committed (sy_tm (sys_commit ?s1 1))) 1" by blast
  moreover have "sy_holder ?s1 = None" "sy_phase ?s1 1 = Some Running" by simp_all
  moreover from main f(3) \<open>2 \<noteq> - 1\<close> this have "\<exists>v w. finished (sy_tm v) 2 \<and> \<not> tm_is_committed (sy_tm v) 1 \<and> sys_steps v w \<and>
      committed_before (snapshot_of 2 (sy_tm w)) (tm_committed (sy_tm w)) 1 \<and> \<not> committed_before (snapshot_of 2 (sy_tm w)) (tm_committed (sy_tm w)) 2"
    by blast
  ultimately show ?thesis using f(1,2) by blast
qed

text \<open>
  Transaction ids are fresh. In a reachable state the next id is positive, not open, not committed and not in use, and it is larger than every id handed
  out before.
\<close>

lemma transaction_ids_fresh:
  assumes "sys_reachable s0" "sys_steps s0 s" "sy_holder s0 = Some i"
  shows "i < tm_next_id (sy_tm s) \<and> tm_next_id (sy_tm s) \<notin> set (tm_open (sy_tm s)) \<and> sy_phase s (tm_next_id (sy_tm s)) = None \<and>
    \<not> tm_is_committed (sy_tm s) (tm_next_id (sy_tm s))"
proof -
  note inv = sys_inv_reachable [OF assms(1)]
  have "i < tm_next_id (sy_tm s0)" using inv assms(3) by (simp add: sys_inv_def)
  with sys_steps_settled [OF assms(2) inv] show ?thesis
    by (auto simp: sys_inv_def tm_is_committed_def is_committed_set)
qed

end
