(* ===== verification/Lockmgr.thy ===== *)
theory Lockmgr
  imports Table_Storage "HOL-Library.AList"
begin

section \<open>The row lock manager\<close>

text \<open>
  \<open>src/src/db/lockmgr.rs\<close>: exclusive row locks with FIFO hand-off, a wait timeout and deadlock detection.
  \<open>lock_table\<close> is \<open>Table\<close>. A blocking \<open>lock\<close> releases the mutex only while it waits on the condition
  variable, so it is one step that requests (\<open>lock_request\<close>) and one step per turn of its loop
  (\<open>lock_poll\<close>), whose elapsed time is an argument; \<open>lm_step\<close> interleaves the steps of all owners, and \<open>lock_call\<close> is a whole call. Times are in
  nanoseconds. The lemmas show mutual exclusion and the consistency of the three maps in every
  reachable state, FIFO hand-off, exact deadlock detection and that every call ends.
\<close>

datatype lock_key = Key (key_table: string) (key_rid: rid)

record lock_entry =
  lk_holder :: "u64 option"
  lk_waiters :: "u64 list"

record lock_table =
  lt_locks :: "lock_key \<rightharpoonup> lock_entry"
  lt_held :: "u64 \<rightharpoonup> lock_key list"
  lt_waiting :: "(u64 \<times> lock_key) list"

record lock_manager =
  lm_timeout :: nat
  lm_deadlock_timeout :: nat

definition from_millis :: "u64 \<Rightarrow> nat" where
  "from_millis ms = unat ms * 1000000"

definition lock_manager_new :: "u64 \<Rightarrow> u64 \<Rightarrow> lock_manager" where
  "lock_manager_new timeout_ms deadlock_timeout_ms =
     \<lparr>lm_timeout = from_millis timeout_ms, lm_deadlock_timeout = from_millis deadlock_timeout_ms\<rparr>"

definition lock_table_new :: lock_table where
  "lock_table_new = \<lparr>lt_locks = Map.empty, lt_held = Map.empty, lt_waiting = []\<rparr>"

definition holder_of :: "lock_table \<Rightarrow> lock_key \<Rightarrow> u64 option" where
  "holder_of t key = Option.bind (lt_locks t key) lk_holder"

definition hold :: "u64 \<Rightarrow> lock_key \<Rightarrow> lock_table \<Rightarrow> lock_table" where
  "hold owner key t = t\<lparr>lt_held := (lt_held t)(owner \<mapsto> hs_insert key (or_default (lt_held t owner)))\<rparr>"

text \<open>The part of \<open>lock\<close> before its loop; true when it returned at once.\<close>

definition lock_request :: "lock_table \<Rightarrow> u64 \<Rightarrow> lock_key \<Rightarrow> bool \<times> lock_table" where
  "lock_request t owner key =
     (case lt_locks t key of
        None \<Rightarrow> (True, hold owner key (t\<lparr>lt_locks := (lt_locks t)(key \<mapsto> \<lparr>lk_holder = Some owner, lk_waiters = []\<rparr>)\<rparr>))
      | Some e \<Rightarrow>
          (case lk_holder e of
             Some h \<Rightarrow>
               if h = owner then (True, t)
               else (False, t\<lparr>lt_locks := (lt_locks t)(key \<mapsto> e\<lparr>lk_waiters := lk_waiters e @ [owner]\<rparr>),
                              lt_waiting := AList.update owner key (lt_waiting t)\<rparr>)
           | None \<Rightarrow> (True, hold owner key (t\<lparr>lt_locks := (lt_locks t)(key \<mapsto> e\<lparr>lk_holder := Some owner\<rparr>)\<rparr>))))"

definition lock_abort :: "lock_table \<Rightarrow> u64 \<Rightarrow> lock_key \<Rightarrow> lock_table" where
  "lock_abort t owner key =
     (let t = (case lt_locks t key of
                 None \<Rightarrow> t
               | Some e \<Rightarrow> t\<lparr>lt_locks := (lt_locks t)(key \<mapsto> e\<lparr>lk_waiters := filter (\<lambda>w. w \<noteq> owner) (lk_waiters e)\<rparr>)\<rparr>)
      in t\<lparr>lt_waiting := AList.delete owner (lt_waiting t)\<rparr>)"

fun cycle_walk :: "lock_table \<Rightarrow> u64 \<Rightarrow> nat \<Rightarrow> u64 \<Rightarrow> bool" where
  "cycle_walk t start 0 cur = False"
| "cycle_walk t start (Suc n) cur =
     (case map_of (lt_waiting t) cur of
        None \<Rightarrow> False
      | Some key \<Rightarrow>
          (case holder_of t key of
             None \<Rightarrow> False
           | Some h \<Rightarrow> if h = start then True else cycle_walk t start n h))"

definition in_cycle :: "lock_table \<Rightarrow> u64 \<Rightarrow> bool" where
  "in_cycle t start = cycle_walk t start (length (lt_waiting t) + 1) start"

datatype poll = Granted | Failed error | Again (checked_deadlock: bool) (wait_for: nat)

text \<open>One turn of the loop in \<open>lock\<close>, up to the wait.\<close>

definition lock_poll :: "lock_manager \<Rightarrow> lock_table \<Rightarrow> u64 \<Rightarrow> lock_key \<Rightarrow> nat \<Rightarrow> bool \<Rightarrow> poll \<times> lock_table" where
  "lock_poll m t owner key elapsed checked =
     (if holder_of t key = Some owner then (Granted, t\<lparr>lt_waiting := AList.delete owner (lt_waiting t)\<rparr>)
      else if lm_timeout m \<le> elapsed then (Failed (Runtime ''lock wait timeout''), lock_abort t owner key)
      else
        let check = \<not> checked \<and> lm_deadlock_timeout m \<le> elapsed in
        if check \<and> in_cycle t owner then (Failed (Runtime ''deadlock detected''), lock_abort t owner key)
        else
          let checked = checked \<or> check; remaining = lm_timeout m - elapsed;
              wait = (if checked then remaining else min remaining (lm_deadlock_timeout m))
          in (Again checked (max wait 1000000), t))"

text \<open>
  A whole call of \<open>lock\<close> by one owner. Its environment is what it sees: \<open>now 0\<close> is the clock when the wait starts and \<open>now (Suc k)\<close> the clock in
  turn \<open>k\<close> of the loop, and \<open>seen k\<close> is the table it finds when it gets the mutex back for turn \<open>k\<close>. Not returning is \<open>None\<close>.
\<close>

partial_function (option) lock_wait ::
  "lock_manager \<Rightarrow> u64 \<Rightarrow> lock_key \<Rightarrow> (nat \<Rightarrow> nat) \<Rightarrow> (nat \<Rightarrow> lock_table) \<Rightarrow> bool \<Rightarrow> nat \<Rightarrow> (unit result \<times> lock_table) option" where
  "lock_wait m owner key now seen checked k =
     (case lock_poll m (seen k) owner key (now (Suc k) - now 0) checked of
        (Granted, t) \<Rightarrow> Some (Ok (), t)
      | (Failed e, t) \<Rightarrow> Some (Err e, t)
      | (Again checked _, _) \<Rightarrow> lock_wait m owner key now seen checked (Suc k))"

definition lock_call ::
  "lock_manager \<Rightarrow> u64 \<Rightarrow> lock_key \<Rightarrow> (nat \<Rightarrow> nat) \<Rightarrow> (nat \<Rightarrow> lock_table) \<Rightarrow> lock_table \<Rightarrow> (unit result \<times> lock_table) option" where
  "lock_call m owner key now seen t =
     (case lock_request t owner key of
        (True, t) \<Rightarrow> Some (Ok (), t)
      | (False, t) \<Rightarrow> lock_wait m owner key now (seen(0 := t)) False 0)"

definition release_key :: "lock_key \<Rightarrow> lock_table \<Rightarrow> lock_table" where
  "release_key key t =
     (case lt_locks t key of
        None \<Rightarrow> t
      | Some e \<Rightarrow>
          (case lk_waiters e of
             [] \<Rightarrow> t\<lparr>lt_locks := (lt_locks t)(key := None)\<rparr>
           | next # ws \<Rightarrow>
               hold next key (t\<lparr>lt_locks := (lt_locks t)(key \<mapsto> e\<lparr>lk_holder := Some next, lk_waiters := ws\<rparr>)\<rparr>)))"

definition unlock_all :: "lock_table \<Rightarrow> u64 \<Rightarrow> lock_table" where
  "unlock_all t owner =
     (case lt_held t owner of
        None \<Rightarrow> t
      | Some keys \<Rightarrow> fold release_key keys (t\<lparr>lt_held := (lt_held t)(owner := None)\<rparr>))"

subsection \<open>Interleaved execution\<close>

text \<open>The state of all owners: the table and, for each owner blocked in \<open>lock\<close>, its key and its flag.\<close>

record lm_state =
  lm_table :: lock_table
  lm_calls :: "u64 \<rightharpoonup> lock_key \<times> bool"

inductive lm_step :: "lock_manager \<Rightarrow> lm_state \<Rightarrow> lm_state \<Rightarrow> bool" for m where
  step_lock: "lm_calls s owner = None \<Longrightarrow> lock_request (lm_table s) owner key = (granted, t) \<Longrightarrow>
    lm_step m s \<lparr>lm_table = t, lm_calls = (if granted then lm_calls s else (lm_calls s)(owner \<mapsto> (key, False)))\<rparr>"
| step_poll: "lm_calls s owner = Some (key, checked) \<Longrightarrow> lock_poll m (lm_table s) owner key elapsed checked = (r, t) \<Longrightarrow>
    lm_step m s \<lparr>lm_table = t,
      lm_calls = (case r of Again c _ \<Rightarrow> (lm_calls s)(owner \<mapsto> (key, c)) | _ \<Rightarrow> (lm_calls s)(owner := None))\<rparr>"
| step_unlock: "lm_calls s owner = None \<Longrightarrow>
    lm_step m s \<lparr>lm_table = unlock_all (lm_table s) owner, lm_calls = lm_calls s\<rparr>"

inductive lm_reachable :: "lock_manager \<Rightarrow> lm_state \<Rightarrow> bool" for m where
  lm_init: "lm_reachable m \<lparr>lm_table = lock_table_new, lm_calls = Map.empty\<rparr>"
| lm_next: "lm_reachable m s \<Longrightarrow> lm_step m s s' \<Longrightarrow> lm_reachable m s'"

inductive_cases lm_stepE: "lm_step m s s'"

subsection \<open>The invariant\<close>

text \<open>
  The three maps agree: \<open>held\<close> lists exactly the keys an owner holds, an entry always has a holder,
  the waiters of an entry are exactly the owners blocked on its key that were not handed the lock,
  and \<open>waiting\<close> is the map of blocked owners.
\<close>

definition lm_inv :: "lm_state \<Rightarrow> bool" where
  "lm_inv s \<longleftrightarrow>
     (\<forall>o' k. k \<in> set (or_default (lt_held (lm_table s) o')) \<longleftrightarrow> holder_of (lm_table s) k = Some o') \<and>
     (\<forall>o'. distinct (or_default (lt_held (lm_table s) o'))) \<and>
     (\<forall>k e. lt_locks (lm_table s) k = Some e \<longrightarrow> lk_holder e \<noteq> None \<and> distinct (lk_waiters e) \<and>
        (\<forall>w. w \<in> set (lk_waiters e) \<longleftrightarrow> lk_holder e \<noteq> Some w \<and> (\<exists>c. lm_calls s w = Some (k, c)))) \<and>
     (\<forall>o'. map_of (lt_waiting (lm_table s)) o' = map_option fst (lm_calls s o')) \<and>
     (\<forall>o' k c. lm_calls s o' = Some (k, c) \<longrightarrow> lt_locks (lm_table s) k \<noteq> None)"

lemma lm_state_eta [simp]: "\<lparr>lm_table = lm_table s, lm_calls = lm_calls s\<rparr> = s"
  by (cases s) simp

lemma lm_invI:
  assumes "\<And>o' k. k \<in> set (or_default (lt_held (lm_table s) o')) \<longleftrightarrow> holder_of (lm_table s) k = Some o'"
    and "\<And>o'. distinct (or_default (lt_held (lm_table s) o'))"
    and "\<And>k e. lt_locks (lm_table s) k = Some e \<Longrightarrow> lk_holder e \<noteq> None"
    and "\<And>k e. lt_locks (lm_table s) k = Some e \<Longrightarrow> distinct (lk_waiters e)"
    and "\<And>k e w. lt_locks (lm_table s) k = Some e \<Longrightarrow>
        w \<in> set (lk_waiters e) \<longleftrightarrow> lk_holder e \<noteq> Some w \<and> (\<exists>c. lm_calls s w = Some (k, c))"
    and "\<And>o'. map_of (lt_waiting (lm_table s)) o' = map_option fst (lm_calls s o')"
    and "\<And>o' k c. lm_calls s o' = Some (k, c) \<Longrightarrow> lt_locks (lm_table s) k \<noteq> None"
  shows "lm_inv s"
  using assms unfolding lm_inv_def by blast

lemma lm_invD:
  assumes "lm_inv s"
  shows "k \<in> set (or_default (lt_held (lm_table s) o')) \<longleftrightarrow> holder_of (lm_table s) k = Some o'"
    and "distinct (or_default (lt_held (lm_table s) o'))"
    and "lt_locks (lm_table s) k = Some e \<Longrightarrow> lk_holder e \<noteq> None"
    and "lt_locks (lm_table s) k = Some e \<Longrightarrow> distinct (lk_waiters e)"
    and "lt_locks (lm_table s) k = Some e \<Longrightarrow>
        w \<in> set (lk_waiters e) \<longleftrightarrow> lk_holder e \<noteq> Some w \<and> (\<exists>c. lm_calls s w = Some (k, c))"
    and "map_of (lt_waiting (lm_table s)) o' = map_option fst (lm_calls s o')"
    and "lm_calls s o' = Some (k, c) \<Longrightarrow> \<exists>e. lt_locks (lm_table s) k = Some e"
  using assms unfolding lm_inv_def by blast+

lemma hold_fields [simp]:
  "lt_locks (hold o' k t) = lt_locks t" "lt_waiting (hold o' k t) = lt_waiting t"
  "or_default (lt_held (hold o' k t) x) = (if x = o' then hs_insert k (or_default (lt_held t o')) else or_default (lt_held t x))"
  by (simp_all add: hold_def)

definition handoff :: "lock_entry \<Rightarrow> lock_entry option" where
  "handoff e = (case lk_waiters e of [] \<Rightarrow> None | w # ws \<Rightarrow> Some (e\<lparr>lk_holder := Some w, lk_waiters := ws\<rparr>))"

lemma handoff_Some:
  "handoff e = Some e' \<longleftrightarrow> (\<exists>w ws. lk_waiters e = w # ws \<and> e' = e\<lparr>lk_holder := Some w, lk_waiters := ws\<rparr>)"
  by (auto simp: handoff_def split: list.splits)

lemma release_key_fields:
  "lt_locks (release_key key t) = (lt_locks t)(key := Option.bind (lt_locks t key) handoff)"
  "lt_waiting (release_key key t) = lt_waiting t"
  "set (or_default (lt_held (release_key key t) x)) = set (or_default (lt_held t x)) \<union>
     {k. k = key \<and> (\<exists>e ws. lt_locks t k = Some e \<and> lk_waiters e = x # ws)}"
  "distinct (or_default (lt_held (release_key key t) x)) = distinct (or_default (lt_held t x))"
  by (auto simp: release_key_def handoff_def fun_eq_iff split: option.split list.split)

lemma release_keys_fields:
  assumes "distinct keys" "t' = fold release_key keys t"
  shows "lt_locks t' = (\<lambda>k. if k \<in> set keys then Option.bind (lt_locks t k) handoff else lt_locks t k) \<and>
    lt_waiting t' = lt_waiting t \<and>
    (\<forall>x. set (or_default (lt_held t' x)) = set (or_default (lt_held t x)) \<union>
       {k \<in> set keys. \<exists>e ws. lt_locks t k = Some e \<and> lk_waiters e = x # ws}) \<and>
    (\<forall>x. distinct (or_default (lt_held t' x)) = distinct (or_default (lt_held t x)))"
  using assms
proof (induction keys arbitrary: t)
  case (Cons k keys)
  from Cons.IH [of "release_key k t"] Cons.prems show ?case
    by (auto simp: release_key_fields fun_eq_iff)
qed (simp add: fun_eq_iff)

lemma lm_inv_unlock:
  assumes inv: "lm_inv s" and free: "lm_calls s owner = None"
  shows "lm_inv \<lparr>lm_table = unlock_all (lm_table s) owner, lm_calls = lm_calls s\<rparr>"
proof (cases "lt_held (lm_table s) owner")
  case None
  with inv show ?thesis by (simp add: unlock_all_def)
next
  case (Some keys)
  let ?t = "lm_table s" and ?t' = "unlock_all (lm_table s) owner"
  note D = lm_invD [OF inv]
  have keys: "k \<in> set keys \<longleftrightarrow> holder_of ?t k = Some owner" for k
    using D(1) [of k owner] Some by simp
  have t': "?t' = fold release_key keys (?t\<lparr>lt_held := (lt_held ?t)(owner := None)\<rparr>)"
    by (simp add: unlock_all_def Some)
  have "distinct keys" using D(2) [of owner] Some by simp
  note R = release_keys_fields [OF this t', simplified]
  have locks: "lt_locks ?t' k = (if k \<in> set keys then Option.bind (lt_locks ?t k) handoff else lt_locks ?t k)" for k
    using R by simp
  have notw: "owner \<notin> set (lk_waiters e)" if "lt_locks ?t k = Some e" for k e
    using D(5) [OF that] free by simp
  have held: "k \<in> set (or_default (lt_held ?t' x)) \<longleftrightarrow> (x \<noteq> owner \<and> holder_of ?t k = Some x) \<or>
      (k \<in> set keys \<and> (\<exists>e ws. lt_locks ?t k = Some e \<and> lk_waiters e = x # ws))" for k x
    using R D(1) [of k x] by auto
  show ?thesis
  proof (rule lm_invI; simp only: lm_state.simps)
    show "k \<in> set (or_default (lt_held ?t' x)) \<longleftrightarrow> holder_of ?t' k = Some x" for x k
    proof (cases "lt_locks ?t k")
      case (Some e)
      with notw [OF Some] show ?thesis
        unfolding held keys by (auto simp: holder_of_def locks keys handoff_def split: list.splits)
    qed (simp add: held keys holder_of_def locks)
    show "distinct (or_default (lt_held ?t' x))" for x
      using R D(2) [of x] by simp
    fix k e assume e: "lt_locks ?t' k = Some e"
    then obtain e0 where e0: "lt_locks ?t k = Some e0" by (auto simp: locks bind_eq_Some_conv split: if_splits)
    show "lk_holder e \<noteq> None"
      using e D(3) by (auto simp: locks handoff_Some bind_eq_Some_conv split: if_splits)
    show "distinct (lk_waiters e)"
      using e D(4) by (fastforce simp: locks handoff_Some bind_eq_Some_conv split: if_splits)
    show "w \<in> set (lk_waiters e) \<longleftrightarrow> lk_holder e \<noteq> Some w \<and> (\<exists>c. lm_calls s w = Some (k, c))" for w
    proof (cases "k \<in> set keys")
      case False
      with e D(5) show ?thesis by (simp add: locks)
    next
      case True
      then have h: "lk_holder e0 = Some owner" using keys e0 by (simp add: holder_of_def)
      obtain n where n: "lk_waiters e0 = n # lk_waiters e" "lk_holder e = Some n"
        using e True e0 by (auto simp: locks handoff_def split: list.splits)
      with D(4,5) [OF e0] h free show ?thesis by (metis distinct.simps(2) option.inject option.distinct(1) set_ConsD list.set_intros)
    qed
  next
    show "map_of (lt_waiting ?t') x = map_option fst (lm_calls s x)" for x
      using R D(6) by simp
    fix x k c assume c: "lm_calls s x = Some (k, c)"
    then obtain e where e: "lt_locks ?t k = Some e" using D(7) by blast
    have "lk_waiters e \<noteq> []" if "k \<in> set keys"
    proof -
      have "lk_holder e = Some owner" "x \<noteq> owner" using that keys e c free by (auto simp: holder_of_def)
      with D(5) [OF e, of x] c show ?thesis by auto
    qed
    with e show "lt_locks ?t' k \<noteq> None" by (auto simp: locks handoff_def split: list.splits)
  qed
qed

lemma lm_inv_lock:
  assumes inv: "lm_inv s" and free: "lm_calls s owner = None" and req: "lock_request (lm_table s) owner key = (granted, t)"
  shows "lm_inv \<lparr>lm_table = t, lm_calls = (if granted then lm_calls s else (lm_calls s)(owner \<mapsto> (key, False)))\<rparr>"
proof (cases "lt_locks (lm_table s) key")
  case None
  note D = lm_invD [OF inv]
  have "t = hold owner key ((lm_table s)\<lparr>lt_locks := (lt_locks (lm_table s))(key \<mapsto> \<lparr>lk_holder = Some owner, lk_waiters = []\<rparr>)\<rparr>)" "granted"
    using req None by (auto simp: lock_request_def)
  moreover have "lm_calls s w \<noteq> Some (key, c)" for w c using D(7) [of w key c] None by auto
  ultimately show ?thesis
    using D None by (intro lm_invI) (auto simp: holder_of_def split: if_splits)
next
  case (Some e)
  note D = lm_invD [OF inv]
  obtain h where h: "lk_holder e = Some h" using D(3) [OF Some] by blast
  show ?thesis
  proof (cases "h = owner")
    case True
    with req Some h inv show ?thesis by (auto simp: lock_request_def)
  next
    case False
    then have t: "t = (lm_table s)\<lparr>lt_locks := (lt_locks (lm_table s))(key \<mapsto> e\<lparr>lk_waiters := lk_waiters e @ [owner]\<rparr>),
        lt_waiting := AList.update owner key (lt_waiting (lm_table s))\<rparr>" "\<not> granted"
      using req Some h by (auto simp: lock_request_def)
    have "owner \<notin> set (lk_waiters e)" using D(5) [OF Some] free by simp
    then show ?thesis
      using D Some h False free by (intro lm_invI) (auto simp: t holder_of_def update_conv' split: if_splits)
  qed
qed

lemma lm_inv_poll:
  assumes inv: "lm_inv s" and call: "lm_calls s owner = Some (key, checked)"
    and poll: "lock_poll m (lm_table s) owner key elapsed checked = (r, t)"
  shows "lm_inv \<lparr>lm_table = t,
      lm_calls = (case r of Again c _ \<Rightarrow> (lm_calls s)(owner \<mapsto> (key, c)) | _ \<Rightarrow> (lm_calls s)(owner := None))\<rparr>"
proof -
  note D = lm_invD [OF inv]
  from D(7) [OF call] obtain e where e: "lt_locks (lm_table s) key = Some e" by blast
  consider "holder_of (lm_table s) key = Some owner" "r = Granted"
      "t = (lm_table s)\<lparr>lt_waiting := AList.delete owner (lt_waiting (lm_table s))\<rparr>"
    | err where "holder_of (lm_table s) key \<noteq> Some owner" "r = Failed err" "t = lock_abort (lm_table s) owner key"
    | c n where "r = Again c n" "t = lm_table s"
    using poll by (auto simp: lock_poll_def Let_def split: if_splits)
  then show ?thesis
  proof cases
    case 1
    then have h: "lk_holder e = Some owner" by (simp add: holder_of_def e)
    show ?thesis
    proof (rule lm_invI; simp only: lm_state.simps)
      fix k e' w assume e': "lt_locks t k = Some e'"
      then show "w \<in> set (lk_waiters e') \<longleftrightarrow> lk_holder e' \<noteq> Some w \<and>
        (\<exists>c. (case r of Again c _ \<Rightarrow> (lm_calls s)(owner \<mapsto> (key, c)) | _ \<Rightarrow> (lm_calls s)(owner := None)) w = Some (k, c))"
        using D(5) [of k e' w] call h e 1 by (cases "k = key") auto
    qed (use D 1 in \<open>auto simp: delete_conv' holder_of_def split: if_splits\<close>)
  next
    case 2
    then have t: "t = (lm_table s)\<lparr>lt_locks := (lt_locks (lm_table s))(key \<mapsto> e\<lparr>lk_waiters := filter (\<lambda>w. w \<noteq> owner) (lk_waiters e)\<rparr>),
        lt_waiting := AList.delete owner (lt_waiting (lm_table s))\<rparr>"
      by (simp add: lock_abort_def e)
    show ?thesis
    proof (rule lm_invI; simp only: lm_state.simps)
      fix k e' w assume e': "lt_locks t k = Some e'"
      then show "w \<in> set (lk_waiters e') \<longleftrightarrow> lk_holder e' \<noteq> Some w \<and>
        (\<exists>c. (case r of Again c _ \<Rightarrow> (lm_calls s)(owner \<mapsto> (key, c)) | _ \<Rightarrow> (lm_calls s)(owner := None)) w = Some (k, c))"
        using D(5) [of k e' w] D(5) [OF e, of w] call e 2(1,2) t by (cases "k = key") auto
    qed (use D e 2(1,2) t in \<open>auto simp: delete_conv' holder_of_def split: if_splits\<close>)
  next
    case 3
    with D call show ?thesis by (intro lm_invI) (auto split: if_splits)
  qed
qed

lemma lm_inv_reachable: "lm_reachable m s \<Longrightarrow> lm_inv s"
proof (induction rule: lm_reachable.induct)
  case lm_init
  show ?case by (rule lm_invI) (simp_all add: lock_table_new_def holder_of_def)
next
  case (lm_next s s')
  from lm_next(2) show ?case
    by (rule lm_stepE) (use lm_next(3) lm_inv_lock lm_inv_poll lm_inv_unlock in auto)
qed

subsection \<open>Deadlock detection\<close>

text \<open>Who waits for whom: a blocked owner waits for the holder of its key.\<close>

definition waits_for :: "lock_table \<Rightarrow> u64 rel" where
  "waits_for t = {(a, b). Option.bind (map_of (lt_waiting t) a) (holder_of t) = Some b}"

lemma waits_for_det: "(a, b) \<in> waits_for t \<Longrightarrow> (a, c) \<in> waits_for t \<longleftrightarrow> c = b"
  by (auto simp: waits_for_def)

lemma card_waits_for: "finite (waits_for t) \<and> card (waits_for t) \<le> length (lt_waiting t)"
proof -
  let ?f = "\<lambda>a. (a, the (Option.bind (map_of (lt_waiting t) a) (holder_of t)))"
  have sub: "waits_for t \<subseteq> ?f ` fst ` set (lt_waiting t)"
    by (force simp: waits_for_def bind_eq_Some_conv dest: map_of_SomeD)
  have "card (?f ` fst ` set (lt_waiting t)) \<le> length (lt_waiting t)"
    by (meson card_image_le card_length finite_imageI finite_set order_trans)
  with card_mono [OF _ sub] finite_subset [OF sub] show ?thesis by auto
qed

lemma cycle_walk_iff: "cycle_walk t start n cur \<longleftrightarrow> (\<exists>i<n. (cur, start) \<in> waits_for t ^^ Suc i)"
proof (induction n arbitrary: cur)
  case (Suc n)
  show ?case
  proof (cases "Option.bind (map_of (lt_waiting t) cur) (holder_of t)")
    case None
    then have "(cur, b) \<notin> waits_for t" for b by (simp add: waits_for_def)
    then have "(cur, start) \<notin> waits_for t ^^ Suc i" for i by (metis relpow_Suc_D2)
    moreover have "\<not> cycle_walk t start (Suc n) cur"
      using None by (auto split: option.splits)
    ultimately show ?thesis by blast
  next
    case (Some h)
    then have h: "(cur, h) \<in> waits_for t" by (simp add: waits_for_def)
    have step: "(cur, start) \<in> waits_for t ^^ Suc i \<longleftrightarrow> (h, start) \<in> waits_for t ^^ i" for i
      using waits_for_det [OF h] by (metis h relpow_Suc_D2 relpow_Suc_I2)
    have "cycle_walk t start (Suc n) cur \<longleftrightarrow> h = start \<or> cycle_walk t start n h"
      using Some by (auto simp: bind_eq_Some_conv split: option.splits)
    also have "\<dots> \<longleftrightarrow> (\<exists>i<Suc n. (h, start) \<in> waits_for t ^^ i)"
      unfolding Suc.IH by (subst Ex_less_Suc2) (auto simp: eq_commute)
    finally show ?thesis by (simp only: step)
  qed
qed simp

lemma in_cycle_iff: "in_cycle t o' \<longleftrightarrow> (o', o') \<in> (waits_for t)\<^sup>+"
proof
  show "(o', o') \<in> (waits_for t)\<^sup>+" if "in_cycle t o'"
    using that unfolding in_cycle_def cycle_walk_iff trancl_power by blast
  show "in_cycle t o'" if "(o', o') \<in> (waits_for t)\<^sup>+"
  proof -
    note fin = conjunct1 [OF card_waits_for [of t]]
    from that obtain n where "0 < n" "n \<le> card (waits_for t)" "(o', o') \<in> waits_for t ^^ n"
      unfolding trancl_finite_eq_relpow [OF fin] by blast
    then show ?thesis
      unfolding in_cycle_def cycle_walk_iff using card_waits_for [of t]
      by (intro exI [of _ "n - 1"]) auto
  qed
qed

text \<open>
  C11: Row locks are exclusive and nobody is lost. In every state that any interleaving of lock
  requests, wait-loop turns (at any elapsed times) and releases can reach: a row is held by at most one owner, and
  \<open>held\<close> lists exactly the rows each owner holds, once each; every lock entry has a holder; the
  queue of an entry has no duplicates and holds exactly the owners blocked on that row that have not been handed it, so no
  blocked owner is missing from its queue and no owner that gave up is left in one; and the \<open>waiting\<close> map
  is exactly the map of blocked owners.
\<close>

theorem lock_manager_safe:
  assumes "lm_reachable m s"
  shows "(\<forall>a b k. k \<in> set (or_default (lt_held (lm_table s) a)) \<and> k \<in> set (or_default (lt_held (lm_table s) b)) \<longrightarrow> a = b) \<and>
    (\<forall>a k. k \<in> set (or_default (lt_held (lm_table s) a)) \<longleftrightarrow> holder_of (lm_table s) k = Some a) \<and>
    (\<forall>a. distinct (or_default (lt_held (lm_table s) a))) \<and>
    (\<forall>k e. lt_locks (lm_table s) k = Some e \<longrightarrow> lk_holder e \<noteq> None \<and> distinct (lk_waiters e) \<and>
       (\<forall>w. w \<in> set (lk_waiters e) \<longleftrightarrow> lk_holder e \<noteq> Some w \<and> (\<exists>c. lm_calls s w = Some (k, c)))) \<and>
    (\<forall>a. map_of (lt_waiting (lm_table s)) a = map_option fst (lm_calls s a)) \<and>
    (\<forall>a k c. lm_calls s a = Some (k, c) \<longrightarrow> lt_locks (lm_table s) k \<noteq> None)"
  using lm_inv_reachable [OF assms] unfolding lm_inv_def by (auto simp: holder_of_def)

text \<open>Two owners asking for the same row: the second one blocks.\<close>

definition contended :: lm_state where
  "contended =
     (let key = Key ''t'' (Rid 0 0); t = snd (lock_request lock_table_new 1 key) in
      \<lparr>lm_table = snd (lock_request t 2 key), lm_calls = [2 \<mapsto> (key, False)]\<rparr>)"

lemma contended_reachable: "lm_reachable m contended"
proof -
  let ?k = "Key ''t'' (Rid 0 0)" and ?s0 = "\<lparr>lm_table = lock_table_new, lm_calls = Map.empty\<rparr>"
  let ?t1 = "snd (lock_request lock_table_new 1 ?k)"
  have 1: "lm_reachable m \<lparr>lm_table = ?t1, lm_calls = Map.empty\<rparr>"
    using lm_next [OF lm_init step_lock [of ?s0 1 ?k True ?t1]]
    by (simp add: lock_request_def lock_table_new_def)
  have "lm_step m \<lparr>lm_table = ?t1, lm_calls = Map.empty\<rparr> contended"
    using step_lock [of "\<lparr>lm_table = ?t1, lm_calls = Map.empty\<rparr>" 2 ?k False "snd (lock_request ?t1 2 ?k)" m]
    by (simp add: contended_def Let_def lock_request_def lock_table_new_def hold_def)
  with 1 show ?thesis by (rule lm_next)
qed

theorem lock_manager_safe_witness:
  "holder_of (lm_table contended) (Key ''t'' (Rid 0 0)) = Some 1 \<and> map_of (lt_waiting (lm_table contended)) 2 = Some (Key ''t'' (Rid 0 0))"
proof
  from lock_manager_safe [OF contended_reachable]
  have "map_of (lt_waiting (lm_table contended)) 2 = map_option fst (lm_calls contended 2)" by blast
  then show "map_of (lt_waiting (lm_table contended)) 2 = Some (Key ''t'' (Rid 0 0))" by (simp add: contended_def Let_def)
  show "holder_of (lm_table contended) (Key ''t'' (Rid 0 0)) = Some 1"
    by (simp add: contended_def Let_def holder_of_def lock_request_def lock_table_new_def hold_def)
qed

text \<open>
  C12: Deadlock detection is exact. The bounded walk of \<open>in_cycle\<close> answers true exactly when the owner
  waits, directly or through others, for itself; its bound of one more than the number of waiting owners
  loses no cycle.
\<close>

theorem deadlock_check_exact: "in_cycle t owner \<longleftrightarrow> (owner, owner) \<in> (waits_for t)\<^sup>+"
  by (rule in_cycle_iff)

text \<open>
  Releasing hands every row to its longest waiter. In a reachable state, after an owner that
  is not blocked releases its locks it holds nothing; each row it held goes to the front of its queue,
  the rest of the queue keeping its order, or becomes free when nobody waits; rows of others are untouched;
  and the next turn of the new holder's loop returns success whatever time has passed.
\<close>

lemma unlock_hands_off_fifo:
  assumes "lm_reachable m s" "lm_calls s owner = None" "t = unlock_all (lm_table s) owner"
  shows "(\<forall>k. holder_of t k \<noteq> Some owner) \<and>
    (\<forall>k e. lt_locks (lm_table s) k = Some e \<longrightarrow>
       lt_locks t k = (if lk_holder e = Some owner
         then (case lk_waiters e of [] \<Rightarrow> None | w # ws \<Rightarrow> Some (e\<lparr>lk_holder := Some w, lk_waiters := ws\<rparr>))
         else Some e)) \<and>
    (\<forall>k e w ws elapsed checked. lt_locks (lm_table s) k = Some e \<and> lk_holder e = Some owner \<and> lk_waiters e = w # ws \<longrightarrow>
       fst (lock_poll m t w k elapsed checked) = Granted)"
proof -
  let ?t = "lm_table s"
  note D = lm_invD [OF lm_inv_reachable [OF assms(1)]]
  have locks: "lt_locks t k = (if holder_of ?t k = Some owner then Option.bind (lt_locks ?t k) handoff else lt_locks ?t k)" for k
  proof (cases "lt_held ?t owner")
    case None
    with D(1) [of k owner] assms(3) show ?thesis by (simp add: unlock_all_def)
  next
    case (Some keys)
    have t: "t = fold release_key keys (?t\<lparr>lt_held := (lt_held ?t)(owner := None)\<rparr>)"
      by (simp add: unlock_all_def Some assms(3))
    have "distinct keys" "k \<in> set keys \<longleftrightarrow> holder_of ?t k = Some owner"
      using D(1) [of k owner] D(2) [of owner] Some by simp_all
    with release_keys_fields [OF _ t] show ?thesis by simp
  qed
  have e: "lt_locks t k = (if lk_holder e = Some owner
         then (case lk_waiters e of [] \<Rightarrow> None | w # ws \<Rightarrow> Some (e\<lparr>lk_holder := Some w, lk_waiters := ws\<rparr>)) else Some e)"
    if "lt_locks ?t k = Some e" for k e
    using that by (simp add: locks holder_of_def handoff_def)
  have "holder_of t k \<noteq> Some owner" for k
  proof (cases "lt_locks ?t k")
    case (Some e0)
    have "owner \<notin> set (lk_waiters e0)" using D(5) [OF Some] assms(2) by simp
    with e [OF Some] show ?thesis by (auto simp: holder_of_def split: list.splits)
  qed (simp add: locks holder_of_def)
  with e show ?thesis by (auto simp: lock_poll_def holder_of_def)
qed

lemma unlock_hands_off_fifo_witness:
  "holder_of (unlock_all (lm_table contended) 1) (Key ''t'' (Rid 0 0)) = Some 2"
proof -
  let ?k = "Key ''t'' (Rid 0 0)"
  have c: "lm_calls contended 1 = None" by (simp add: contended_def Let_def)
  have l: "lt_locks (lm_table contended) ?k = Some \<lparr>lk_holder = Some 1, lk_waiters = [2]\<rparr>"
    by (simp add: contended_def Let_def lock_request_def lock_table_new_def hold_def)
  from unlock_hands_off_fifo [OF contended_reachable c refl, of undefined] l
  have "lt_locks (unlock_all (lm_table contended) 1) ?k = Some \<lparr>lk_holder = Some 2, lk_waiters = []\<rparr>" by auto
  then show ?thesis by (simp add: holder_of_def)
qed

subsection \<open>Waiting ends\<close>

text \<open>How a turn of the loop that ends the call ends it, after a wait of the given time.\<close>

definition lock_outcome :: "lock_manager \<Rightarrow> lock_table \<Rightarrow> u64 \<Rightarrow> lock_key \<Rightarrow> nat \<Rightarrow> unit result \<Rightarrow> lock_table \<Rightarrow> bool" where
  "lock_outcome m t owner key waited r t' \<longleftrightarrow>
     map_of (lt_waiting t') owner = None \<and>
     (if holder_of t key = Some owner then r = Ok ()
      else (\<forall>e. lt_locks t' key = Some e \<longrightarrow> owner \<notin> set (lk_waiters e)) \<and>
        (if lm_timeout m \<le> waited then r = Err (Runtime ''lock wait timeout'')
         else r = Err (Runtime ''deadlock detected'') \<and> lm_deadlock_timeout m \<le> waited \<and> in_cycle t owner))"

text \<open>The flag of the loop: the deadlock check was made in an earlier turn.\<close>

fun checked_before :: "lock_manager \<Rightarrow> (nat \<Rightarrow> nat) \<Rightarrow> nat \<Rightarrow> bool" where
  "checked_before m now 0 = False"
| "checked_before m now (Suc k) = (checked_before m now k \<or> lm_deadlock_timeout m \<le> now (Suc k) - now 0)"

abbreviation turn_poll :: "lock_manager \<Rightarrow> u64 \<Rightarrow> lock_key \<Rightarrow> (nat \<Rightarrow> nat) \<Rightarrow> (nat \<Rightarrow> lock_table) \<Rightarrow> nat \<Rightarrow> poll \<times> lock_table" where
  "turn_poll m owner key now seen k \<equiv> lock_poll m (seen k) owner key (now (Suc k) - now 0) (checked_before m now k)"

lemma lock_poll_again:
  "fst (lock_poll m t owner key elapsed checked) = Again c w \<Longrightarrow>
    elapsed < lm_timeout m \<and> holder_of t key \<noteq> Some owner \<and> c = (checked \<or> lm_deadlock_timeout m \<le> elapsed) \<and>
    w = max (if c then lm_timeout m - elapsed else min (lm_timeout m - elapsed) (lm_deadlock_timeout m)) 1000000"
  by (auto simp: lock_poll_def Let_def split: if_splits)

lemma lock_poll_ends:
  assumes "lock_poll m t owner key elapsed checked = (p, t')" "\<nexists>c w. p = Again c w"
  obtains r where "lock_outcome m t owner key elapsed r t'" "(p = Granted \<and> r = Ok ()) \<or> (\<exists>e. p = Failed e \<and> r = Err e)"
  using assms
  by (auto simp: lock_poll_def Let_def lock_outcome_def lock_abort_def delete_conv' split: if_splits option.splits)

lemma lock_wait_ends:
  assumes "\<nexists>c w. fst (turn_poll m owner key now seen n) = Again c w"
  shows "\<exists>k \<le> n. \<exists>r t'. lock_wait m owner key now seen False 0 = Some (r, t') \<and>
    lock_outcome m (seen k) owner key (now (Suc k) - now 0) r t' \<and>
    (\<forall>i < k. holder_of (seen i) key \<noteq> Some owner \<and> now (Suc i) - now 0 < lm_timeout m)"
proof -
  define ends where "ends k \<longleftrightarrow> (\<nexists>c w. fst (turn_poll m owner key now seen k) = Again c w)" for k
  define j where "j = (LEAST k. ends k)"
  have j: "ends j" "j \<le> n" "\<And>i. i < j \<Longrightarrow> \<not> ends i"
    using LeastI [of ends n] Least_le [of ends n] not_less_Least [of _ ends] assms by (auto simp: j_def ends_def)
  have again: "\<exists>c w. fst (turn_poll m owner key now seen i) = Again c w" if "i < j" for i using j(3) [OF that] by (simp add: ends_def)
  have reach: "lock_wait m owner key now seen False 0 = lock_wait m owner key now seen (checked_before m now k) k" if "k \<le> j" for k
    using that
  proof (induction k)
    case (Suc k)
    then obtain c w where p: "fst (turn_poll m owner key now seen k) = Again c w" using again [of k] by auto
    then have "c = checked_before m now (Suc k)" using lock_poll_again [OF p] by simp
    then have "lock_wait m owner key now seen (checked_before m now k) k = lock_wait m owner key now seen (checked_before m now (Suc k)) (Suc k)"
      using p lock_wait.simps [of m owner key now seen "checked_before m now k" k] by (cases "turn_poll m owner key now seen k") simp
    with Suc show ?case by simp
  qed simp
  obtain p t' where p: "turn_poll m owner key now seen j = (p, t')" by (cases "turn_poll m owner key now seen j")
  have "\<nexists>c w. p = Again c w" using j(1) p by (simp add: ends_def)
  with p obtain r where r: "lock_outcome m (seen j) owner key (now (Suc j) - now 0) r t'"
      "(p = Granted \<and> r = Ok ()) \<or> (\<exists>e. p = Failed e \<and> r = Err e)"
    by (rule lock_poll_ends)
  have "lock_wait m owner key now seen (checked_before m now j) j = Some (r, t')"
    using p r(2) by (subst lock_wait.simps) auto
  moreover have "holder_of (seen i) key \<noteq> Some owner \<and> now (Suc i) - now 0 < lm_timeout m" if "i < j" for i
    using again [OF that] lock_poll_again by metis
  ultimately show ?thesis using r(1) j(2) reach [of j] by (intro exI [of _ j]) auto
qed

text \<open>No turn of the loop is woken before the time it asked to wait for.\<close>

definition never_woken :: "lock_manager \<Rightarrow> u64 \<Rightarrow> lock_key \<Rightarrow> (nat \<Rightarrow> nat) \<Rightarrow> (nat \<Rightarrow> lock_table) \<Rightarrow> bool" where
  "never_woken m owner key now seen \<longleftrightarrow>
     (\<forall>k checked c w. fst (lock_poll m (seen k) owner key (now (Suc k) - now 0) checked) = Again c w \<longrightarrow> now (Suc k) + w \<le> now (Suc (Suc k)))"

lemma late_turn_ends: "lm_timeout m \<le> now (Suc k) - now 0 \<Longrightarrow> \<nexists>c w. fst (turn_poll m owner key now seen k) = Again c w"
  using lock_poll_again [of m "seen k" owner key "now (Suc k) - now 0" "checked_before m now k"] by (meson not_less)

lemma three_turns:
  assumes "never_woken m owner key now seen" "mono now"
  shows "\<exists>k \<le> 2. \<nexists>c w. fst (turn_poll m owner key now seen k) = Again c w"
proof (rule ccontr)
  assume "\<not> ?thesis"
  then have again: "\<exists>c w. fst (turn_poll m owner key now seen k) = Again c w" if "k \<le> 2" for k using that by blast
  obtain c w where p0: "fst (turn_poll m owner key now seen 0) = Again c w" using again [of 0] by auto
  obtain c' w' where p1: "fst (turn_poll m owner key now seen 1) = Again c' w'" using again [of 1] by auto
  have w: "now 1 + w \<le> now 2" "now 2 + w' \<le> now 3"
    using assms(1) [unfolded never_woken_def, rule_format, OF p0] assms(1) [unfolded never_woken_def, rule_format, OF p1]
    by (simp_all add: numeral_2_eq_2 numeral_3_eq_3)
  from lock_poll_again [OF p0] have e0: "now 1 - now 0 < lm_timeout m" "c = (lm_deadlock_timeout m \<le> now 1 - now 0)"
    "w = max (if c then lm_timeout m - (now 1 - now 0) else min (lm_timeout m - (now 1 - now 0)) (lm_deadlock_timeout m)) 1000000" by auto
  from lock_poll_again [OF p1] have e1: "now 2 - now 0 < lm_timeout m" "c' = (c \<or> lm_deadlock_timeout m \<le> now 2 - now 0)"
    "w' = max (if c' then lm_timeout m - (now 2 - now 0) else min (lm_timeout m - (now 2 - now 0)) (lm_deadlock_timeout m)) 1000000"
    using e0(2) by (auto simp: numeral_2_eq_2)
  have "c'"
  proof (rule ccontr)
    assume "\<not> c'"
    then show False using e0 e1(1,2) w(1) monoD [OF assms(2), of 0 1] by (auto simp: max_def min_def split: if_splits)
  qed
  then have "lm_timeout m \<le> now 3 - now 0" using e1(3) w(2) monoD [OF assms(2), of 0 2] by (auto simp: max_def split: if_splits)
  then show False using late_turn_ends [where m = m and now = now and k = 2 and owner = owner and key = key and seen = seen] again [of 2] by (simp add: numeral_3_eq_3)
qed

text \<open>
  C13: A call of \<open>lock\<close> always ends. The clock only has to pass the timeout: if it does by turn \<open>n\<close> of the wait loop, the call returns in turn
  \<open>n\<close> at the latest, whatever the other owners do and however often it is woken. A free row, or one the owner holds, is locked at once.
  Otherwise the call ends in the first turn that finds the lock handed to it, with success; or in the first turn at or after the timeout, with
  the timeout error; or in a turn past the deadlock timeout that finds the owner on a cycle, with the deadlock error. In each case
  the owner is no longer recorded as waiting, and after an error it is out of the queue. A call that is never woken early takes three
  turns at most.
\<close>

theorem lock_wait_bounded:
  assumes "mono now" "now 0 + lm_timeout m \<le> now (Suc n)" "lock_request t owner key = (granted, t0)"
  shows "\<exists>r t'. lock_call m owner key now seen t = Some (r, t') \<and>
    (if granted then r = Ok () \<and> t' = t0
     else \<exists>k \<le> n. lock_outcome m ((seen(0 := t0)) k) owner key (now (Suc k) - now 0) r t' \<and>
       (\<forall>i < k. holder_of ((seen(0 := t0)) i) key \<noteq> Some owner \<and> now (Suc i) - now 0 < lm_timeout m) \<and>
       (never_woken m owner key now (seen(0 := t0)) \<longrightarrow> k \<le> 2))"
proof (cases granted)
  case False
  define sees where "sees = seen(0 := t0)"
  have end_n: "\<nexists>c w. fst (turn_poll m owner key now sees n) = Again c w" using assms(2) by (intro late_turn_ends) simp
  obtain last where last: "\<nexists>c w. fst (turn_poll m owner key now sees last) = Again c w" "last \<le> n"
    "never_woken m owner key now sees \<longrightarrow> last \<le> 2"
  proof (cases "never_woken m owner key now sees \<and> 2 < n")
    case True
    with three_turns [OF _ assms(1), of m owner key sees] obtain k where "k \<le> 2" "\<nexists>c w. fst (turn_poll m owner key now sees k) = Again c w" by blast
    with True show ?thesis by (intro that [of k]) auto
  qed (use end_n that [of n] in auto)
  from lock_wait_ends [where m = m and owner = owner and key = key and now = now and seen = sees and n = last, OF last(1)] obtain k r t' where k: "k \<le> last" "lock_wait m owner key now sees False 0 = Some (r, t')"
    "lock_outcome m (sees k) owner key (now (Suc k) - now 0) r t'"
    "\<forall>i < k. holder_of (sees i) key \<noteq> Some owner \<and> now (Suc i) - now 0 < lm_timeout m" by blast
  have "lock_call m owner key now seen t = Some (r, t')" using False assms(3) k(2) by (simp add: lock_call_def sees_def)
  moreover have "k \<le> n" "never_woken m owner key now sees \<longrightarrow> k \<le> 2" using k(1) last(2,3) by auto
  ultimately show ?thesis using k(3,4) False unfolding sees_def by (simp del: fun_upd_apply) blast
qed (use assms(3) in \<open>simp add: lock_call_def\<close>)

theorem lock_wait_bounded_witness:
  "\<exists>t'. lock_call (lock_manager_new 50 1000) 2 (Key ''t'' (Rid 0 0)) (\<lambda>k. k * from_millis 50)
      (\<lambda>_. snd (lock_request (lm_table contended) 2 (Key ''t'' (Rid 0 0)))) (lm_table contended) = Some (Err (Runtime ''lock wait timeout''), t') \<and>
    map_of (lt_waiting t') 2 = None"
proof -
  let ?m = "lock_manager_new 50 1000" and ?k = "Key ''t'' (Rid 0 0)" and ?now = "\<lambda>k. k * from_millis 50"
  let ?t = "snd (lock_request (lm_table contended) 2 ?k)"
  have req: "lock_request (lm_table contended) 2 ?k = (False, ?t)" "holder_of ?t ?k = Some 1"
    by (simp_all add: contended_def Let_def holder_of_def lock_request_def lock_table_new_def hold_def)
  have clock: "?now 0 + lm_timeout ?m \<le> ?now (Suc 0)" by (simp add: lock_manager_new_def)
  from lock_wait_bounded [where seen = "\<lambda>_. ?t", OF _ clock req(1)] obtain r t' where
    r: "lock_call ?m 2 ?k ?now (\<lambda>_. ?t) (lm_table contended) = Some (r, t')" "lock_outcome ?m ?t 2 ?k (from_millis 50) r t'" by (auto simp: mono_def)
  with req(2) show ?thesis by (auto simp: lock_outcome_def lock_manager_new_def)
qed

end
