(* ===== verification/Lob.thy ===== *)
theory Lob
  imports Prelude "HOL-Library.AList"
begin

section \<open>Large objects\<close>

text \<open>
  \<open>src/src/storage/lob.rs\<close>: objects too long for a row, one file each, under ascending ids. \<open>lob_store\<close> is
  \<open>LobStore\<close> with the directory it owns as an association list of ids and file contents; I/O errors other than a missing file are
  not modelled. A reader holds the bytes not yet read; how many bytes one call of \<open>File::read\<close>
  returns is an argument.
\<close>

record lob_store =
  lob_files :: "(u64 \<times> byte list) list"
  lob_next_id :: u64

definition LOB_CHUNK :: nat where
  "LOB_CHUNK = 64 * 1024"

text \<open>\<open>max_id + 1\<close> panics on overflow.\<close>

definition lob_open :: "(u64 \<times> byte list) list \<Rightarrow> lob_store result" where
  "lob_open files =
     (let max_id = fold max (map fst files) 0 in
      if max_id = - 1 then Err Panic else Ok \<lparr>lob_files = files, lob_next_id = max_id + 1\<rparr>)"

definition lob_write :: "byte list \<Rightarrow> lob_store \<Rightarrow> u64 \<times> lob_store" where
  "lob_write data s =
     (let i = lob_next_id s
      in (i, s\<lparr>lob_next_id := i + 1, lob_files := AList.update i data (lob_files s)\<rparr>))"

definition lob_read :: "lob_store \<Rightarrow> u64 \<Rightarrow> byte list result" where
  "lob_read s i = (case map_of (lob_files s) i of None \<Rightarrow> Err (Runtime ''cannot read lob'') | Some d \<Rightarrow> Ok d)"

definition lob_len :: "lob_store \<Rightarrow> u64 \<Rightarrow> u64 result" where
  "lob_len s i =
     (case map_of (lob_files s) i of None \<Rightarrow> Err (Runtime ''cannot stat lob'') | Some d \<Rightarrow> Ok (word_of_nat (length d)))"

definition lob_is_empty :: "lob_store \<Rightarrow> u64 \<Rightarrow> bool result" where
  "lob_is_empty s i = bindR (lob_len s i) (\<lambda>n. Ok (n = 0))"

definition lob_delete :: "lob_store \<Rightarrow> u64 \<Rightarrow> lob_store" where
  "lob_delete s i = s\<lparr>lob_files := AList.delete i (lob_files s)\<rparr>"

record lob_reader =
  lr_rest :: "byte list"
  lr_remaining :: u64

definition lob_reader_open :: "lob_store \<Rightarrow> u64 \<Rightarrow> lob_reader result" where
  "lob_reader_open s i =
     (case map_of (lob_files s) i of
        None \<Rightarrow> Err (Runtime ''cannot open'')
      | Some d \<Rightarrow> Ok \<lparr>lr_rest = d, lr_remaining = word_of_nat (length d)\<rparr>)"

definition lob_reader_read :: "nat \<Rightarrow> nat \<Rightarrow> lob_reader \<Rightarrow> byte list \<times> lob_reader" where
  "lob_reader_read got buf_len r =
     (if buf_len = 0 then ([], r)
      else
        let want = min buf_len (unat (lr_remaining r)); read = take (min got want) (lr_rest r)
        in (read, r\<lparr>lr_rest := drop (length read) (lr_rest r), lr_remaining := lr_remaining r - word_of_nat (length read)\<rparr>))"

definition lob_next_chunk :: "nat \<Rightarrow> lob_reader \<Rightarrow> byte list option \<times> lob_reader" where
  "lob_next_chunk got r =
     (if lr_remaining r = 0 then (None, r)
      else
        let want = min LOB_CHUNK (unat (lr_remaining r)); read = take (min got want) (lr_rest r)
        in (Some read,
            r\<lparr>lr_rest := drop (length read) (lr_rest r), lr_remaining := lr_remaining r - word_of_nat (length read)\<rparr>))"

subsection \<open>Ids and contents\<close>

definition lob_abs :: "lob_store \<Rightarrow> u64 \<rightharpoonup> byte list" where
  "lob_abs s = map_of (lob_files s)"

text \<open>Every stored id is below the counter.\<close>

definition lob_inv :: "lob_store \<Rightarrow> bool" where
  "lob_inv s \<longleftrightarrow> (\<forall>i \<in> dom (lob_abs s). i < lob_next_id s)"

lemma lob_inv_fresh: "lob_inv s \<Longrightarrow> lob_abs s (lob_next_id s) = None"
  by (auto simp: lob_inv_def)

lemma lob_write_spec:
  assumes "lob_write d s = (i, s')"
  shows "lob_abs s' = (lob_abs s)(i \<mapsto> d)" "lob_read s' i = Ok d" "i = lob_next_id s" "lob_next_id s' = i + 1"
  using assms by (auto simp: lob_write_def Let_def lob_abs_def update_conv' lob_read_def)

lemma lob_write_inv:
  assumes "lob_inv s" "lob_next_id s \<noteq> - 1" "lob_write d s = (i, s')"
  shows "lob_inv s'"
proof -
  have "lob_next_id s < lob_next_id s + 1"
    using assms(2) by (rule word_succ_less)
  with assms show ?thesis
    by (auto simp: lob_inv_def lob_write_spec [OF assms(3)] intro: less_trans split: if_splits)
qed

lemma lob_read_abs: "lob_abs s i = Some d \<Longrightarrow> lob_read s i = Ok d"
  by (simp add: lob_read_def lob_abs_def)

lemma fold_max_ge:
  fixes a :: "'a :: linorder"
  shows "x \<in> set xs \<Longrightarrow> x \<le> fold max xs a" and "a \<le> fold max xs a"
proof -
  have 2: "a \<le> fold max xs a" for a :: 'a and xs
  proof (induction xs arbitrary: a)
    case (Cons x xs)
    from Cons [of "max x a"] show ?case by simp
  qed simp
  show "a \<le> fold max xs a" by (rule 2)
  show "x \<le> fold max xs a" if "x \<in> set xs"
    using that
  proof (induction xs arbitrary: a)
    case (Cons y xs)
    with 2 [of "max y a" xs] show ?case by auto
  qed simp
qed

lemma fold_max_less:
  fixes a :: "'a :: linorder"
  shows "\<forall>x \<in> set xs. x < b \<Longrightarrow> a < b \<Longrightarrow> fold max xs a < b"
  by (induction xs arbitrary: a) auto

lemma lob_open_inv: "lob_open files = Ok s \<Longrightarrow> lob_inv s \<and> lob_abs s = map_of files"
proof -
  assume "lob_open files = Ok s"
  then have s: "s = \<lparr>lob_files = files, lob_next_id = fold max (map fst files) 0 + 1\<rparr>"
    "fold max (map fst files) 0 \<noteq> (- 1 :: u64)"
    by (auto simp: lob_open_def Let_def split: if_splits)
  have "i < fold max (map fst files) 0 + 1" if "(i, d) \<in> set files" for i d
  proof -
    have "i \<in> set (map fst files)" using that by force
    from fold_max_ge(1) [OF this, of 0] word_succ_less [OF s(2)] show ?thesis by (rule le_less_trans)
  qed
  then show ?thesis
    by (auto simp: s(1) lob_inv_def lob_abs_def dest: map_of_SomeD)
qed

text \<open>
  C20: The large-object store keeps what it is given. A store opened on any directory, and any store whose ids lie below its counter, hands out an id that no
  object has, reads back the bytes under it, leaves every other object alone, and keeps its ids below
  the counter; deleting removes exactly that object and deleting a missing one changes nothing. But the counter
  is rebuilt from the files, so the id of a deleted newest object is handed out again after a reopen.
\<close>

theorem lob_store_objects:
  assumes "lob_open files = Ok s \<or> lob_inv s" "lob_next_id s \<noteq> - 1" "lob_write d s = (i, s')"
  shows "lob_abs s i = None \<and> lob_read s' i = Ok d \<and> (\<forall>j. j \<noteq> i \<longrightarrow> lob_read s' j = lob_read s j) \<and> lob_inv s' \<and>
    lob_abs (lob_delete s' i) = lob_abs s \<and> (\<forall>j. lob_abs s j = None \<longrightarrow> lob_abs (lob_delete s j) = lob_abs s) \<and>
    (0 < lob_next_id s \<longrightarrow>
       (\<exists>r. lob_open (lob_files (lob_delete s' i)) = Ok r \<and> lob_next_id r \<le> i))"
proof -
  have inv: "lob_inv s" using assms(1) lob_open_inv by blast
  note w = lob_write_spec [OF assms(3)]
  have fresh: "lob_abs s i = None" using lob_inv_fresh [OF inv] w(3) by simp
  have del: "lob_abs (lob_delete t j) = (lob_abs t)(j := None)" for t j
    by (simp add: lob_delete_def lob_abs_def delete_conv')
  have "\<exists>r. lob_open (lob_files (lob_delete s' i)) = Ok r \<and> lob_next_id r \<le> i"
    if pos: "0 < lob_next_id s"
  proof -
    let ?fs = "lob_files (lob_delete s' i)" and ?m = "fold max (map fst (lob_files (lob_delete s' i))) (0 :: u64)"
    have dom: "\<forall>j \<in> fst ` set ?fs. j < i"
    proof -
      have "fst ` set ?fs = dom (lob_abs (lob_delete s' i))"
        by (simp add: lob_abs_def dom_map_of_conv_image_fst)
      also have "\<dots> = dom (lob_abs s)" using w(1) fresh by (auto simp: del)
      finally show ?thesis using inv w(3) by (auto simp: lob_inv_def)
    qed
    have "?m < i" by (rule fold_max_less) (use dom pos w(3) in auto)
    then have "?m \<noteq> - 1" "?m + 1 \<le> i"
      using assms(2) w(3) inc_le by (metis word_order.extremum_strict, blast)
    then show ?thesis by (simp add: lob_open_def Let_def)
  qed
  moreover have "lob_read s' j = lob_read s j" if "j \<noteq> i" for j
    using w(1) that by (simp add: lob_read_def lob_abs_def)
  ultimately show ?thesis
    using fresh w lob_write_inv [OF inv assms(2,3)] by (auto simp: del fun_upd_idem)
qed

theorem lob_store_objects_witness:
  "lob_read (snd (lob_write [1, 2] \<lparr>lob_files = [], lob_next_id = 1\<rparr>)) 1 = Ok [1, 2]"
proof -
  let ?s = "\<lparr>lob_files = [], lob_next_id = 1\<rparr>"
  obtain s' where w: "lob_write [1, 2] ?s = (1, s')" by (simp add: lob_write_def Let_def)
  have "lob_open [] = Ok ?s \<or> lob_inv ?s" by (simp add: lob_open_def)
  from lob_store_objects [OF this _ w] w show ?thesis by simp
qed

text \<open>Calling \<open>next_chunk\<close> repeatedly; the list says how many bytes each read could return.\<close>

fun lob_chunks :: "nat list \<Rightarrow> lob_reader \<Rightarrow> byte list list" where
  "lob_chunks [] r = []"
| "lob_chunks (got # gots) r =
     (case lob_next_chunk got r of (None, _) \<Rightarrow> [] | (Some c, r') \<Rightarrow> c # lob_chunks gots r')"

text \<open>
  Streaming a large object yields the object. However short the individual reads are, as long as each returns
  at least one byte, the chunks have at most \<open>LOB_CHUNK\<close> bytes, their concatenation is the object, and
  after as many calls as it has bytes the reader reports the end.
\<close>

lemma lob_chunks_stream:
  assumes "lob_reader_open s i = Ok r" "lob_abs s i = Some d" "length d < 2 ^ 64" "\<forall>g \<in> set gots. 0 < g" "length d \<le> length gots"
  shows "concat (lob_chunks gots r) = d \<and> (\<forall>c \<in> set (lob_chunks gots r). length c \<le> LOB_CHUNK)"
proof -
  have r: "r = \<lparr>lr_rest = d, lr_remaining = word_of_nat (length d)\<rparr>"
    using assms(1,2) by (auto simp: lob_reader_open_def lob_abs_def)
  have "concat (lob_chunks gots \<lparr>lr_rest = d, lr_remaining = word_of_nat (length d)\<rparr>) = d \<and>
    (\<forall>c \<in> set (lob_chunks gots \<lparr>lr_rest = d, lr_remaining = word_of_nat (length d)\<rparr>). length c \<le> LOB_CHUNK)"
    using assms(3-)
  proof (induction gots arbitrary: d)
    case (Cons g gots)
    have u: "unat (word_of_nat (length d) :: u64) = length d" using Cons.prems(1) by (rule unat_u64_of_nat)
    show ?case
    proof (cases "d = []")
      case True
      then show ?thesis by (simp add: lob_next_chunk_def)
    next
      case False
      let ?n = "min g (min LOB_CHUNK (length d))"
      have n: "0 < ?n" "?n \<le> length d" using False Cons.prems(2) by (auto simp: LOB_CHUNK_def)
      have nz: "(word_of_nat (length d) :: u64) \<noteq> 0"
      proof
        assume "(word_of_nat (length d) :: u64) = 0"
        then have "length d = 0" using u by (simp only: unsigned_0)
        with False show False by simp
      qed
      have sub: "(word_of_nat (length d) :: u64) - word_of_nat ?n = word_of_nat (length d - ?n)"
        using n(2) by (simp only: of_nat_diff)
      have len: "length (take ?n d) = ?n" using n(2) by (simp only: length_take min_absorb2)
      have next_: "lob_next_chunk g \<lparr>lr_rest = d, lr_remaining = word_of_nat (length d)\<rparr> =
          (Some (take ?n d), \<lparr>lr_rest = drop ?n d, lr_remaining = word_of_nat (length (drop ?n d))\<rparr>)"
        unfolding lob_next_chunk_def Let_def lob_reader.simps u len using nz
        by (simp only: if_False length_drop sub simp_thms)
      have "concat (lob_chunks gots \<lparr>lr_rest = drop ?n d, lr_remaining = word_of_nat (length (drop ?n d))\<rparr>) = drop ?n d \<and>
        (\<forall>c \<in> set (lob_chunks gots \<lparr>lr_rest = drop ?n d, lr_remaining = word_of_nat (length (drop ?n d))\<rparr>). length c \<le> LOB_CHUNK)"
        by (rule Cons.IH) (use Cons.prems n in auto)
      moreover have "?n \<le> LOB_CHUNK" by simp
      ultimately show ?thesis
        unfolding lob_chunks.simps next_ prod.case option.case concat.simps
        by (auto simp only: append_take_drop_id list.set insert_iff len)
    qed
  qed simp
  with r show ?thesis by simp
qed

lemma lob_chunks_stream_witness:
  "\<exists>r. lob_reader_open \<lparr>lob_files = [(1, [7, 8, 9])], lob_next_id = 2\<rparr> 1 = Ok r \<and> concat (lob_chunks [2, 2, 2] r) = [7, 8, 9]"
proof -
  let ?s = "\<lparr>lob_files = [(1, [7, 8, 9])], lob_next_id = 2\<rparr>"
  obtain r where r: "lob_reader_open ?s 1 = Ok r" by (simp add: lob_reader_open_def)
  from lob_chunks_stream [OF r, of "[7, 8, 9]" "[2, 2, 2]"] r show ?thesis by (simp add: lob_abs_def)
qed

end
