(* ===== verification/Codec.thy ===== *)
theory Codec
  imports Lob Value Table_Storage
begin

section \<open>Row encoding\<close>

text \<open>
  \<open>src/src/storage/codec.rs\<close>: the tagged encoding of rows and of versioned records, with long strings moved to the
  large-object store. The trait \<open>LobResolver\<close> has one implementation, \<open>LobStore\<close>, which is an
  explicit argument and result here. A length that is cast to \<open>u16\<close> is stored by its low two bytes.
  The lemmas show that rows decode to what was encoded, with and without pruned columns, that column ranges, sizes and
  object ids read off an encoding are those of the row.
\<close>

unbundle bit_operations_syntax

definition TAG_NULL :: byte where "TAG_NULL = 0x00"
definition TAG_INT :: byte where "TAG_INT = 0x01"
definition TAG_FLOAT :: byte where "TAG_FLOAT = 0x02"
definition TAG_STR :: byte where "TAG_STR = 0x03"
definition TAG_BOOL :: byte where "TAG_BOOL = 0x04"
definition TAG_DATE :: byte where "TAG_DATE = 0x05"
definition TAG_LOB :: byte where "TAG_LOB = 0x06"

lemmas tag_defs = TAG_NULL_def TAG_INT_def TAG_FLOAT_def TAG_STR_def TAG_BOOL_def TAG_DATE_def TAG_LOB_def

lemma tag_neq [simp]:
  "TAG_NULL \<noteq> TAG_INT" "TAG_NULL \<noteq> TAG_FLOAT" "TAG_NULL \<noteq> TAG_STR" "TAG_NULL \<noteq> TAG_BOOL" "TAG_NULL \<noteq> TAG_DATE" "TAG_NULL \<noteq> TAG_LOB"
  "TAG_INT \<noteq> TAG_NULL" "TAG_INT \<noteq> TAG_FLOAT" "TAG_INT \<noteq> TAG_STR" "TAG_INT \<noteq> TAG_BOOL" "TAG_INT \<noteq> TAG_DATE" "TAG_INT \<noteq> TAG_LOB"
  "TAG_FLOAT \<noteq> TAG_NULL" "TAG_FLOAT \<noteq> TAG_INT" "TAG_FLOAT \<noteq> TAG_STR" "TAG_FLOAT \<noteq> TAG_BOOL" "TAG_FLOAT \<noteq> TAG_DATE" "TAG_FLOAT \<noteq> TAG_LOB"
  "TAG_STR \<noteq> TAG_NULL" "TAG_STR \<noteq> TAG_INT" "TAG_STR \<noteq> TAG_FLOAT" "TAG_STR \<noteq> TAG_BOOL" "TAG_STR \<noteq> TAG_DATE" "TAG_STR \<noteq> TAG_LOB"
  "TAG_BOOL \<noteq> TAG_NULL" "TAG_BOOL \<noteq> TAG_INT" "TAG_BOOL \<noteq> TAG_FLOAT" "TAG_BOOL \<noteq> TAG_STR" "TAG_BOOL \<noteq> TAG_DATE" "TAG_BOOL \<noteq> TAG_LOB"
  "TAG_DATE \<noteq> TAG_NULL" "TAG_DATE \<noteq> TAG_INT" "TAG_DATE \<noteq> TAG_FLOAT" "TAG_DATE \<noteq> TAG_STR" "TAG_DATE \<noteq> TAG_BOOL" "TAG_DATE \<noteq> TAG_LOB"
  "TAG_LOB \<noteq> TAG_NULL" "TAG_LOB \<noteq> TAG_INT" "TAG_LOB \<noteq> TAG_FLOAT" "TAG_LOB \<noteq> TAG_STR" "TAG_LOB \<noteq> TAG_BOOL" "TAG_LOB \<noteq> TAG_DATE"
  by (simp_all add: tag_defs)

definition pack_rid :: "u32 \<Rightarrow> u16 \<Rightarrow> u64" where
  "pack_rid p s = push_bit 16 (ucast p) OR ucast s"

definition unpack_rid :: "u64 \<Rightarrow> u32 \<times> u16" where
  "unpack_rid v = (ucast (drop_bit 16 v), ucast v)"

subsection \<open>Encoding\<close>

fun enc_value :: "sql_value \<Rightarrow> byte list" where
  "enc_value VNull = [TAG_NULL]"
| "enc_value (VInt n) = TAG_INT # le_enc 8 (unat n)"
| "enc_value (VFloat x) = TAG_FLOAT # le_enc 8 (unat x)"
| "enc_value (VStr s) = TAG_STR # le_enc 2 (length s) @ s"
| "enc_value (VBool b) = [TAG_BOOL, of_bool b]"
| "enc_value (VDate d) = TAG_DATE # le_enc 4 (unat d)"

definition encode_row :: "sql_value list \<Rightarrow> byte list" where
  "encode_row row = le_enc 2 (length row) @ concat (map enc_value row)"

text \<open>One value with large objects allowed; a long string becomes a reference.\<close>

definition enc_value_with :: "nat \<Rightarrow> sql_value \<Rightarrow> lob_store \<Rightarrow> byte list \<times> lob_store" where
  "enc_value_with inline_limit v lobs =
     (case v of
        VStr s \<Rightarrow>
          if inline_limit < length s then
            let (i, lobs) = lob_write s lobs in (TAG_LOB # le_enc 8 (unat i), lobs)
          else (enc_value v, lobs)
      | _ \<Rightarrow> (enc_value v, lobs))"

fun enc_values_with :: "nat \<Rightarrow> sql_value list \<Rightarrow> lob_store \<Rightarrow> byte list \<times> lob_store" where
  "enc_values_with inline_limit [] lobs = ([], lobs)"
| "enc_values_with inline_limit (v # vs) lobs =
     (let (b, lobs) = enc_value_with inline_limit v lobs; (bs, lobs) = enc_values_with inline_limit vs lobs
      in (b @ bs, lobs))"

definition encode_row_with :: "sql_value list \<Rightarrow> nat \<Rightarrow> lob_store \<Rightarrow> byte list \<times> lob_store" where
  "encode_row_with row inline_limit lobs =
     (let (bs, lobs) = enc_values_with inline_limit row lobs in (le_enc 2 (length row) @ bs, lobs))"

definition version_header :: "u64 \<Rightarrow> u64 \<Rightarrow> u64 \<Rightarrow> byte list" where
  "version_header creator deleter next_rid = le_enc 8 (unat creator) @ le_enc 8 (unat deleter) @ le_enc 8 (unat next_rid)"

definition encode_record :: "u64 \<Rightarrow> u64 \<Rightarrow> u64 \<Rightarrow> sql_value list \<Rightarrow> nat \<Rightarrow> lob_store \<Rightarrow> byte list \<times> lob_store" where
  "encode_record creator deleter next_rid row inline_limit lobs =
     (let (bs, lobs) = encode_row_with row inline_limit lobs in (version_header creator deleter next_rid @ bs, lobs))"

definition encode_record_inline :: "u64 \<Rightarrow> u64 \<Rightarrow> u64 \<Rightarrow> sql_value list \<Rightarrow> byte list" where
  "encode_record_inline creator deleter next_rid row = version_header creator deleter next_rid @ encode_row row"

fun value_size :: "nat \<Rightarrow> sql_value \<Rightarrow> nat" where
  "value_size inline_limit VNull = 1"
| "value_size inline_limit (VInt _) = 9"
| "value_size inline_limit (VFloat _) = 9"
| "value_size inline_limit (VBool _) = 2"
| "value_size inline_limit (VDate _) = 5"
| "value_size inline_limit (VStr s) = (if inline_limit < length s then 9 else 3 + length s)"

definition encoded_row_size :: "sql_value list \<Rightarrow> nat \<Rightarrow> nat" where
  "encoded_row_size row inline_limit = foldl (\<lambda>size v. size + value_size inline_limit v) 2 row"

subsection \<open>Decoding\<close>

definition codec_take :: "byte list \<Rightarrow> nat \<Rightarrow> nat \<Rightarrow> (byte list \<times> nat) result" where
  "codec_take data pos n =
     (if length data < pos + n then Err (Runtime ''truncated row data'') else Ok (subl data pos (pos + n), pos + n))"

definition skip_payload :: "byte list \<Rightarrow> nat \<Rightarrow> byte \<Rightarrow> nat result" where
  "skip_payload data pos tag =
     (if tag = TAG_NULL then Ok pos
      else if tag = TAG_INT \<or> tag = TAG_FLOAT \<or> tag = TAG_LOB then bindR (codec_take data pos 8) (\<lambda>(_, p). Ok p)
      else if tag = TAG_BOOL then bindR (codec_take data pos 1) (\<lambda>(_, p). Ok p)
      else if tag = TAG_DATE then bindR (codec_take data pos 4) (\<lambda>(_, p). Ok p)
      else if tag = TAG_STR then
        bindR (codec_take data pos 2) (\<lambda>(lb, p). bindR (codec_take data p (le_dec lb)) (\<lambda>(_, p). Ok p))
      else Err (Runtime ''unknown value tag''))"

definition decode_payload :: "byte list \<Rightarrow> nat \<Rightarrow> byte \<Rightarrow> lob_store option \<Rightarrow> (sql_value \<times> nat) result" where
  "decode_payload data pos tag lobs =
     (if tag = TAG_NULL then Ok (VNull, pos)
      else if tag = TAG_INT then bindR (codec_take data pos 8) (\<lambda>(b, pos). Ok (VInt (word_of_nat (le_dec b)), pos))
      else if tag = TAG_FLOAT then bindR (codec_take data pos 8) (\<lambda>(b, pos). Ok (VFloat (word_of_nat (le_dec b)), pos))
      else if tag = TAG_STR then
        bindR (codec_take data pos 2) (\<lambda>(lb, pos).
        bindR (codec_take data pos (le_dec lb)) (\<lambda>(s, pos).
          if utf8_valid s then Ok (VStr s, pos) else Err (Runtime ''invalid utf8 in stored string'')))
      else if tag = TAG_LOB then
        bindR (codec_take data pos 8) (\<lambda>(b, pos).
          case lobs of
            None \<Rightarrow> Err (Runtime ''lob reference without a resolver'')
          | Some l \<Rightarrow>
              bindR (lob_read l (word_of_nat (le_dec b))) (\<lambda>s.
                if utf8_valid s then Ok (VStr s, pos) else Err (Runtime ''invalid utf8 in stored lob'')))
      else if tag = TAG_BOOL then bindR (codec_take data pos 1) (\<lambda>(b, pos). Ok (VBool (b ! 0 \<noteq> 0), pos))
      else if tag = TAG_DATE then bindR (codec_take data pos 4) (\<lambda>(b, pos). Ok (VDate (word_of_nat (le_dec b)), pos))
      else Err (Runtime ''unknown value tag''))"

definition needs :: "bool list option \<Rightarrow> nat \<Rightarrow> bool" where
  "needs keep i = (case keep of None \<Rightarrow> True | Some ks \<Rightarrow> if i < length ks then ks ! i else True)"

definition decode_value ::
  "byte list \<Rightarrow> nat \<Rightarrow> nat \<Rightarrow> lob_store option \<Rightarrow> bool list option \<Rightarrow> (sql_value \<times> nat) result" where
  "decode_value data pos index lobs keep =
     bindR (codec_take data pos 1) (\<lambda>(tb, pos).
       if needs keep index then decode_payload data pos (tb ! 0) lobs
       else bindR (skip_payload data pos (tb ! 0)) (\<lambda>pos. Ok (VNull, pos)))"

text \<open>\<open>for i in 0..count\<close>, from column \<open>i\<close> on.\<close>

fun decode_values ::
  "byte list \<Rightarrow> lob_store option \<Rightarrow> bool list option \<Rightarrow> nat \<Rightarrow> nat \<Rightarrow> nat \<Rightarrow> (sql_value list \<times> nat) result" where
  "decode_values data lobs keep pos i 0 = Ok ([], pos)"
| "decode_values data lobs keep pos i (Suc n) =
     bindR (decode_value data pos i lobs keep) (\<lambda>(v, pos).
     bindR (decode_values data lobs keep pos (Suc i) n) (\<lambda>(vs, pos). Ok (v # vs, pos)))"

definition decode_row_with ::
  "byte list \<Rightarrow> lob_store option \<Rightarrow> bool list option \<Rightarrow> (sql_value list \<times> nat) result" where
  "decode_row_with data lobs keep =
     bindR (codec_take data 0 2) (\<lambda>(hb, pos). decode_values data lobs keep pos 0 (le_dec hb))"

definition decode_row :: "byte list \<Rightarrow> (sql_value list \<times> nat) result" where
  "decode_row data = decode_row_with data None None"

definition record_next_rid :: "byte list \<Rightarrow> u64 result" where
  "record_next_rid data =
     (if length data < RECORD_HEADER then Err (Runtime ''truncated versioned record'') else Ok (rec_u64 data 16))"

definition record_version :: "byte list \<Rightarrow> (u64 \<times> u64) result" where
  "record_version data =
     (if length data < RECORD_HEADER then Err (Runtime ''truncated versioned record'')
      else Ok (rec_u64 data 0, rec_u64 data 8))"

definition decode_record :: "byte list \<Rightarrow> lob_store \<Rightarrow> (u64 \<times> u64 \<times> sql_value list) result" where
  "decode_record data lobs =
     bindR (record_version data) (\<lambda>(creator, deleter).
     bindR (decode_row_with (drop RECORD_HEADER data) (Some lobs) None) (\<lambda>(row, _). Ok (creator, deleter, row)))"

definition decode_record_pruned :: "byte list \<Rightarrow> lob_store \<Rightarrow> bool list \<Rightarrow> (u64 \<times> u64 \<times> sql_value list) result" where
  "decode_record_pruned data lobs keep =
     bindR (record_version data) (\<lambda>(creator, deleter).
     bindR (decode_row_with (drop RECORD_HEADER data) (Some lobs) (Some keep)) (\<lambda>(row, _). Ok (creator, deleter, row)))"

text \<open>The object ids in a row; a malformed tail ends the scan.\<close>

fun collect_ids :: "byte list \<Rightarrow> nat \<Rightarrow> nat \<Rightarrow> u64 list" where
  "collect_ids data pos 0 = []"
| "collect_ids data pos (Suc n) =
     (if length data \<le> pos then []
      else
        let tag = data ! pos; pos = pos + 1 in
        if tag = TAG_STR \<and> length data < pos + 2 \<or> tag = TAG_LOB \<and> length data < pos + 8 then []
        else
          let ids = (if tag = TAG_LOB then [rec_u64 data pos] else []);
              next = (if tag = TAG_NULL then Some pos
                      else if tag = TAG_INT \<or> tag = TAG_FLOAT \<or> tag = TAG_LOB then Some (pos + 8)
                      else if tag = TAG_BOOL then Some (pos + 1)
                      else if tag = TAG_DATE then Some (pos + 4)
                      else if tag = TAG_STR then Some (pos + 2 + le_dec (subl data pos (pos + 2)))
                      else None)
          in case next of
               None \<Rightarrow> []
             | Some pos \<Rightarrow> if length data < pos then ids else ids @ collect_ids data pos n)"

definition collect_row_lob_ids :: "byte list \<Rightarrow> u64 list" where
  "collect_row_lob_ids data =
     (if length data < 2 then [] else collect_ids data 2 (le_dec (subl data 0 2)))"

definition collect_lob_ids :: "byte list \<Rightarrow> u64 list" where
  "collect_lob_ids data =
     (if RECORD_HEADER \<le> length data then collect_row_lob_ids (drop RECORD_HEADER data) else [])"

definition payload_end :: "byte list \<Rightarrow> nat \<Rightarrow> byte \<Rightarrow> nat result" where
  "payload_end data pos tag =
     (if tag = TAG_NULL then Ok pos
      else if tag = TAG_INT \<or> tag = TAG_FLOAT \<or> tag = TAG_LOB then Ok (pos + 8)
      else if tag = TAG_BOOL then Ok (pos + 1)
      else if tag = TAG_DATE then Ok (pos + 4)
      else if tag = TAG_STR then bindR (codec_take data pos 2) (\<lambda>(lb, p). Ok (p + le_dec lb))
      else Err (Runtime ''unknown value tag''))"

fun column_ranges :: "byte list \<Rightarrow> nat \<Rightarrow> nat \<Rightarrow> (nat \<times> nat) list result" where
  "column_ranges data pos 0 = Ok []"
| "column_ranges data pos (Suc n) =
     (if length data \<le> pos then Err (Runtime ''truncated row data'')
      else
        bindR (payload_end data (pos + 1) (data ! pos)) (\<lambda>p.
        if length data < p then Err (Runtime ''truncated row data'')
        else bindR (column_ranges data p n) (\<lambda>rs. Ok ((pos, p) # rs))))"

definition row_column_ranges :: "byte list \<Rightarrow> (nat \<times> nat) list result" where
  "row_column_ranges data =
     (if length data < 2 then Err (Runtime ''truncated row data'')
      else column_ranges data 2 (le_dec (subl data 0 2)))"

text \<open>\<open>want ! i\<close> is the output slot of column \<open>i\<close>, \<open>None\<close> the marker that skips it.\<close>

fun decode_wanted ::
  "byte list \<Rightarrow> nat option list \<Rightarrow> lob_store \<Rightarrow> nat \<Rightarrow> nat \<Rightarrow> nat \<Rightarrow> sql_value list \<Rightarrow> sql_value list result" where
  "decode_wanted data want lobs pos i 0 out = Ok out"
| "decode_wanted data want lobs pos i (Suc n) out =
     (case (if i < length want then want ! i else None) of
        None \<Rightarrow>
          bindR (codec_take data pos 1) (\<lambda>(tb, pos).
          bindR (skip_payload data pos (tb ! 0)) (\<lambda>pos. decode_wanted data want lobs pos (Suc i) n out))
      | Some s \<Rightarrow>
          bindR (decode_value data pos i (Some lobs) None) (\<lambda>(v, pos).
            if s < length out then decode_wanted data want lobs pos (Suc i) n (out[s := v]) else Err Panic))"

definition decode_row_with_want ::
  "byte list \<Rightarrow> nat option list \<Rightarrow> lob_store \<Rightarrow> sql_value list \<Rightarrow> sql_value list result" where
  "decode_row_with_want data want lobs out =
     bindR (codec_take data 0 2) (\<lambda>(hb, pos). decode_wanted data want lobs pos 0 (le_dec hb) out)"

text \<open>Handing each value to a sink, whose effects are threaded as a state.\<close>

fun decode_each ::
  "byte list \<Rightarrow> lob_store option \<Rightarrow> bool list option \<Rightarrow> (nat \<Rightarrow> sql_value \<Rightarrow> 's \<Rightarrow> 's result) \<Rightarrow> nat \<Rightarrow> nat \<Rightarrow> nat \<Rightarrow> 's \<Rightarrow> 's result" where
  "decode_each data lobs keep sink pos i 0 s = Ok s"
| "decode_each data lobs keep sink pos i (Suc n) s =
     bindR (decode_value data pos i lobs keep) (\<lambda>(v, pos).
     bindR (sink i v s) (decode_each data lobs keep sink pos (Suc i) n))"

definition decode_row_each ::
  "byte list \<Rightarrow> lob_store option \<Rightarrow> bool list option \<Rightarrow> (nat \<Rightarrow> sql_value \<Rightarrow> 's \<Rightarrow> 's result) \<Rightarrow> 's \<Rightarrow> (nat \<times> 's) result" where
  "decode_row_each data lobs keep sink s =
     bindR (codec_take data 0 2) (\<lambda>(hb, pos).
     bindR (decode_each data lobs keep sink pos 0 (le_dec hb) s) (\<lambda>s. Ok (le_dec hb, s)))"

definition decode_row_into ::
  "byte list \<Rightarrow> lob_store option \<Rightarrow> bool list option \<Rightarrow> (nat \<times> sql_value list) result" where
  "decode_row_into data lobs keep = decode_row_each data lobs keep (\<lambda>_ v out. Ok (out @ [v])) []"

definition decode_tagged_value :: "byte list \<Rightarrow> lob_store \<Rightarrow> sql_value result" where
  "decode_tagged_value data lobs = bindR (decode_value data 0 0 (Some lobs) None) (\<lambda>(v, _). Ok v)"

subsection \<open>Reading back one value\<close>

lemma codec_take_mid:
  "p = length pre \<Longrightarrow> n = length ys \<Longrightarrow> codec_take (pre @ ys @ post) p n = Ok (ys, p + n)"
  by (simp add: codec_take_def subl_mid)

lemma codec_take_mid1: "p = length pre \<Longrightarrow> codec_take (pre @ y # post) p 1 = Ok ([y], p + 1)"
  using codec_take_mid [of p pre 1 "[y]" post] by simp

text \<open>A value whose string is valid UTF-8 and, when stored inline, shorter than 64 KiB.\<close>

fun inline_ok :: "sql_value \<Rightarrow> bool" where
  "inline_ok (VStr s) = (utf8_valid s \<and> length s < 65536)"
| "inline_ok _ = True"

lemma word_le_dec8: "(word_of_nat (le_dec (le_enc 8 (unat n))) :: u64) = n"
  by (simp add: le_dec_unat64)

lemma word_le_dec4: "(word_of_nat (le_dec (le_enc 4 (unat n))) :: u32) = n"
  by (simp add: le_dec_unat32)

text \<open>The bytes after the tag, for each kind of value.\<close>

lemma payload_str:
  assumes "length s < 65536" "p = length pre"
  shows "codec_take (pre @ le_enc 2 (length s) @ s @ post) p 2 = Ok (le_enc 2 (length s), p + 2)"
    "codec_take (pre @ le_enc 2 (length s) @ s @ post) (Suc (Suc p)) (length s) = Ok (s, p + 2 + length s)"
    "le_dec (le_enc 2 (length s)) = length s"
  using codec_take_mid [of p pre 2 "le_enc 2 (length s)" "s @ post"]
    codec_take_mid [of "p + 2" "pre @ le_enc 2 (length s)" "length s" s post] assms
  by (simp_all add: le_dec_enc_small)

lemma skip_payload_enc:
  assumes "inline_ok v" "enc_value v = tag # body" "p = length pre"
  shows "skip_payload (pre @ body @ post) p tag = Ok (p + length body)"
  using assms codec_take_mid [of p pre _ body post]
  by (cases v) (auto simp: skip_payload_def payload_str)

lemma decode_payload_enc:
  assumes "inline_ok v" "enc_value v = tag # body" "p = length pre"
  shows "decode_payload (pre @ body @ post) p tag lobs = Ok (v, p + length body)"
  using assms codec_take_mid [of p pre _ body post]
  by (cases v) (auto simp: decode_payload_def payload_str word_le_dec8 word_le_dec4)

lemma decode_value_enc:
  assumes "inline_ok v" "p = length pre"
  shows "decode_value (pre @ enc_value v @ post) p i lobs keep
    = Ok (if needs keep i then v else VNull, p + length (enc_value v))"
proof -
  obtain tag body where e: "enc_value v = tag # body" by (cases v) auto
  have t: "codec_take (pre @ tag # body @ post) p 1 = Ok ([tag], p + 1)"
    by (rule codec_take_mid1 [OF assms(2)])
  note skip_payload_enc [OF assms(1) e, of "p + 1" "pre @ [tag]" post]
    and decode_payload_enc [OF assms(1) e, of "p + 1" "pre @ [tag]" post]
  with t assms(2) show ?thesis
    unfolding decode_value_def e append_Cons by simp
qed

lemma decode_value_lob:
  assumes "p = length pre" "lob_abs l i = Some s" "utf8_valid s"
  shows "decode_value (pre @ (TAG_LOB # le_enc 8 (unat i)) @ post) p j (Some l) keep
    = Ok (if needs keep j then VStr s else VNull, p + 9)"
proof -
  have t: "codec_take (pre @ TAG_LOB # le_enc 8 (unat i) @ post) p 1 = Ok ([TAG_LOB], p + 1)"
    by (rule codec_take_mid1 [OF assms(1)])
  moreover have "codec_take (pre @ TAG_LOB # le_enc 8 (unat i) @ post) (p + 1) 8 = Ok (le_enc 8 (unat i), p + 9)"
    using codec_take_mid [of "p + 1" "pre @ [TAG_LOB]" 8 "le_enc 8 (unat i)" post] assms(1) by simp
  ultimately show ?thesis
    unfolding decode_value_def append_Cons using assms(2,3)
    by (simp add: decode_payload_def skip_payload_def word_le_dec8 lob_read_abs)
qed

subsection \<open>Rows\<close>

text \<open>\<open>stored lobs b v\<close>: the bytes \<open>b\<close> represent the value \<open>v\<close>, inline or as a reference into \<open>lobs\<close>.\<close>

definition stored :: "lob_store option \<Rightarrow> byte list \<Rightarrow> sql_value \<Rightarrow> bool" where
  "stored lobs b v \<longleftrightarrow> b = enc_value v \<and> inline_ok v \<or>
     (\<exists>l i s. lobs = Some l \<and> v = VStr s \<and> b = TAG_LOB # le_enc 8 (unat i) \<and> lob_abs l i = Some s \<and> utf8_valid s)"

lemma stored_mono: "stored (Some l) b v \<Longrightarrow> lob_abs l \<subseteq>\<^sub>m lob_abs l' \<Longrightarrow> stored (Some l') b v"
  unfolding stored_def map_le_def by (metis domI option.inject)

lemma decode_value_stored:
  assumes "stored lobs b v" "p = length pre"
  shows "decode_value (pre @ b @ post) p i lobs keep = Ok (if needs keep i then v else VNull, p + length b)"
  using assms(1) unfolding stored_def
proof (elim disjE exE conjE)
  assume "b = enc_value v" "inline_ok v"
  then show ?thesis using decode_value_enc [OF _ assms(2), of v post i lobs keep] by simp
next
  fix l j s assume "lobs = Some l" "v = VStr s" "b = TAG_LOB # le_enc 8 (unat j)" "lob_abs l j = Some s" "utf8_valid s"
  then show ?thesis using decode_value_lob [OF assms(2), of l j s post i keep] by simp
qed

fun pruned :: "bool list option \<Rightarrow> nat \<Rightarrow> sql_value list \<Rightarrow> sql_value list" where
  "pruned keep i [] = []"
| "pruned keep i (v # vs) = (if needs keep i then v else VNull) # pruned keep (Suc i) vs"

lemma pruned_None [simp]: "pruned None i vs = vs"
  by (induction vs arbitrary: i) (auto simp: needs_def)

lemma decode_values_stored:
  assumes "list_all2 (stored lobs) bs vs" "p = length pre"
  shows "decode_values (pre @ concat bs @ post) lobs keep p i (length vs) = Ok (pruned keep i vs, p + length (concat bs))"
  using assms
proof (induction arbitrary: pre p i rule: list_all2_induct)
  case (Cons b bs v vs)
  have "decode_value (pre @ b @ concat bs @ post) p i lobs keep = Ok (if needs keep i then v else VNull, p + length b)"
    by (rule decode_value_stored [OF Cons.hyps(1) Cons.prems])
  with Cons.IH [of "p + length b" "pre @ b" "Suc i"] Cons.prems show ?case by simp
qed simp

lemma decode_row_with_stored:
  assumes "list_all2 (stored lobs) bs vs" "length vs < 65536"
  shows "decode_row_with (le_enc 2 (length vs) @ concat bs @ post) lobs keep
    = Ok (pruned keep 0 vs, 2 + length (concat bs))"
proof -
  have "codec_take (le_enc 2 (length vs) @ concat bs @ post) 0 2 = Ok (le_enc 2 (length vs), 2)"
    using codec_take_mid [of 0 "[]" 2 "le_enc 2 (length vs)" "concat bs @ post"] by simp
  moreover have "le_dec (le_enc 2 (length vs)) = length vs"
    using assms(2) by (intro le_dec_enc_small) simp
  ultimately show ?thesis
    using decode_values_stored [OF assms(1), of 2 "le_enc 2 (length vs)" post keep 0]
    by (simp add: decode_row_with_def)
qed

text \<open>What can be encoded: valid strings, and those kept inline shorter than 64 KiB.\<close>

fun value_ok :: "nat \<Rightarrow> sql_value \<Rightarrow> bool" where
  "value_ok inline_limit (VStr s) = (utf8_valid s \<and> (length s \<le> inline_limit \<longrightarrow> length s < 65536))"
| "value_ok inline_limit _ = True"

text \<open>The ids a row's long strings get, from \<open>i\<close> on.\<close>

fun long_ids :: "nat \<Rightarrow> u64 \<Rightarrow> sql_value list \<Rightarrow> u64 list" where
  "long_ids inline_limit i [] = []"
| "long_ids inline_limit i (VStr s # vs) =
     (if inline_limit < length s then i # long_ids inline_limit (i + 1) vs else long_ids inline_limit i vs)"
| "long_ids inline_limit i (_ # vs) = long_ids inline_limit i vs"

definition lob_ids_of :: "byte list \<Rightarrow> u64 list" where
  "lob_ids_of b = (if hd b = TAG_LOB then [word_of_nat (le_dec (tl b))] else [])"

lemma enc_value_with_spec:
  assumes "enc_value_with limit v lobs = (b, lobs')" "value_ok limit v" "lob_inv lobs" "unat (lob_next_id lobs) + 1 < 2 ^ 64"
  shows "stored (Some lobs') b v \<and> lob_abs lobs \<subseteq>\<^sub>m lob_abs lobs' \<and> lob_inv lobs' \<and> length b = value_size limit v \<and>
    unat (lob_next_id lobs') \<le> unat (lob_next_id lobs) + 1 \<and>
    lob_ids_of b @ long_ids limit (lob_next_id lobs') vs = long_ids limit (lob_next_id lobs) (v # vs)"
proof (cases "\<exists>s. v = VStr s \<and> limit < length s")
  case True
  then obtain s where s: "v = VStr s" "limit < length s" by blast
  obtain i where w: "lob_write s lobs = (i, lobs')" and b: "b = TAG_LOB # le_enc 8 (unat i)"
    using assms(1) s by (auto simp: enc_value_with_def split: prod.splits)
  note ws = lob_write_spec [OF w]
  have "lob_next_id lobs \<noteq> - 1"
    using assms(4) by (auto simp: unsigned_minus_1_eq_mask mask_eq_exp_minus_1)
  then have "lob_inv lobs'" using lob_write_inv [OF assms(3) _ w] by blast
  moreover have "stored (Some lobs') b v"
    using s assms(2) ws b by (auto simp: stored_def)
  moreover have "lob_abs lobs \<subseteq>\<^sub>m lob_abs lobs'"
    using lob_inv_fresh [OF assms(3)] ws by (auto simp: map_le_def)
  moreover have "unat (lob_next_id lobs') \<le> unat (lob_next_id lobs) + 1"
    using assms(4) ws by (simp add: unat_word_ariths)
  ultimately show ?thesis
    using s b ws by (simp add: lob_ids_of_def word_le_dec8)
next
  case False
  then have "b = enc_value v" "lobs' = lobs"
    using assms(1) by (auto simp: enc_value_with_def split: sql_value.splits)
  with False assms(2,3) show ?thesis
    by (cases v) (auto simp: stored_def lob_ids_of_def)
qed

lemma enc_values_with_spec:
  assumes "enc_values_with limit vs lobs = (b, lobs')" "\<forall>v \<in> set vs. value_ok limit v" "lob_inv lobs"
    "unat (lob_next_id lobs) + length vs < 2 ^ 64"
  shows "\<exists>bs. b = concat bs \<and> list_all2 (stored (Some lobs')) bs vs \<and> lob_abs lobs \<subseteq>\<^sub>m lob_abs lobs' \<and> lob_inv lobs' \<and>
    length b = sum_list (map (value_size limit) vs) \<and> concat (map lob_ids_of bs) = long_ids limit (lob_next_id lobs) vs"
  using assms
proof (induction vs arbitrary: lobs b)
  case Nil
  then show ?case by (auto intro!: exI [of _ "[]"])
next
  case (Cons v vs)
  obtain b1 l1 where 1: "enc_value_with limit v lobs = (b1, l1)" by force
  obtain b2 l2 where 2: "enc_values_with limit vs l1 = (b2, l2)" by force
  have b: "b = b1 @ b2" "lobs' = l2" using Cons.prems(1) 1 2 by auto
  have s1: "stored (Some l1) b1 v \<and> lob_abs lobs \<subseteq>\<^sub>m lob_abs l1 \<and> lob_inv l1 \<and> length b1 = value_size limit v \<and>
    unat (lob_next_id l1) \<le> unat (lob_next_id lobs) + 1 \<and>
    lob_ids_of b1 @ long_ids limit (lob_next_id l1) vs = long_ids limit (lob_next_id lobs) (v # vs)"
    by (rule enc_value_with_spec [OF 1]) (use Cons.prems in auto)
  have "\<exists>bs. b2 = concat bs \<and> list_all2 (stored (Some l2)) bs vs \<and> lob_abs l1 \<subseteq>\<^sub>m lob_abs l2 \<and> lob_inv l2 \<and>
    length b2 = sum_list (map (value_size limit) vs) \<and> concat (map lob_ids_of bs) = long_ids limit (lob_next_id l1) vs"
    using Cons.IH [of l1 b2] 2 b Cons.prems s1 by simp
  then obtain bs where bs: "b2 = concat bs" "list_all2 (stored (Some l2)) bs vs" "lob_abs l1 \<subseteq>\<^sub>m lob_abs l2" "lob_inv l2"
    "length b2 = sum_list (map (value_size limit) vs)" "concat (map lob_ids_of bs) = long_ids limit (lob_next_id l1) vs" by blast
  have "stored (Some l2) b1 v" using s1 bs(3) stored_mono by blast
  then show ?case
    using s1 bs b by (intro exI [of _ "b1 # bs"]) (auto intro: map_le_trans)
qed

subsection \<open>Slicing and collecting without decoding\<close>

definition shape :: "byte \<Rightarrow> byte list \<Rightarrow> bool" where
  "shape tag body \<longleftrightarrow> tag = TAG_NULL \<and> body = [] \<or> tag \<in> {TAG_INT, TAG_FLOAT, TAG_LOB} \<and> length body = 8 \<or>
     tag = TAG_BOOL \<and> length body = 1 \<or> tag = TAG_DATE \<and> length body = 4 \<or>
     tag = TAG_STR \<and> (\<exists>s. body = le_enc 2 (length s) @ s \<and> length s < 65536)"

lemma stored_shape: "stored lobs b v \<Longrightarrow> \<exists>tag body. b = tag # body \<and> shape tag body"
  unfolding stored_def shape_def by (cases v) auto

fun offsets :: "nat \<Rightarrow> 'a list list \<Rightarrow> (nat \<times> nat) list" where
  "offsets p [] = []"
| "offsets p (b # bs) = (p, p + length b) # offsets (p + length b) bs"

lemma subl_offsets:
  "p = length pre \<Longrightarrow> map (\<lambda>(a, b). subl (pre @ concat bs @ post) a b) (offsets p bs) = bs"
proof (induction bs arbitrary: p pre)
  case (Cons b bs)
  from Cons.IH [of "p + length b" "pre @ b"] Cons.prems subl_mid [of p pre "p + length b" b "concat bs @ post"]
  show ?case by simp
qed simp

lemma payload_end_shape: "shape tag body \<Longrightarrow> p = length pre \<Longrightarrow> payload_end (pre @ body @ post) p tag = Ok (p + length body)"
  by (auto simp: shape_def payload_end_def payload_str)

lemma column_ranges_stored:
  assumes "list_all2 (stored lobs) bs vs" "p = length pre"
  shows "column_ranges (pre @ concat bs @ post) p (length vs) = Ok (offsets p bs)"
  using assms
proof (induction arbitrary: pre p rule: list_all2_induct)
  case (Cons b bs v vs)
  obtain tag body where b: "b = tag # body" "shape tag body" using stored_shape [OF Cons.hyps(1)] by blast
  have "payload_end (pre @ tag # body @ concat bs @ post) (p + 1) tag = Ok (p + 1 + length body)"
    using payload_end_shape [OF b(2), of "p + 1" "pre @ [tag]" "concat bs @ post"] Cons.prems by simp
  with Cons.IH [of "p + length b" "pre @ b"] Cons.prems b show ?case by simp
qed simp

lemma collect_ids_shape:
  assumes "shape tag body" "p = length pre" "d = pre @ tag # body @ post"
  shows "collect_ids d p (Suc n) = lob_ids_of (tag # body) @ collect_ids d (p + 1 + length body) n"
proof -
  have len: "length d = p + 1 + length body + length post" and tag: "d ! p = tag"
    by (simp_all add: assms)
  have s8: "rec_u64 d (p + 1) = word_of_nat (le_dec body)" if "length body = 8"
    using subl_mid [of "p + 1" "pre @ [tag]" "p + 1 + 8" body post] assms that by (simp add: rec_u64_def)
  have s2: "le_dec (subl d (p + 1) (p + 1 + 2)) = length s" if "body = le_enc 2 (length s) @ s" "length s < 65536" for s
    using subl_mid [of "p + 1" "pre @ [tag]" "p + 1 + 2" "le_enc 2 (length s)" "s @ post"] assms that
    by (simp add: le_dec_enc_small)
  from assms(1) show ?thesis
    unfolding shape_def
  proof (elim disjE conjE exE)
    fix s assume "tag = TAG_STR" "body = le_enc 2 (length s) @ s" "length s < 65536"
    then show ?thesis using s2 [of s] by (simp add: len tag Let_def lob_ids_of_def)
  qed (use s8 in \<open>auto simp: len tag Let_def lob_ids_of_def\<close>)
qed

lemma collect_ids_stored:
  assumes "list_all2 (stored lobs) bs vs" "p = length pre"
  shows "collect_ids (pre @ concat bs @ post) p (length vs) = concat (map lob_ids_of bs)"
  using assms
proof (induction arbitrary: pre p rule: list_all2_induct)
  case (Cons b bs v vs)
  obtain tag body where b: "b = tag # body" and sh: "shape tag body" using stored_shape [OF Cons.hyps(1)] by blast
  have "collect_ids (pre @ concat (b # bs) @ post) p (Suc (length vs))
    = lob_ids_of b @ collect_ids (pre @ concat (b # bs) @ post) (p + 1 + length body) (length vs)"
    unfolding b by (rule collect_ids_shape [OF sh Cons.prems, of _ "concat bs @ post"]) simp
  with Cons.IH [of "p + length b" "pre @ b"] Cons.prems b show ?case by simp
qed simp

subsection \<open>Records\<close>

lemma drop_version_header: "drop RECORD_HEADER (version_header c d n @ b) = b" "length (version_header c d n) = RECORD_HEADER"
  by (simp_all add: version_header_def RECORD_HEADER_def)

lemma rec_u64_header:
  "rec_u64 (version_header c d n @ b) 0 = c" "rec_u64 (version_header c d n @ b) 8 = d" "rec_u64 (version_header c d n @ b) 16 = n"
proof -
  have "subl (version_header c d n @ b) 0 8 = le_enc 8 (unat c)" "subl (version_header c d n @ b) 8 16 = le_enc 8 (unat d)"
    "subl (version_header c d n @ b) 16 24 = le_enc 8 (unat n)"
    unfolding version_header_def append_assoc
    using subl_mid [of 0 "[]" 8 "le_enc 8 (unat c)"] subl_mid [of 8 "le_enc 8 (unat c)" 16 "le_enc 8 (unat d)"]
      subl_mid [of 16 "le_enc 8 (unat c) @ le_enc 8 (unat d)" 24 "le_enc 8 (unat n)"]
    by simp_all
  then show "rec_u64 (version_header c d n @ b) 0 = c" "rec_u64 (version_header c d n @ b) 8 = d" "rec_u64 (version_header c d n @ b) 16 = n"
    by (simp_all add: rec_u64_def word_le_dec8)
qed

lemma foldl_add_size: "foldl (\<lambda>size v. size + f v) a xs = a + sum_list (map f xs)" for a :: nat
  by (induction xs arbitrary: a) auto

lemma inline_stored: "inline_ok v \<Longrightarrow> stored lobs (enc_value v) v"
  by (simp add: stored_def)

lemma row_stored: "\<forall>v \<in> set row. inline_ok v \<Longrightarrow> list_all2 (stored lobs) (map enc_value row) row"
  by (induction row) (auto simp: inline_stored)

text \<open>
  C18: Versioned records round-trip. Encoding a row with strings longer than the limit moved out of
  line, then decoding with the resulting large-object store, or any later one that still has those
  objects, gives back the creator, the deleter and exactly the row; columns pruned from the
  decoding become NULL and the others are unchanged; the forward pointer reads back; the record has the announced size;
  and the object ids collected from the raw bytes are exactly the freshly assigned ones. It holds for rows of fewer than
  65536 columns whose strings are valid UTF-8 and, when inline, shorter than 64 KiB.
\<close>

theorem record_roundtrip:
  assumes "encode_record creator deleter next_rid row limit lobs = (rec, lobs')" "\<forall>v \<in> set row. value_ok limit v"
    "length row < 65536" "lob_inv lobs" "unat (lob_next_id lobs) + length row < 2 ^ 64" "lob_abs lobs' \<subseteq>\<^sub>m lob_abs l"
  shows "decode_record rec l = Ok (creator, deleter, row) \<and>
    (\<forall>keep. decode_record_pruned rec l keep = Ok (creator, deleter, pruned (Some keep) 0 row)) \<and>
    record_version rec = Ok (creator, deleter) \<and> record_next_rid rec = Ok next_rid \<and>
    length rec = RECORD_HEADER + encoded_row_size row limit \<and>
    collect_lob_ids rec = long_ids limit (lob_next_id lobs) row \<and> lob_inv lobs' \<and> lob_abs lobs \<subseteq>\<^sub>m lob_abs lobs'"
proof -
  obtain b where w: "enc_values_with limit row lobs = (b, lobs')" and rec: "rec = version_header creator deleter next_rid @ le_enc 2 (length row) @ b"
    using assms(1) by (auto simp: encode_record_def encode_row_with_def split: prod.splits)
  from enc_values_with_spec [OF w assms(2,4,5)] obtain bs where
    b: "b = concat bs" "list_all2 (stored (Some lobs')) bs row" "lob_abs lobs \<subseteq>\<^sub>m lob_abs lobs'" "lob_inv lobs'"
    "length b = sum_list (map (value_size limit) row)" "concat (map lob_ids_of bs) = long_ids limit (lob_next_id lobs) row" by blast
  have st: "list_all2 (stored (Some l)) bs row"
    using b(2) by (rule list_all2_mono) (use assms(6) stored_mono in blast)
  have row: "drop RECORD_HEADER rec = le_enc 2 (length row) @ concat bs @ []"
    by (simp add: rec b(1) drop_version_header)
  have dec: "decode_row_with (drop RECORD_HEADER rec) (Some l) keep = Ok (pruned keep 0 row, 2 + length (concat bs))" for keep
    unfolding row by (rule decode_row_with_stored [OF st assms(3)])
  have ver: "record_version rec = Ok (creator, deleter)" "record_next_rid rec = Ok next_rid"
    by (simp_all add: record_version_def record_next_rid_def rec rec_u64_header drop_version_header)
  have "le_dec (le_enc 2 (length row)) = length row"
    using assms(3) by (intro le_dec_enc_small) simp
  then have ids: "collect_lob_ids rec = long_ids limit (lob_next_id lobs) row"
    using collect_ids_stored [OF st, of 2 "le_enc 2 (length row)" "[]"] subl_prefix [of "le_enc 2 (length row)" "concat bs"]
    by (simp add: collect_lob_ids_def row collect_row_lob_ids_def b(6)) (simp add: rec drop_version_header)
  show ?thesis
    using dec [of None] dec ver ids b(3,4,5)
    by (simp add: decode_record_def decode_record_pruned_def)
      (simp add: rec drop_version_header encoded_row_size_def foldl_add_size)
qed

theorem record_roundtrip_witness:
  "\<exists>lobs'. encode_record 3 0 7 [VInt 5, VStr [104, 105], VNull] 1 \<lparr>lob_files = [], lob_next_id = 1\<rparr>
      = (fst (encode_record 3 0 7 [VInt 5, VStr [104, 105], VNull] 1 \<lparr>lob_files = [], lob_next_id = 1\<rparr>), lobs') \<and>
    decode_record (fst (encode_record 3 0 7 [VInt 5, VStr [104, 105], VNull] 1 \<lparr>lob_files = [], lob_next_id = 1\<rparr>)) lobs'
      = Ok (3, 0, [VInt 5, VStr [104, 105], VNull])"
proof -
  let ?row = "[VInt 5, VStr [104, 105], VNull]" and ?l = "\<lparr>lob_files = [], lob_next_id = 1\<rparr>"
  obtain rec lobs' where e: "encode_record 3 0 7 ?row 1 ?l = (rec, lobs')" by force
  have "\<forall>v \<in> set ?row. value_ok 1 v" by (simp add: utf8_valid_def)
  moreover have "lob_inv ?l" by (simp add: lob_inv_def lob_abs_def)
  ultimately have "decode_record rec lobs' = Ok (3, 0, ?row)"
    using record_roundtrip [OF e, of lobs'] by simp
  with e show ?thesis by simp
qed

lemma decode_row_enc:
  assumes "\<forall>v \<in> set row. inline_ok v" "length row < 65536"
  shows "decode_row (encode_row row @ rest) = Ok (row, length (encode_row row))"
  using decode_row_with_stored [OF row_stored [OF assms(1)] assms(2), where lobs = None and post = rest and keep = None]
  by (simp add: decode_row_def encode_row_def)

lemma encode_row_inj:
  assumes "\<forall>v \<in> set row. inline_ok v" "length row < 65536" "\<forall>v \<in> set row'. inline_ok v" "length row' < 65536"
    and "encode_row row = encode_row row'"
  shows "row = row'"
  using decode_row_enc [OF assms(1,2), of "[]"] decode_row_enc [OF assms(3,4), of "[]"] assms(5) by simp

text \<open>
  Inline rows round-trip and are told apart by their bytes. \<open>decode_row\<close> after \<open>encode_row\<close> returns the row and
  the number of bytes it occupies, whatever follows; column ranges taken from the encoding slice it
  into exactly the encodings of the values; and two rows with the same encoding are equal, which
  is what grouping and hash joins on encoded rows rely on.
\<close>

lemma row_roundtrip:
  assumes "\<forall>v \<in> set row. inline_ok v" "length row < 65536"
  shows "decode_row (encode_row row @ rest) = Ok (row, length (encode_row row)) \<and>
    (\<exists>rs. row_column_ranges (encode_row row) = Ok rs \<and> map (\<lambda>(a, b). subl (encode_row row) a b) rs = map enc_value row) \<and>
    (\<forall>row'. (\<forall>v \<in> set row'. inline_ok v) \<and> length row' < 65536 \<and> encode_row row' = encode_row row \<longrightarrow> row' = row)"
proof (intro conjI allI impI)
  show "decode_row (encode_row row @ rest) = Ok (row, length (encode_row row))"
    by (rule decode_row_enc [OF assms])
  show "row' = row" if "(\<forall>v \<in> set row'. inline_ok v) \<and> length row' < 65536 \<and> encode_row row' = encode_row row" for row'
    using that encode_row_inj [of row' row] assms by simp
  have "le_dec (le_enc 2 (length row)) = length row"
    using assms(2) by (intro le_dec_enc_small) simp
  moreover have "subl (encode_row row) 0 2 = le_enc 2 (length row)"
    using subl_prefix [of "le_enc 2 (length row)"] by (simp add: encode_row_def)
  ultimately have "row_column_ranges (encode_row row) = Ok (offsets 2 (map enc_value row))"
    using column_ranges_stored [OF row_stored [OF assms(1), of None], of 2 "le_enc 2 (length row)" "[]"]
    by (simp add: row_column_ranges_def) (simp add: encode_row_def)
  moreover have "map (\<lambda>(a, b). subl (encode_row row) a b) (offsets 2 (map enc_value row)) = map enc_value row"
    using subl_offsets [of 2 "le_enc 2 (length row)" "map enc_value row" "[]"] by (simp add: encode_row_def)
  ultimately show "\<exists>rs. row_column_ranges (encode_row row) = Ok rs \<and> map (\<lambda>(a, b). subl (encode_row row) a b) rs = map enc_value row"
    by blast
qed

lemma row_roundtrip_witness:
  "decode_row (encode_row [VInt 5, VStr [104, 105], VBool True] @ [1, 2])
     = Ok ([VInt 5, VStr [104, 105], VBool True], length (encode_row [VInt 5, VStr [104, 105], VBool True]))"
  by (rule row_roundtrip [THEN conjunct1]) (simp_all add: utf8_valid_def)

lemma decode_inline_string:
  fixes s :: "byte list"
  assumes "p = length front" "m = length s mod 65536"
  shows "decode_value (front @ enc_value (VStr s) @ rest) p i lobs None =
    (if utf8_valid (take m s) then Ok (VStr (take m s), p + 3 + m) else Err (Runtime ''invalid utf8 in stored string''))"
proof -
  have d: "front @ enc_value (VStr s) @ rest = (front @ [TAG_STR]) @ le_enc 2 (length s) @ s @ rest"
    "front @ enc_value (VStr s) @ rest = (front @ TAG_STR # le_enc 2 (length s)) @ take m s @ drop m s @ rest" by simp_all
  have m: "m \<le> length s" "le_dec (le_enc 2 (length s)) = m" using assms(2) by (simp_all add: byte_simps)
  have "codec_take (front @ enc_value (VStr s) @ rest) p 1 = Ok ([TAG_STR], p + 1)"
    using codec_take_mid1 [OF assms(1), of TAG_STR "le_enc 2 (length s) @ s @ rest"] by simp
  moreover have "codec_take (front @ enc_value (VStr s) @ rest) (p + 1) 2 = Ok (le_enc 2 (length s), p + 1 + 2)"
    unfolding d(1) by (rule codec_take_mid) (simp_all add: assms(1))
  moreover have "codec_take (front @ enc_value (VStr s) @ rest) (Suc (Suc (Suc p))) m = Ok (take m s, p + 3 + m)"
    unfolding d(2) using m(1) codec_take_mid [of "p + 3" "front @ TAG_STR # le_enc 2 (length s)" m "take m s" "drop m s @ rest"] assms(1)
    by (simp add: numeral_3_eq_3)
  ultimately show ?thesis
    by (simp add: decode_value_def decode_payload_def needs_def m(2) del: enc_value.simps)
qed

text \<open>
  C19: An inline length is cast to 16 bits. A string of 65536 bytes or more, in whatever column of a row, is written with its
  length modulo 65536, so reading the column gives only that many bytes of it, or an error if they end inside a character;
  the other bytes are left behind where the next column is expected. Only the large-object path avoids this.
\<close>

theorem inline_length_truncated:
  assumes "65536 \<le> length s" "m = length s mod 65536"
  shows "decode_value (encode_row (front @ VStr s # rest)) (length (encode_row front)) (length front) None None =
      (if utf8_valid (take m s) then Ok (VStr (take m s), length (encode_row front) + 3 + m)
       else Err (Runtime ''invalid utf8 in stored string'')) \<and>
    take m s \<noteq> s \<and>
    decode_row (encode_row [VStr s]) =
      (if utf8_valid (take m s) then Ok ([VStr (take m s)], 5 + m) else Err (Runtime ''invalid utf8 in stored string''))"
proof (intro conjI)
  let ?front = "le_enc 2 (length (front @ VStr s # rest)) @ concat (map enc_value front)"
  have "encode_row (front @ VStr s # rest) = ?front @ enc_value (VStr s) @ concat (map enc_value rest)"
    by (simp add: encode_row_def)
  moreover have "length (encode_row front) = length ?front" by (simp add: encode_row_def)
  ultimately show "decode_value (encode_row (front @ VStr s # rest)) (length (encode_row front)) (length front) None None =
      (if utf8_valid (take m s) then Ok (VStr (take m s), length (encode_row front) + 3 + m)
       else Err (Runtime ''invalid utf8 in stored string''))"
    by (simp only: decode_inline_string [OF _ assms(2)])
  have "m < 65536" using assms(2) by simp
  then have "length (take m s) \<noteq> length s" using assms(1) by simp
  then show "take m s \<noteq> s" by metis
  have e: "encode_row [VStr s] = le_enc 2 1 @ enc_value (VStr s) @ []" by (simp add: encode_row_def)
  have "codec_take (encode_row [VStr s]) 0 2 = Ok (le_enc 2 1, 2)"
    using codec_take_mid [of 0 "[]" 2 "le_enc 2 1" "enc_value (VStr s)"] e by simp
  moreover have "decode_value (encode_row [VStr s]) 2 0 None None =
      (if utf8_valid (take m s) then Ok (VStr (take m s), 2 + 3 + m) else Err (Runtime ''invalid utf8 in stored string''))"
    unfolding e by (rule decode_inline_string) (simp_all add: assms(2))
  ultimately show "decode_row (encode_row [VStr s]) =
      (if utf8_valid (take m s) then Ok ([VStr (take m s)], 5 + m) else Err (Runtime ''invalid utf8 in stored string''))"
    by (simp add: decode_row_def decode_row_with_def le_dec_enc_small)
qed

theorem inline_length_truncated_witness:
  "decode_row (encode_row [VStr (replicate 65539 97)]) = Ok ([VStr [97, 97, 97]], 8)"
proof -
  have "(65536::nat) \<le> length (replicate 65539 (97::byte))" "(3::nat) = length (replicate 65539 (97::byte)) mod 65536" by simp_all
  from inline_length_truncated [OF this, of "[]" "[]"]
  have "decode_row (encode_row [VStr (replicate 65539 97)]) =
    (if utf8_valid (take 3 (replicate 65539 97)) then Ok ([VStr (take 3 (replicate 65539 97))], 5 + 3) else Err (Runtime ''invalid utf8 in stored string''))"
    by blast
  moreover have "take 3 (replicate 65539 (97::byte)) = [97, 97, 97]" by (simp add: numeral_3_eq_3)
  ultimately show ?thesis by (simp add: utf8_valid_def)
qed

text \<open>
  Row ids survive the forward pointer: unpacking a packed page number and slot gives them back, and
  distinct row ids get distinct pointers.
\<close>

lemma rid_packing_roundtrip:
  "unpack_rid (pack_rid p s) = (p, s) \<and> (pack_rid p s = pack_rid p' s') = (p = p' \<and> s = s')"
proof -
  have u: "unpack_rid (pack_rid p s) = (p, s)" for p s
  proof -
    have "ucast (drop_bit 16 (pack_rid p s)) = p"
      by (rule bit_word_eqI) (auto simp: pack_rid_def bit_simps dest: bit_imp_le_length)
    moreover have "ucast (pack_rid p s) = s"
      by (rule bit_word_eqI) (auto simp: pack_rid_def bit_simps)
    ultimately show ?thesis by (simp add: unpack_rid_def)
  qed
  then show ?thesis by (metis prod.inject)
qed

subsection \<open>Sinks\<close>

lemma bindR_case: "bindR m f = (case m of Ok x \<Rightarrow> f x | Err e \<Rightarrow> Err e)"
  by (cases m) auto

lemma decode_each_push:
  "decode_each data lobs keep (\<lambda>_ v out. Ok (out @ [v])) pos i n s =
     bindR (decode_values data lobs keep pos i n) (\<lambda>(vs, _). Ok (s @ vs))"
  by (induction n arbitrary: pos i s) (auto simp: bindR_case split: result.split prod.split)

lemma decode_values_length: "decode_values data lobs keep pos i n = Ok (vs, p) \<Longrightarrow> length vs = n"
  by (induction n arbitrary: pos i vs) (auto simp: bindR_case split: result.splits prod.splits)

lemma decode_row_into_eq:
  "decode_row_into data lobs keep = bindR (decode_row_with data lobs keep) (\<lambda>(vs, _). Ok (length vs, vs))"
  by (auto simp: decode_row_into_def decode_row_each_def decode_row_with_def decode_each_push bindR_case
      split: result.split prod.split dest: decode_values_length)

end
