(* ===== verification/Index_Key.thy ===== *)
theory Index_Key
  imports Value
begin

section \<open>Index keys\<close>

text \<open>
  \<open>src/src/index/key.rs\<close>: the byte encoding of a value under which the B+ tree compares keys. The lemmas show
  that byte order is the order of the values: NULL first, then by type, and within a type by value.
\<close>

unbundle bit_operations_syntax

definition KEY_NULL :: byte where "KEY_NULL = 0x00"
definition KEY_INT :: byte where "KEY_INT = 0x01"
definition KEY_FLOAT :: byte where "KEY_FLOAT = 0x02"
definition KEY_STR :: byte where "KEY_STR = 0x03"
definition KEY_DATE :: byte where "KEY_DATE = 0x04"

lemmas key_tag_defs = KEY_NULL_def KEY_INT_def KEY_FLOAT_def KEY_STR_def KEY_DATE_def

fun encode_key_into :: "byte list \<Rightarrow> sql_value \<Rightarrow> byte list result" where
  "encode_key_into buf VNull = Ok (buf @ [KEY_NULL])"
| "encode_key_into buf (VInt n) =
     (let flipped = n XOR push_bit 63 1 in Ok (buf @ KEY_INT # be_enc 8 (unat flipped)))"
| "encode_key_into buf (VFloat x) =
     (let bits = (if f64_eq x 0 then 0 else x);
          ordered = (if drop_bit 63 bits = 1 then NOT bits else bits XOR push_bit 63 1)
      in Ok (buf @ KEY_FLOAT # be_enc 8 (unat ordered)))"
| "encode_key_into buf (VStr s) = Ok (buf @ KEY_STR # s @ [0x00])"
| "encode_key_into buf (VDate d) =
     (let flipped = d XOR push_bit 31 1 in Ok (buf @ KEY_DATE # be_enc 4 (unat flipped)))"
| "encode_key_into buf (VBool b) = Err (Runtime ''cannot index boolean values'')"

definition encode_key :: "sql_value \<Rightarrow> byte list result" where
  "encode_key v = encode_key_into [] v"

subsection \<open>Sign-flipped integers\<close>

lemma xor_msb:
  fixes n :: "'a :: len word"
  assumes "LENGTH('a) = Suc k"
  shows "n XOR push_bit k 1 = n + 2 ^ k"
proof (cases "bit n k")
  case False
  then have "n AND push_bit k 1 = 0" by (auto intro!: bit_word_eqI simp: bit_simps)
  then show ?thesis by (simp add: disjunctive_add_eq_xor push_bit_of_1)
next
  case True
  let ?u = "n XOR push_bit k 1"
  have "?u AND push_bit k 1 = 0" using True by (auto intro!: bit_word_eqI simp: bit_simps)
  then have "?u + push_bit k 1 = ?u XOR push_bit k 1" by (rule disjunctive_add_eq_xor)
  then have "n = ?u + 2 ^ k" by (simp add: xor.assoc push_bit_of_1)
  then have "n + 2 ^ k = ?u + 2 ^ Suc k" by (metis add.assoc mult_2 power_Suc)
  also have "2 ^ Suc k = (0 :: 'a word)" using assms by (metis word_exp_length_eq_0)
  finally show ?thesis by simp
qed

lemma unat_sint_flip:
  fixes n :: "'a :: len word"
  assumes "LENGTH('a) = Suc k"
  shows "int (unat (n XOR push_bit k 1)) = sint n + 2 ^ k"
proof -
  have "int (unat (n + 2 ^ k)) = uint (word_of_int (uint n + 2 ^ k) :: 'a word)" by simp
  also have "\<dots> = take_bit (Suc k) (uint n + 2 ^ k)"
    unfolding uint_word_of_int take_bit_eq_mod assms ..
  also have "\<dots> = signed_take_bit k (uint n) + 2 ^ k"
    by (simp add: signed_take_bit_eq_take_bit_shift)
  also have "signed_take_bit k (uint n) = sint n"
    using assms by (simp add: sint_uint)
  finally show ?thesis unfolding xor_msb [OF assms] .
qed

subsection \<open>Floats\<close>

definition ordered_bits :: "f64 \<Rightarrow> u64" where
  "ordered_bits x = (let bits = (if f64_eq x 0 then 0 else x)
     in if drop_bit 63 bits = 1 then NOT bits else bits XOR push_bit 63 1)"

lemma drop_63: "drop_bit 63 (x :: f64) = 1 \<longleftrightarrow> bit x 63"
proof -
  have "drop_bit 63 x = of_bool (bit x 63)"
  proof (rule bit_word_eqI)
    fix n assume "n < LENGTH(64)"
    show "bit (drop_bit 63 x) n \<longleftrightarrow> bit (of_bool (bit x 63) :: f64) n"
      using bit_imp_le_length [of x "63 + n"] by (cases n) (auto simp: bit_simps)
  qed
  then show ?thesis by simp
qed

lemma f64_eq_0: "f64_eq x 0 \<longleftrightarrow> f64_magnitude x = 0"
  by (auto simp: f64_eq_def f64_key_def f64_is_nan_def f64_magnitude_mod)

lemma unat_ordered_bits:
  "int (unat (ordered_bits x)) = (if f64_key x < 0 then 2 ^ 63 - 1 + f64_key x else 2 ^ 63 + f64_key x)"
proof (cases "bit x 63 \<and> f64_magnitude x \<noteq> 0")
  case True
  then have o: "ordered_bits x = NOT x" by (simp add: ordered_bits_def f64_eq_0 drop_63)
  have "NOT x = - 1 - x" by (simp add: not_eq_complement)
  then have "unat (NOT x) = 2 ^ 64 - 1 - unat x"
    by (simp add: unat_sub unsigned_minus_1_eq_mask mask_eq_exp_minus_1)
  with True o unat_f64 [of x] f64_magnitude_bound [of x] show ?thesis
    by (simp add: f64_key_def)
next
  case False
  let ?b = "if f64_eq x 0 then 0 else x"
  have nb: "\<not> bit ?b 63" "f64_key ?b = f64_key x"
    using False by (auto simp: f64_eq_0 f64_key_def f64_magnitude_mod)
  then have o: "ordered_bits x = ?b + 2 ^ 63"
    using xor_msb [of 63 ?b] by (simp add: ordered_bits_def drop_63 Let_def)
  have "unat ?b = f64_magnitude ?b" using unat_f64 [of ?b] nb(1) by simp
  then have "int (unat (ordered_bits x)) = int (f64_magnitude ?b) + 2 ^ 63"
    using f64_magnitude_bound [of ?b] by (simp only: o unat_word_ariths) simp
  with nb show ?thesis by (simp add: f64_key_def split: if_splits)
qed

subsection \<open>Byte order is value order\<close>

fun key_rank :: "sql_value \<Rightarrow> nat" where
  "key_rank VNull = 0"
| "key_rank (VInt _) = 1"
| "key_rank (VFloat _) = 2"
| "key_rank (VStr _) = 3"
| "key_rank (VDate _) = 4"
| "key_rank (VBool _) = 5"

fun key_less :: "sql_value \<Rightarrow> sql_value \<Rightarrow> bool" where
  "key_less (VInt a) (VInt b) = (sint a < sint b)"
| "key_less (VFloat a) (VFloat b) = (f64_key a < f64_key b)"
| "key_less (VStr a) (VStr b) = (a < b)"
| "key_less (VDate a) (VDate b) = (sint a < sint b)"
| "key_less v w = (key_rank v < key_rank w)"

fun key_eq :: "sql_value \<Rightarrow> sql_value \<Rightarrow> bool" where
  "key_eq (VFloat a) (VFloat b) = (f64_key a = f64_key b)"
| "key_eq v w = (v = w)"

lemma terminated_less: "(s @ [0] < t @ [0]) = (s < (t :: byte list))"
proof (induction s arbitrary: t)
  case Nil
  show ?case by (cases t; cases "tl t") (auto simp: word_gt_0)
next
  case (Cons a s)
  show ?case
  proof (cases t)
    case Nil
    have "\<not> a < 0" by (simp add: word_less_nat_alt)
    with Nil show ?thesis by (cases "s @ [0]") auto
  qed (use Cons in auto)
qed

lemma be8_less: "(be_enc 8 (unat a) < be_enc 8 (unat b)) = (unat a < unat b)" for a b :: u64
  using unat_u64_bound [of a] unat_u64_bound [of b] by (simp add: be_enc_less)

lemma be8_eq: "(be_enc 8 (unat a) = be_enc 8 (unat b)) = (unat a = unat b)" for a b :: u64
  using unat_u64_bound [of a] unat_u64_bound [of b] by (simp add: be_enc_inject)

lemma be4_less: "(be_enc 4 (unat a) < be_enc 4 (unat b)) = (unat a < unat b)" for a b :: u32
  using unat_u32_bound [of a] unat_u32_bound [of b] by (simp add: be_enc_less)

lemma be4_eq: "(be_enc 4 (unat a) = be_enc 4 (unat b)) = (unat a = unat b)" for a b :: u32
  using unat_u32_bound [of a] unat_u32_bound [of b] by (simp add: be_enc_inject)

lemma flip_order:
  fixes a b :: "'a :: len word"
  assumes "LENGTH('a) = Suc k"
  shows "(unat (a XOR push_bit k 1) < unat (b XOR push_bit k 1)) = (sint a < sint b)"
    "(unat (a XOR push_bit k 1) = unat (b XOR push_bit k 1)) = (a = b)"
proof -
  note flip = unat_sint_flip [OF assms]
  show "(unat (a XOR push_bit k 1) < unat (b XOR push_bit k 1)) = (sint a < sint b)"
    using flip [of a] flip [of b] by linarith
  show "(unat (a XOR push_bit k 1) = unat (b XOR push_bit k 1)) = (a = b)"
  proof
    assume "unat (a XOR push_bit k 1) = unat (b XOR push_bit k 1)"
    then have "sint a = sint b" using flip [of a] flip [of b] by linarith
    then show "a = b" by (rule signed_word_eqI)
  qed simp
qed

lemmas flip64 = flip_order [where 'a = 64 and k = 63, simplified]
lemmas flip32 = flip_order [where 'a = 32 and k = 31, simplified]

lemma ordered_order:
  "(unat (ordered_bits a) < unat (ordered_bits b)) = (f64_key a < f64_key b)"
  "(unat (ordered_bits a) = unat (ordered_bits b)) = (f64_key a = f64_key b)"
  using unat_ordered_bits [of a] unat_ordered_bits [of b]
  by (cases "f64_key a < 0"; cases "f64_key b < 0"; simp only: if_True if_False; linarith)+

lemma encode_key_simps:
  "encode_key VNull = Ok [KEY_NULL]"
  "encode_key (VInt n) = Ok (KEY_INT # be_enc 8 (unat (n XOR push_bit 63 1)))"
  "encode_key (VFloat x) = Ok (KEY_FLOAT # be_enc 8 (unat (ordered_bits x)))"
  "encode_key (VStr s) = Ok (KEY_STR # s @ [0])"
  "encode_key (VDate d) = Ok (KEY_DATE # be_enc 4 (unat (d XOR push_bit 31 1)))"
  "encode_key (VBool b) = Err (Runtime ''cannot index boolean values'')"
  by (simp_all add: encode_key_def ordered_bits_def Let_def)

lemma key_bytes_order:
  assumes "encode_key v = Ok a" "encode_key w = Ok b"
  shows "(a < b) = key_less v w" and "(a = b) = key_eq v w"
  using assms
  by (cases v; cases w; auto simp: encode_key_simps key_tag_defs be8_less be8_eq be4_less be4_eq
      flip64 flip32 ordered_order terminated_less)+

text \<open>
  C21: Index keys compare like the values. For any two indexable values the encoded bytes compare,
  as byte strings, exactly as the values do: NULL before everything, then integers, floats,
  strings and dates; integers and dates by signed value, strings by their bytes (embedded zero bytes included), floats
  by IEEE order with the infinities at the ends and the two zeros equal; and equal keys mean equal
  values. Every value but a boolean can be encoded, and appending to a buffer adds exactly these bytes.
\<close>

theorem index_key_order:
  "(\<forall>a b. encode_key v = Ok a \<and> encode_key w = Ok b \<longrightarrow> (a < b) = key_less v w \<and> (a = b) = key_eq v w) \<and>
   (\<exists>a. encode_key v = Ok a) = (\<forall>b. v \<noteq> VBool b) \<and>
   encode_key_into buf v = bindR (encode_key v) (\<lambda>a. Ok (buf @ a)) \<and>
   (\<not> f64_is_nan x \<and> \<not> f64_is_nan y \<longrightarrow> key_less (VFloat x) (VFloat y) = (f64_partial_cmp x y = Some Less))"
proof (intro conjI)
  show "\<forall>a b. encode_key v = Ok a \<and> encode_key w = Ok b \<longrightarrow> (a < b) = key_less v w \<and> (a = b) = key_eq v w"
    using key_bytes_order by blast
  show "(\<exists>a. encode_key v = Ok a) = (\<forall>b. v \<noteq> VBool b)"
    by (cases v) (simp_all add: encode_key_simps)
  show "encode_key_into buf v = bindR (encode_key v) (\<lambda>a. Ok (buf @ a))"
    by (cases v) (simp_all add: encode_key_def Let_def)
  show "\<not> f64_is_nan x \<and> \<not> f64_is_nan y \<longrightarrow> key_less (VFloat x) (VFloat y) = (f64_partial_cmp x y = Some Less)"
    by (simp add: f64_partial_cmp_def)
qed

theorem index_key_order_witness:
  "\<exists>a b. encode_key (VInt (- 7)) = Ok a \<and> encode_key (VInt 3) = Ok b \<and> a < b"
proof -
  obtain a b where ab: "encode_key (VInt (- 7)) = Ok a" "encode_key (VInt 3) = Ok b"
    by (simp add: encode_key_simps)
  with index_key_order [of "VInt (- 7)" "VInt 3"] have "(a < b) = key_less (VInt (- 7)) (VInt 3)" by blast
  moreover have "key_less (VInt (- 7)) (VInt 3)" by simp
  ultimately show ?thesis using ab by blast
qed

end
