(* ===== verification/Datetime.thy ===== *)
theory Datetime
  imports Value
begin

section \<open>Dates\<close>

text \<open>
  \<open>src/src/sql/datetime.rs\<close>: dates as days since 1970-01-01 and their text form. The \<open>i64\<close> arithmetic cannot overflow for
  days that fit an \<open>i32\<close> or years of four digits, so it is done on \<open>int\<close>; \<open>quot\<close> is Rust's
  division, which rounds towards zero. The lemmas show that the two conversions are inverse to each
  other on all days and on all valid dates, and that text and day numbers convert back and forth.
\<close>

definition quot :: "int \<Rightarrow> int \<Rightarrow> int" where
  "quot a b = (if 0 \<le> a then a div b else - ((- a) div b))"

definition is_leap :: "int \<Rightarrow> bool" where
  "is_leap y = (y mod 4 = 0 \<and> (y mod 100 \<noteq> 0 \<or> y mod 400 = 0))"

definition days_in_month :: "int \<Rightarrow> int \<Rightarrow> int" where
  "days_in_month y m =
     (if m \<in> {1, 3, 5, 7, 8, 10, 12} then 31
      else if m \<in> {4, 6, 9, 11} then 30
      else if m = 2 then (if is_leap y then 29 else 28)
      else 0)"

definition days_from_civil :: "int \<Rightarrow> int \<Rightarrow> int \<Rightarrow> int" where
  "days_from_civil y m d =
     (let y = (if m \<le> 2 then y - 1 else y);
          era = quot (if 0 \<le> y then y else y - 399) 400;
          yoe = y - era * 400;
          mp = (m + 9) mod 12;
          doy = (153 * mp + 2) div 5 + d - 1;
          doe = yoe * 365 + yoe div 4 - yoe div 100 + doy
      in era * 146097 + doe - 719468)"

definition civil_from_days :: "int \<Rightarrow> int \<times> int \<times> int" where
  "civil_from_days z =
     (let z = z + 719468;
          era = quot (if 0 \<le> z then z else z - 146096) 146097;
          doe = z - era * 146097;
          yoe = (doe - doe div 1460 + doe div 36524 - doe div 146096) div 365;
          y = yoe + era * 400;
          doy = doe - (365 * yoe + yoe div 4 - yoe div 100);
          mp = (5 * doy + 2) div 153;
          d = doy - (153 * mp + 2) div 5 + 1;
          m = (if mp < 10 then mp + 3 else mp - 9)
      in (if m \<le> 2 then y + 1 else y, m, d))"

definition is_digit :: "byte \<Rightarrow> bool" where
  "is_digit b = (48 \<le> b \<and> b \<le> 57)"

fun digits_value :: "byte list \<Rightarrow> int \<Rightarrow> int" where
  "digits_value [] a = a"
| "digits_value (b # bs) a = digits_value bs (10 * a + int (unat b - 48))"

definition parse_date :: "rust_string \<Rightarrow> i32 result" where
  "parse_date s =
     (if length s \<noteq> 10 \<or> s ! 4 \<noteq> 45 \<or> s ! 7 \<noteq> 45 \<or> \<not> list_all is_digit (subl s 0 4) \<or>
         \<not> list_all is_digit (subl s 5 7) \<or> \<not> list_all is_digit (subl s 8 10)
      then Err (Runtime ''invalid date'')
      else
        let year = digits_value (subl s 0 4) 0; month = digits_value (subl s 5 7) 0; day = digits_value (subl s 8 10) 0 in
        if \<not> (1 \<le> month \<and> month \<le> 12) then Err (Runtime ''invalid date'')
        else if day = 0 \<or> days_in_month year month < day then Err (Runtime ''invalid date'')
        else Ok (word_of_int (days_from_civil year month day)))"

text \<open>Decimal digits with zero padding to a width, the sign counted in the width.\<close>

fun dec_digits :: "nat \<Rightarrow> byte list" where
  "dec_digits n = (if n < 10 then [word_of_nat (48 + n)] else dec_digits (n div 10) @ [word_of_nat (48 + n mod 10)])"

declare dec_digits.simps [simp del]

definition fmt_pad :: "nat \<Rightarrow> int \<Rightarrow> byte list" where
  "fmt_pad w x =
     (let ds = dec_digits (nat \<bar>x\<bar>); sign = (if x < 0 then [45] else [])
      in sign @ replicate (w - length sign - length ds) 48 @ ds)"

definition format_date :: "i32 \<Rightarrow> rust_string" where
  "format_date days =
     (let (y, m, d) = civil_from_days (sint days) in fmt_pad 4 y @ [45] @ fmt_pad 2 m @ [45] @ fmt_pad 2 d)"

subsection \<open>Years of an era\<close>

definition year_start :: "int \<Rightarrow> int" where
  "year_start y = 365 * y + y div 4 - y div 100"

definition year_of :: "int \<Rightarrow> int" where
  "year_of doe = doe - doe div 1460 + doe div 36524 - doe div 146096"

lemma year_of_mono: "0 \<le> a \<Longrightarrow> a \<le> b \<Longrightarrow> b < 146097 \<Longrightarrow> year_of a \<le> year_of b"
proof (induction "nat (b - a)" arbitrary: b)
  case (Suc n)
  have IH: "year_of a \<le> year_of (b - 1)" using Suc by simp
  have "(b - 1) div 1460 \<le> b div 1460 \<and> b div 1460 \<le> (b - 1) div 1460 + 1" by linarith
  moreover have "(b - 1) div 36524 \<le> b div 36524" by linarith
  moreover have "b div 146096 = (b - 1) div 146096 \<or> b = 146096" 
    using Suc.prems Suc.hyps(2) by (cases "b = 146096") auto
  ultimately have "year_of (b - 1) \<le> year_of b" by (auto simp: year_of_def)
  with IH show ?case by linarith
qed simp

definition year_end :: "int \<Rightarrow> int" where
  "year_end y = (if y = 399 then 146097 else year_start (y + 1))"

lemma year_table: "\<forall>y \<in> set [0..399]. 365 * y \<le> year_of (year_start y) \<and> year_of (year_end y - 1) < 365 * (y + 1) \<and>
    year_end y = year_start y + (if is_leap (y + 1) then 366 else 365) \<and> year_end y \<le> 146097"
  by code_simp

lemma year_end_length:
  "0 \<le> y \<Longrightarrow> y < 400 \<Longrightarrow> year_end y = year_start y + (if is_leap (y + 1) then 366 else 365)"
  using year_table by auto

lemma year_of_range:
  assumes "0 \<le> y" "y < 400" "year_start y \<le> doe" "doe < year_end y"
  shows "year_of doe div 365 = y" "0 \<le> doe" "doe < 146097"
proof -
  have y: "y \<in> set [0..399]" using assms by simp
  have start: "0 \<le> year_start y" using assms(1) by (simp add: year_start_def)
  then show 0: "0 \<le> doe" using assms by simp
  have en: "year_end y \<le> 146097" using year_table y by blast
  with assms show 1: "doe < 146097" by simp
  have "365 * y \<le> year_of (year_start y)" "year_of (year_end y - 1) < 365 * (y + 1)"
    using year_table y by blast+
  moreover have "year_of (year_start y) \<le> year_of doe" "year_of doe \<le> year_of (year_end y - 1)"
    using assms start en 1 by (auto intro!: year_of_mono)
  ultimately have "365 * y \<le> year_of doe" "year_of doe < 365 * (y + 1)" by linarith+
  then show "year_of doe div 365 = y"
    by (intro int_div_pos_eq [of _ _ _ "year_of doe - 365 * y"]) auto
qed

lemma year_exists:
  assumes "0 \<le> doe" "doe < 146097"
  shows "\<exists>y. 0 \<le> y \<and> y < 400 \<and> year_start y \<le> doe \<and> doe < year_end y"
proof -
  have "year_start (int n) \<le> doe \<or> (\<exists>y. 0 \<le> y \<and> y < 400 \<and> year_start y \<le> doe \<and> doe < year_end y)" if "n \<le> 399" for n
    using that
  proof (induction n)
    case 0
    then show ?case using assms by (simp add: year_start_def)
  next
    case (Suc n)
    then consider "year_start (int n) \<le> doe" | "\<exists>y. 0 \<le> y \<and> y < 400 \<and> year_start y \<le> doe \<and> doe < year_end y" by auto
    then show ?case
    proof cases
      case 1
      have "year_end (int n) = year_start (int (Suc n))" using Suc.prems by (simp add: year_end_def add.commute)
      with 1 Suc.prems show ?thesis by (cases "doe < year_end (int n)") (auto intro!: exI [of _ "int n"])
    qed simp
  qed
  from this [of 399] consider "year_start 399 \<le> doe" | "\<exists>y. 0 \<le> y \<and> y < 400 \<and> year_start y \<le> doe \<and> doe < year_end y" by auto
  then show ?thesis
  proof cases
    case 1
    with assms show ?thesis by (intro exI [of _ 399]) (simp add: year_end_def)
  qed simp
qed

subsection \<open>Days of a year\<close>

definition month_of :: "int \<Rightarrow> int" where
  "month_of doy = (let mp = (5 * doy + 2) div 153 in if mp < 10 then mp + 3 else mp - 9)"

definition day_of :: "int \<Rightarrow> int" where
  "day_of doy = (let mp = (5 * doy + 2) div 153 in doy - (153 * mp + 2) div 5 + 1)"

definition day_number :: "int \<Rightarrow> int \<Rightarrow> int" where
  "day_number m d = (153 * ((m + 9) mod 12) + 2) div 5 + d - 1"

lemma day_table: "\<forall>doy \<in> set [0..365]. day_number (month_of doy) (day_of doy) = doy \<and>
    1 \<le> month_of doy \<and> month_of doy \<le> 12 \<and> 1 \<le> day_of doy \<and> day_of doy \<le> days_in_month (if doy = 365 then 4 else 1) (month_of doy)"
  by code_simp

lemma month_table: "\<forall>m \<in> set [1..12]. \<forall>d \<in> set [1..31]. d \<le> days_in_month 4 m \<longrightarrow>
    0 \<le> day_number m d \<and> day_number m d \<le> 365 \<and> (day_number m d = 365) = (m = 2 \<and> d = 29) \<and>
    month_of (day_number m d) = m \<and> day_of (day_number m d) = d"
  by code_simp

subsection \<open>Days and civil dates\<close>

lemma quot_floor:
  assumes "0 < b" "c = b - 1"
  shows "quot (if 0 \<le> y then y else y - c) b = y div b"
proof (cases "0 \<le> y")
  case False
  have "(b - 1 - y) div b = - (y div b)"
  proof (rule int_div_pos_eq [of _ _ _ "b - 1 - y mod b"])
    have "y = b * (y div b) + y mod b" by simp
    then show "b - 1 - y = b * - (y div b) + (b - 1 - y mod b)" by (simp add: algebra_simps)
    show "0 \<le> b - 1 - y mod b" "b - 1 - y mod b < b"
      using assms pos_mod_bound [of b y] pos_mod_sign [of b y] by linarith+
  qed
  with False assms show ?thesis by (auto simp: quot_def algebra_simps)
qed (simp add: quot_def)

text \<open>A day number and the civil date it denotes, through the year of the era and the day of the year.\<close>

lemma civil_from_days_parts:
  assumes "z + 719468 = era * 146097 + year_start yoe + doy" "0 \<le> yoe" "yoe < 400" "0 \<le> doy" "year_start yoe + doy < year_end yoe"
  shows "civil_from_days z = (let m = month_of doy in (if m \<le> 2 then yoe + era * 400 + 1 else yoe + era * 400, m, day_of doy))"
proof -
  let ?doe = "year_start yoe + doy"
  have r: "year_of ?doe div 365 = yoe" "0 \<le> ?doe" "?doe < 146097"
    using year_of_range [of yoe ?doe] assms(2-) by auto
  have "quot (if 0 \<le> z + 719468 then z + 719468 else z + 719468 - 146096) 146097 = (z + 719468) div 146097"
    by (rule quot_floor) simp_all
  also have "\<dots> = era" using r(2,3) assms(1) by (intro int_div_pos_eq [of _ _ _ ?doe]) auto
  finally have era: "quot (if 0 \<le> z + 719468 then z + 719468 else z + 719468 - 146096) 146097 = era" .
  have doe: "z + 719468 - era * 146097 = ?doe" using assms(1) by simp
  have yoe: "(?doe - ?doe div 1460 + ?doe div 36524 - ?doe div 146096) div 365 = yoe"
    using r(1) by (simp add: year_of_def)
  have doy: "?doe - (365 * yoe + yoe div 4 - yoe div 100) = doy" by (simp add: year_start_def)
  show ?thesis
    unfolding civil_from_days_def Let_def era doe yoe doy month_of_def day_of_def ..
qed

lemma days_from_civil_parts:
  assumes "y' = (if m \<le> 2 then y - 1 else y)"
  shows "days_from_civil y m d = (y' div 400) * 146097 + year_start (y' mod 400) + day_number m d - 719468"
proof -
  have era: "quot (if 0 \<le> y' then y' else y' - 399) 400 = y' div 400"
    by (rule quot_floor) simp_all
  have "y' - y' div 400 * 400 = y' mod 400" by (simp add: minus_div_mult_eq_mod)
  then show ?thesis
    unfolding days_from_civil_def Let_def assms [symmetric] era
    by (simp add: year_start_def day_number_def)
qed

lemma is_leap_mod: "is_leap (y mod 400 + 1) = is_leap (y + 1)"
proof -
  have "(y mod 400 + 1) mod k = (y + 1) mod k" if "k dvd 400" for k
    using that by (metis mod_add_left_eq mod_mod_cancel)
  then show ?thesis by (simp add: is_leap_def)
qed

definition valid_date :: "int \<Rightarrow> int \<Rightarrow> int \<Rightarrow> bool" where
  "valid_date y m d \<longleftrightarrow> 1 \<le> m \<and> m \<le> 12 \<and> 1 \<le> d \<and> d \<le> days_in_month y m"

lemma days_in_month_le: "days_in_month y m \<le> days_in_month 4 m" "days_in_month y m \<le> 31"
  by (auto simp: days_in_month_def is_leap_def)

lemma civil_days_civil:
  assumes "valid_date y m d"
  shows "civil_from_days (days_from_civil y m d) = (y, m, d)"
proof -
  let ?y = "if m \<le> 2 then y - 1 else y" and ?doy = "day_number m d"
  have md: "m \<in> set [1..12]" "d \<in> set [1..31]" "d \<le> days_in_month 4 m"
    using assms days_in_month_le [of y m] by (auto simp: valid_date_def)
  then have t: "0 \<le> ?doy" "?doy \<le> 365" "(?doy = 365) = (m = 2 \<and> d = 29)" "month_of ?doy = m" "day_of ?doy = d"
    using month_table by blast+
  have "?doy < (if is_leap (?y mod 400 + 1) then 366 else 365)"
  proof (cases "?doy = 365")
    case True
    with t(3) have "m = 2" "d = 29" by auto
    with assms have "is_leap y" by (simp add: valid_date_def days_in_month_def split: if_splits)
    with \<open>m = 2\<close> show ?thesis using t(2) by (simp add: is_leap_mod)
  qed (use t(2) in auto)
  then have "year_start (?y mod 400) + ?doy < year_end (?y mod 400)"
    using year_end_length [of "?y mod 400"] by simp
  then have "civil_from_days (days_from_civil y m d) =
    (let m = month_of ?doy in (if m \<le> 2 then ?y mod 400 + ?y div 400 * 400 + 1 else ?y mod 400 + ?y div 400 * 400, m, day_of ?doy))"
    using t(1) by (intro civil_from_days_parts) (auto simp: days_from_civil_parts [OF refl])
  also have "?y mod 400 + ?y div 400 * 400 = ?y" by (rule mod_div_mult_eq)
  finally show ?thesis by (simp add: t(4,5))
qed

lemma days_civil_days:
  assumes "civil_from_days z = (y, m, d)"
  shows "days_from_civil y m d = z \<and> valid_date y m d"
proof -
  let ?era = "(z + 719468) div 146097" and ?doe = "(z + 719468) mod 146097"
  obtain yoe where yoe: "0 \<le> yoe" "yoe < 400" "year_start yoe \<le> ?doe" "?doe < year_end yoe"
    using year_exists [of ?doe] by auto
  let ?doy = "?doe - year_start yoe" and ?y = "yoe + ?era * 400"
  have z: "z + 719468 = ?era * 146097 + year_start yoe + ?doy" using div_mult_mod_eq [of "z + 719468" 146097] by simp
  have c: "civil_from_days z = (let m = month_of ?doy in (if m \<le> 2 then ?y + 1 else ?y, m, day_of ?doy))"
    using yoe by (intro civil_from_days_parts [OF z]) auto
  have len: "?doy < (if is_leap (yoe + 1) then 366 else 365)" using yoe year_end_length [of yoe] by auto
  then have doy: "?doy \<in> set [0..365]" using yoe by (auto split: if_splits)
  have m: "m = month_of ?doy" "d = day_of ?doy" "y = (if m \<le> 2 then ?y + 1 else ?y)"
    using assms c by (auto simp: Let_def split: if_splits)
  have t: "day_number m d = ?doy" "1 \<le> m" "m \<le> 12" "1 \<le> d" "d \<le> days_in_month (if ?doy = 365 then 4 else 1) m"
    using day_table doy m(1,2) by blast+
  have y': "?y = (if m \<le> 2 then y - 1 else y)" using m(3) by auto
  have "?y mod 400 = yoe" "?y div 400 = ?era" using yoe by auto
  then have "days_from_civil y m d = z"
    using days_from_civil_parts [OF y', of d] z t(1) by simp
  moreover have "d \<le> days_in_month y m"
  proof (cases "m = 2 \<and> d = 29")
    case True
    then have "?doy = 365" using month_table t(1) by (auto simp: day_number_def)
    with len have "is_leap (yoe + 1)" by (auto split: if_splits)
    then have "is_leap y" using is_leap_mod [of ?y] True m(3) \<open>?y mod 400 = yoe\<close> by simp
    with True show ?thesis by (simp add: days_in_month_def)
  next
    case False
    with t(5) show ?thesis by (auto simp: days_in_month_def is_leap_def split: if_splits)
  qed
  ultimately show ?thesis using t by (simp add: valid_date_def)
qed

text \<open>
  C22: Day numbers and civil dates are in bijection. Every day number, positive or negative, converts to a date that exists
  in the proleptic Gregorian calendar and back to itself; every existing date of any year converts
  to a day number and back to itself; leap days included.
\<close>

theorem civil_date_bijection:
  "(case civil_from_days z of (y, m, d) \<Rightarrow> days_from_civil y m d = z \<and> valid_date y m d) \<and>
   (valid_date y m d \<longrightarrow> civil_from_days (days_from_civil y m d) = (y, m, d))"
  using days_civil_days civil_days_civil by (auto split: prod.split)

theorem civil_date_bijection_witness: "civil_from_days (days_from_civil 2000 2 29) = (2000, 2, 29)"
proof -
  have "valid_date 2000 2 29" by (simp add: valid_date_def days_in_month_def is_leap_def)
  with civil_date_bijection [of 0 2000 2 29] show ?thesis by blast
qed

subsection \<open>Text\<close>

lemma digit_byte: "n < 10 \<Longrightarrow> unat (word_of_nat (48 + n) :: byte) = 48 + n"
  by (rule unat_u8_of_nat) simp

fun digits :: "nat \<Rightarrow> nat \<Rightarrow> byte list" where
  "digits 0 n = []"
| "digits (Suc w) n = digits w (n div 10) @ [word_of_nat (48 + n mod 10)]"

lemma digits_zero: "digits w 0 = replicate w 48"
  by (induction w) (simp_all add: replicate_append_same)

lemma length_digits [simp]: "length (digits w n) = w"
  by (induction w arbitrary: n) auto

lemma pad_dec_digits:
  assumes "n < 10 ^ Suc w"
  shows "replicate (Suc w - length (dec_digits n)) 48 @ dec_digits n = digits (Suc w) n"
  using assms
proof (induction w arbitrary: n)
  case 0
  then show ?case by (simp add: dec_digits.simps)
next
  case (Suc w)
  show ?case
  proof (cases "n < 10")
    case True
    then have "dec_digits n = [word_of_nat (48 + n)]" by (simp add: dec_digits.simps)
    with True show ?thesis by (simp add: digits_zero replicate_append_same del: of_nat_add)
  next
    case False
    then have d: "dec_digits n = dec_digits (n div 10) @ [word_of_nat (48 + n mod 10)]"
      by (subst dec_digits.simps) simp
    have "n div 10 < 10 ^ Suc w" using Suc.prems by (simp add: less_mult_imp_div_less)
    from Suc.IH [OF this] show ?thesis by (simp add: d)
  qed
qed

lemma fmt_pad_digits:
  assumes "0 < w" "0 \<le> x" "x < 10 ^ w"
  shows "fmt_pad w x = digits w (nat x)"
proof -
  obtain v where "w = Suc v" using assms(1) by (cases w) auto
  moreover from assms(2,3) have "nat x < 10 ^ w" by (metis nat_less_iff of_nat_power of_nat_numeral)
  ultimately show ?thesis using pad_dec_digits [of "nat x" v] assms(2) by (simp add: fmt_pad_def Let_def)
qed

lemma fmt_pad4: "0 \<le> x \<Longrightarrow> x \<le> 9999 \<Longrightarrow> fmt_pad 4 x = digits 4 (nat x)"
  by (rule fmt_pad_digits) simp_all

lemma fmt_pad2: "0 \<le> x \<Longrightarrow> x \<le> 99 \<Longrightarrow> fmt_pad 2 x = digits 2 (nat x)"
  by (rule fmt_pad_digits) simp_all

lemma digits_value_append: "digits_value (xs @ ys) a = digits_value ys (digits_value xs a)"
  by (induction xs arbitrary: a) auto

lemma digits_value_digits: "digits_value (digits w n) 0 = int (n mod 10 ^ w)"
proof (induction w arbitrary: n)
  case (Suc w)
  have "unat (word_of_nat (48 + n mod 10) :: byte) = 48 + n mod 10" by (rule digit_byte) simp
  with Suc show ?case
    by (simp add: digits_value_append mod_mult2_eq del: of_nat_add)
qed simp

lemma is_digit_digits: "list_all is_digit (digits w n)"
proof (induction w arbitrary: n)
  case (Suc w)
  have "unat (word_of_nat (48 + n mod 10) :: byte) = 48 + n mod 10" by (rule digit_byte) simp
  then have "is_digit (word_of_nat (48 + n mod 10))"
    by (simp add: is_digit_def word_le_nat_alt del: of_nat_add)
  with Suc show ?case by (simp del: of_nat_add)
qed simp

lemma digits_of_value:
  assumes "list_all is_digit s"
  shows "0 \<le> digits_value s 0 \<and> digits_value s 0 < 10 ^ length s \<and> digits (length s) (nat (digits_value s 0)) = s"
  using assms
proof (induction s rule: rev_induct)
  case (snoc b s)
  let ?v = "digits_value s 0" and ?d = "unat b - 48"
  have b: "48 \<le> unat b" "?d < 10" using snoc.prems by (auto simp: is_digit_def word_le_nat_alt)
  have IH: "0 \<le> ?v" "?v < 10 ^ length s" "digits (length s) (nat ?v) = s" using snoc by auto
  have v: "digits_value (s @ [b]) 0 = 10 * ?v + int ?d" by (simp add: digits_value_append)
  then have "nat (digits_value (s @ [b]) 0) = 10 * nat ?v + ?d" using IH(1) by (simp add: nat_add_distrib nat_mult_distrib)
  moreover have "(word_of_nat (48 + ?d) :: byte) = b" using b(1) by (simp del: of_nat_add)
  ultimately show ?case using IH b(2) v by (simp del: of_nat_add)
qed simp

lemma date_parts: "length s = 10 \<Longrightarrow> subl s 0 4 @ [s ! 4] @ subl s 5 7 @ [s ! 7] @ subl s 8 10 = s"
  by (auto simp: subl_def numeral_eq_Suc length_Suc_conv)

text \<open>Years of four digits stay within 32 bits.\<close>

lemma four_digit_years:
  assumes "valid_date y m d" "0 \<le> y" "y \<le> 9999"
  shows "sint (word_of_int (days_from_civil y m d) :: i32) = days_from_civil y m d"
proof -
  let ?y = "if m \<le> 2 then y - 1 else y"
  have "m \<in> set [1..12]" "d \<in> set [1..31]" "d \<le> days_in_month 4 m"
    using assms(1) days_in_month_le [of y m] by (auto simp: valid_date_def)
  then have "0 \<le> day_number m d" "day_number m d \<le> 365" using month_table by blast+
  moreover have "- 1 \<le> ?y div 400" "?y div 400 \<le> 24" using assms(2,3) by (auto split: if_splits)
  moreover have "0 \<le> ?y mod 400" "?y mod 400 < 400" by auto
  then have "0 \<le> year_start (?y mod 400)" "year_start (?y mod 400) \<le> 146097"
    using year_table by (force simp: year_end_def year_start_def)+
  ultimately have "- 2147483648 \<le> days_from_civil y m d" "days_from_civil y m d < 2147483648"
    unfolding days_from_civil_parts [OF refl] by linarith+
  then show ?thesis by (simp add: sint_sbintrunc' signed_take_bit_int_eq_self)
qed

lemma parse_formatted:
  assumes "valid_date y m d" "0 \<le> y" "y \<le> 9999"
  shows "parse_date (fmt_pad 4 y @ [45] @ fmt_pad 2 m @ [45] @ fmt_pad 2 d) = Ok (word_of_int (days_from_civil y m d))"
proof -
  have md: "1 \<le> m" "m \<le> 12" "1 \<le> d" "d \<le> 31" using assms(1) days_in_month_le [of y m] by (auto simp: valid_date_def)
  let ?s = "digits 4 (nat y) @ [45] @ digits 2 (nat m) @ [45] @ digits 2 (nat d)"
  have s: "fmt_pad 4 y @ [45] @ fmt_pad 2 m @ [45] @ fmt_pad 2 d = ?s"
    using assms(2,3) md by (simp add: fmt_pad4 fmt_pad2)
  have "subl ?s 0 4 = digits 4 (nat y)" "subl ?s 5 7 = digits 2 (nat m)" "subl ?s 8 10 = digits 2 (nat d)"
    using subl_mid [of 0 "[]" 4 "digits 4 (nat y)"] subl_mid [of 5 "digits 4 (nat y) @ [45]" 7 "digits 2 (nat m)"]
      subl_mid [of 8 "digits 4 (nat y) @ [45] @ digits 2 (nat m) @ [45]" 10 "digits 2 (nat d)" "[]"]
    by simp_all
  moreover have "?s ! 4 = 45" "?s ! 7 = 45" "length ?s = 10" by (simp_all add: nth_append)
  ultimately show ?thesis
    using assms md unfolding s
    by (simp add: parse_date_def is_digit_digits digits_value_digits valid_date_def)
qed

text \<open>
  Dates survive text. Parsing accepts exactly ten characters \<open>YYYY-MM-DD\<close> that name an existing date, and formatting the result
  gives back the same text; formatting a day whose year has at most four digits and parsing it gives back the
  day. No 32-bit overflow is involved.
\<close>

lemma date_text_roundtrip:
  "(\<forall>s d. parse_date s = Ok d \<longrightarrow> format_date d = s) \<and>
   (\<forall>d. (case civil_from_days (sint d) of (y, _, _) \<Rightarrow> 0 \<le> y \<and> y \<le> 9999) \<longrightarrow> parse_date (format_date d) = Ok d)"
proof (intro conjI allI impI)
  fix s and w :: i32
  assume p: "parse_date s = Ok w"
  let ?y = "digits_value (subl s 0 4) 0" and ?m = "digits_value (subl s 5 7) 0" and ?d = "digits_value (subl s 8 10) 0"
  from p have len: "length s = 10" "s ! 4 = 45" "s ! 7 = 45" and dig: "list_all is_digit (subl s 0 4)" "list_all is_digit (subl s 5 7)"
    "list_all is_digit (subl s 8 10)" and w: "w = word_of_int (days_from_civil ?y ?m ?d)" and m: "1 \<le> ?m" "?m \<le> 12"
    and d: "?d \<noteq> 0" "?d \<le> days_in_month ?y ?m"
    by (auto simp: parse_date_def Let_def split: if_splits)
  note yd = digits_of_value [OF dig(1)] and md = digits_of_value [OF dig(2)] and dd = digits_of_value [OF dig(3)]
  have v: "valid_date ?y ?m ?d" using m d dd by (simp add: valid_date_def)
  have y: "0 \<le> ?y" "?y \<le> 9999" using yd len by auto
  have "civil_from_days (sint w) = (?y, ?m, ?d)"
    using four_digit_years [OF v y] civil_days_civil [OF v] w by simp
  then have "format_date w = subl s 0 4 @ [s ! 4] @ subl s 5 7 @ [s ! 7] @ subl s 8 10"
    using yd md dd len by (simp add: format_date_def fmt_pad4 fmt_pad2)
  also have "\<dots> = s"
    by (rule date_parts [OF len(1)])
  finally show "format_date w = s" .
next
  fix w :: i32
  assume range: "case civil_from_days (sint w) of (y, _, _) \<Rightarrow> 0 \<le> y \<and> y \<le> 9999"
  obtain y m d where c: "civil_from_days (sint w) = (y, m, d)" by (cases "civil_from_days (sint w)") auto
  then show "parse_date (format_date w) = Ok w"
    using days_civil_days [OF c] parse_formatted [of y m d] range by (simp add: format_date_def)
qed

lemma date_text_roundtrip_witness: "\<exists>d. parse_date (format_date d) = Ok d"
proof -
  have "civil_from_days (sint (0 :: i32)) = (1970, 1, 1)" by code_simp
  with date_text_roundtrip have "parse_date (format_date 0) = Ok 0" by force
  then show ?thesis ..
qed

end
