(* ===== verification/Config.thy ===== *)
theory Config
  imports Value
begin

section \<open>Configuration\<close>

text \<open>
  The configuration structures of \<open>src/src/config.rs\<close> with their defaults and \<open>validate\<close>. Parsing TOML text is the
  work of an external crate; resolving the web root asks the file system, whose answer is an argument here.
\<close>

datatype engine_kind = Heap | Lsm
datatype execution_mode = Volcano | Chunked
datatype page_layout = Row | Pax
datatype isolation = ReadCommitted | RepeatableRead | Serializable
datatype thread_model = PerConnection | ThreadPool
datatype eviction_policy = Lru | Clock | Fifo

record storage_config =
  default_engine :: engine_kind
  page_layout_of :: page_layout
  buffer_pool_frames :: nat
  double_write :: bool
  inline_lob_limit :: nat
  lsm_compaction_trigger :: nat
  eviction :: eviction_policy

record server_config =
  addr :: string
  http_addr :: "string option"
  mysql_addr :: "string option"
  web_root :: "string option"
  admin_api :: bool
  protocols :: "string list"
  threads :: thread_model
  worker_threads :: nat

record transaction_config =
  isolation_level :: isolation
  lock_timeout_ms :: u64

record observability_config =
  cache_stats :: bool
  eviction_log :: bool

record config =
  cfg_storage :: storage_config
  checkpoint_threshold :: u64
  cfg_server :: server_config
  exec_mode :: execution_mode
  auth_enabled :: bool
  cfg_transaction :: transaction_config
  cfg_observability :: observability_config

definition storage_default :: storage_config where
  "storage_default =
     \<lparr> default_engine = Heap, page_layout_of = Row, buffer_pool_frames = 64, double_write = False,
       inline_lob_limit = 4096, lsm_compaction_trigger = 4, eviction = Lru \<rparr>"

definition server_default :: server_config where
  "server_default =
     \<lparr> addr = ''127.0.0.1:5678'', http_addr = None, mysql_addr = None, web_root = Some ''web/dist'',
       admin_api = False, protocols = [''text''], threads = PerConnection, worker_threads = 4 \<rparr>"

definition transaction_default :: transaction_config where
  "transaction_default = \<lparr> isolation_level = ReadCommitted, lock_timeout_ms = 5000 \<rparr>"

definition wal_default :: u64 where
  "wal_default = 8 * 1024 * 1024"

definition config_default :: config where
  "config_default =
     \<lparr> cfg_storage = storage_default, checkpoint_threshold = wal_default, cfg_server = server_default,
       exec_mode = Chunked, auth_enabled = False, cfg_transaction = transaction_default,
       cfg_observability = \<lparr> cache_stats = False, eviction_log = False \<rparr> \<rparr>"

definition validate :: "config \<Rightarrow> unit result" where
  "validate c =
     (if buffer_pool_frames (cfg_storage c) = 0
      then Err (Runtime ''storage.buffer_pool_frames must be greater than zero'')
      else if threads (cfg_server c) = ThreadPool \<and> worker_threads (cfg_server c) = 0
      then Err (Runtime ''server.worker_threads must be greater than zero for the thread-pool model'')
      else Ok ())"

text \<open>\<open>load\<close>: what reading the file and parsing it gave are arguments.\<close>

datatype file_text = NotFound | ReadFailed string | FileText string

definition config_load :: "(string \<Rightarrow> config result) \<Rightarrow> file_text \<Rightarrow> config result" where
  "config_load from_toml_str t =
     (case t of
        FileText text \<Rightarrow> bindR (from_toml_str text) (\<lambda>cfg. bindR (validate cfg) (\<lambda>_. Ok cfg))
      | NotFound \<Rightarrow> Ok config_default
      | ReadFailed e \<Rightarrow> Err (Runtime (''cannot read config '' @ e)))"

datatype web_root_state = Off | Missing string | Ready string

definition web_root_state_of :: "(string \<Rightarrow> string option) \<Rightarrow> (string \<Rightarrow> string) \<Rightarrow> config \<Rightarrow> web_root_state" where
  "web_root_state_of canonical_dir absolute_display c =
     (case web_root (cfg_server c) of
        None \<Rightarrow> Off
      | Some configured \<Rightarrow>
          if configured = [] then Off
          else (case canonical_dir configured of Some path \<Rightarrow> Ready path | None \<Rightarrow> Missing (absolute_display configured)))"

definition web_console_unreachable :: "(string \<Rightarrow> string option) \<Rightarrow> (string \<Rightarrow> string) \<Rightarrow> config \<Rightarrow> bool" where
  "web_console_unreachable canonical_dir absolute_display c =
     (http_addr (cfg_server c) = None \<and>
      (case web_root_state_of canonical_dir absolute_display c of Ready _ \<Rightarrow> True | _ \<Rightarrow> False))"

text \<open>A loaded configuration has a frame to pin and a thread to run on, whatever the file said.\<close>

lemma config_load_valid:
  assumes "config_load from_toml_str t = Ok c"
  shows "0 < buffer_pool_frames (cfg_storage c) \<and> (threads (cfg_server c) = ThreadPool \<longrightarrow> 0 < worker_threads (cfg_server c))"
  using assms
  by (auto simp: config_load_def validate_def config_default_def storage_default_def server_default_def bindR_Ok_iff
      split: file_text.splits if_splits)

end
