(* ===== verification/Ast.thy ===== *)
theory Ast
  imports Config
begin

section \<open>Abstract syntax\<close>

text \<open>
  The statements and expressions of \<open>src/src/sql/ast.rs\<close>. Expressions, select items, limits and select statements are
  mutually recursive through subqueries; a \<open>Box\<close> is its content. An identifier is a string.
\<close>

datatype bin_op = Add | Sub | Mul | Div | Mod | Eq | NotEq | Lt | Le | Gt | Ge | And | Or
datatype un_op = Neg | Not
datatype agg_func = Count | Sum | Avg | Min | Max
datatype data_type = TInt | TFloat | TChar u32 | TDate | TText
datatype join_kind = Cross | Inner | LeftJoin | RightJoin
datatype privilege = Read | Write
datatype trx_ctl = Begin | Commit | Rollback

datatype table_ref = TableRef (ref_name: rust_string) (ref_alias: "rust_string option")

datatype expr =
    EInt i64
  | EFloat f64
  | EStr rust_string
  | ENull
  | EColumn rust_string
  | EUnary un_op expr
  | EBinary bin_op expr expr
  | EIsNull expr bool
  | ELike expr expr bool "rust_char option"
  | EFunction rust_string "expr list"
  | EAggregate agg_func "expr option" bool
  | EQualified rust_string rust_string
  | EValue sql_value
  | EInSubquery expr select_stmt bool
  | EExists select_stmt
  | EScalarSubquery select_stmt
and select_item = Star | SExpr expr | SAliased expr rust_string
and limit_clause = Limit (limit_count: expr) (limit_offset: "expr option")
and select_stmt =
    Select
      (sel_distinct: bool)
      (sel_items: "select_item list")
      (sel_from: "table_ref list")
      (sel_joins: "join_kind list")
      (sel_on: "expr list")
      (sel_selection: "expr option")
      (sel_group_by: "expr list")
      (sel_having: "expr option")
      (sel_order_by: "(expr \<times> bool) list")
      (sel_limit: "limit_clause option")
      (sel_set_ops: "(bool \<times> select_stmt) list")

record column_def =
  cd_name :: rust_string
  cd_dtype :: data_type
  cd_not_null :: bool
  cd_primary_key :: bool
  cd_unique :: bool
  cd_default :: "expr option"

record create_table_stmt =
  ct_name :: rust_string
  ct_columns :: "column_def list"
  ct_engine :: "engine_kind option"
  ct_layout :: "page_layout option"

record insert_stmt =
  ins_table :: rust_string
  ins_columns :: "rust_string list option"
  ins_rows :: "expr list list"

record delete_stmt =
  del_table :: rust_string
  del_selection :: "expr option"

record update_stmt =
  upd_table :: rust_string
  upd_assignments :: "(rust_string \<times> expr) list"
  upd_selection :: "expr option"

record create_index_stmt =
  ci_name :: rust_string
  ci_table :: rust_string
  ci_column :: rust_string

record create_view_stmt =
  cv_name :: rust_string
  cv_sql :: rust_string

record credentials =
  cred_name :: rust_string
  cred_password :: rust_string

record grant_stmt =
  gr_privileges :: "privilege list"
  gr_database :: rust_string
  gr_user :: rust_string

datatype stmt =
    CreateDatabase rust_string
  | CreateIndex create_index_stmt
  | CreateTable create_table_stmt
  | CreateUser credentials
  | CreateView create_view_stmt
  | Delete delete_stmt
  | DropDatabase rust_string
  | DropIndex rust_string
  | DropTable rust_string
  | DropUser rust_string
  | DropView rust_string
  | Explain stmt
  | Grant grant_stmt
  | Insert insert_stmt
  | Login credentials
  | Revoke grant_stmt
  | SelectQ select_stmt
  | ShowTables
  | ShowDatabases
  | ShowColumns rust_string
  | Update update_stmt
  | Use rust_string
  | Trx trx_ctl
  | Checkpoint
  | Vacuum

definition privilege_as_str :: "privilege \<Rightarrow> string" where
  "privilege_as_str p = (case p of Read \<Rightarrow> ''read'' | Write \<Rightarrow> ''write'')"

end
