(* ===== verification/Catalog.thy ===== *)
theory Catalog
  imports Ast
begin

section \<open>Catalog\<close>

text \<open>
  Schemas and the catalog of \<open>src/src/catalog/mod.rs\<close>: tables, indexes and views by name. A table refers to its storage
  engine by a handle, whose type is a parameter; a \<open>FileId\<close> is a number. The lemmas show how columns resolve, that
  the names of tables and views stay apart, that every index is filed under its own name, and that dropping a
  table cleans up exactly its indexes and cannot fail half way.
\<close>

record column_desc =
  col_owner :: "rust_string option"
  col_name :: rust_string
  col_dtype :: data_type
  col_not_null :: bool
  col_primary_key :: bool
  col_unique :: bool
  col_default :: "sql_value option"

definition plain_column :: "rust_string option \<Rightarrow> rust_string \<Rightarrow> data_type \<Rightarrow> column_desc" where
  "plain_column ow nm ty =
     \<lparr> col_owner = ow, col_name = nm, col_dtype = ty, col_not_null = False, col_primary_key = False,
       col_unique = False, col_default = None \<rparr>"

type_synonym schema = "column_desc list"

definition schema_index_of :: "schema \<Rightarrow> rust_string \<Rightarrow> nat option" where
  "schema_index_of sc name = position (\<lambda>c. col_name c = name) sc"

text \<open>\<open>iter().enumerate().filter(..).map(|(i, _)| i)\<close> and the resolution of a possibly qualified column.\<close>

definition matching_columns :: "schema \<Rightarrow> rust_string \<Rightarrow> nat list" where
  "matching_columns sc name = filter (\<lambda>i. col_name (sc ! i) = name) [0..<length sc]"

definition resolve :: "schema \<Rightarrow> rust_string option \<Rightarrow> rust_string \<Rightarrow> nat result" where
  "resolve sc qual name =
     (case qual of
        Some q \<Rightarrow>
          (case position (\<lambda>c. col_owner c = Some q \<and> col_name c = name) sc of
             Some i \<Rightarrow> Ok i
           | None \<Rightarrow> Err (Runtime (''no such column: '' @ text_of q @ ''.'' @ text_of name)))
      | None \<Rightarrow>
          (case matching_columns sc name of
             [] \<Rightarrow> Err (Runtime (''no such column: '' @ text_of name))
           | [i] \<Rightarrow> Ok i
           | _ \<Rightarrow> Err (Runtime (''ambiguous column: '' @ text_of name))))"

record heap_store =
  hs_file :: nat
  hs_file_no :: u32

record index_store =
  is_file :: nat
  is_file_no :: u32

record dropped_table =
  dt_heap_file :: nat
  dt_file_no :: u32
  dt_engine :: engine_kind
  dt_index_files :: "nat list"

record index_entry =
  ix_name :: rust_string
  ix_table :: rust_string
  ix_column :: rust_string
  ix_unique :: bool
  ix_store :: index_store

record 'e table =
  tb_schema :: schema
  tb_heap :: heap_store
  tb_engine :: 'e
  tb_engine_kind :: engine_kind
  tb_layout :: page_layout

record 'e catalog =
  cat_tables :: "(rust_string \<times> 'e table) list"
  cat_indexes :: "(rust_string \<times> index_entry) list"
  cat_views :: "(rust_string \<times> rust_string) list"

definition catalog_default :: "'e catalog" where
  "catalog_default = \<lparr> cat_tables = [], cat_indexes = [], cat_views = [] \<rparr>"

definition taken :: "rust_string \<Rightarrow> 'e catalog \<Rightarrow> bool" where
  "taken name c = (map_of (cat_tables c) name \<noteq> None \<or> map_of (cat_views c) name \<noteq> None)"

definition create_table ::
  "rust_string \<Rightarrow> schema \<Rightarrow> heap_store \<Rightarrow> engine_kind \<Rightarrow> page_layout \<Rightarrow> 'e \<Rightarrow> 'e catalog \<Rightarrow> 'e catalog result" where
  "create_table name sc hp kind lay eng c =
     (if taken name c then Err (Runtime (''table already exists: '' @ text_of name))
      else Ok (c\<lparr> cat_tables := bt_insert name
        \<lparr> tb_schema = sc, tb_heap = hp, tb_engine = eng, tb_engine_kind = kind, tb_layout = lay \<rparr> (cat_tables c) \<rparr>))"

definition catalog_table :: "'e catalog \<Rightarrow> rust_string \<Rightarrow> 'e table result" where
  "catalog_table c name =
     (case map_of (cat_tables c) name of Some t \<Rightarrow> Ok t | None \<Rightarrow> Err (Runtime (''no such table: '' @ text_of name)))"

definition create_index ::
  "rust_string \<Rightarrow> rust_string \<Rightarrow> rust_string \<Rightarrow> bool \<Rightarrow> index_store \<Rightarrow> 'e catalog \<Rightarrow> 'e catalog result" where
  "create_index name tab col uniq st c =
     (if map_of (cat_indexes c) name \<noteq> None then Err (Runtime (''index already exists: '' @ text_of name))
      else Ok (c\<lparr> cat_indexes := bt_insert name
        \<lparr> ix_name = name, ix_table = tab, ix_column = col, ix_unique = uniq, ix_store = st \<rparr> (cat_indexes c) \<rparr>))"

definition drop_index :: "rust_string \<Rightarrow> 'e catalog \<Rightarrow> 'e catalog result" where
  "drop_index name c =
     (if map_of (cat_indexes c) name = None then Err (Runtime (''no such index: '' @ text_of name))
      else Ok (c\<lparr> cat_indexes := bt_remove name (cat_indexes c) \<rparr>))"

text \<open>The removal loop of \<open>drop_table\<close>; a collected name that is absent is the panic of \<open>expect\<close>.\<close>

fun remove_indexes :: "rust_string list \<Rightarrow> (rust_string \<times> index_entry) list \<Rightarrow> (nat list \<times> (rust_string \<times> index_entry) list) result" where
  "remove_indexes [] ixs = Ok ([], ixs)"
| "remove_indexes (n # ns) ixs =
     (case map_of ixs n of
        None \<Rightarrow> Err Panic
      | Some ix \<Rightarrow> bindR (remove_indexes ns (bt_remove n ixs)) (\<lambda>(fs, ixs). Ok (is_file (ix_store ix) # fs, ixs)))"

definition indexes_for :: "'e catalog \<Rightarrow> rust_string \<Rightarrow> index_entry list" where
  "indexes_for c tab = filter (\<lambda>ix. ix_table ix = tab) (map snd (cat_indexes c))"

definition unique_indexes_for :: "'e catalog \<Rightarrow> rust_string \<Rightarrow> index_entry list" where
  "unique_indexes_for c tab = filter (\<lambda>ix. ix_table ix = tab \<and> ix_unique ix) (map snd (cat_indexes c))"

definition drop_table :: "rust_string \<Rightarrow> 'e catalog \<Rightarrow> (dropped_table \<times> 'e catalog) result" where
  "drop_table name c =
     (case map_of (cat_tables c) name of
        None \<Rightarrow> Err (Runtime (''no such table: '' @ text_of name))
      | Some t \<Rightarrow>
          bindR (remove_indexes (map ix_name (filter (\<lambda>ix. ix_table ix = name) (map snd (cat_indexes c)))) (cat_indexes c))
            (\<lambda>(files, ixs).
               Ok (\<lparr> dt_heap_file = hs_file (tb_heap t), dt_file_no = hs_file_no (tb_heap t),
                     dt_engine = tb_engine_kind t, dt_index_files = files \<rparr>,
                   c\<lparr> cat_tables := bt_remove name (cat_tables c), cat_indexes := ixs \<rparr>)))"

definition catalog_index :: "'e catalog \<Rightarrow> rust_string \<Rightarrow> index_entry option" where
  "catalog_index c name = map_of (cat_indexes c) name"

definition heap_files :: "'e catalog \<Rightarrow> (u32 \<times> nat) list" where
  "heap_files c = map (\<lambda>(_, t). (hs_file_no (tb_heap t), hs_file (tb_heap t))) (cat_tables c)"

definition storage_for_file_no :: "'e catalog \<Rightarrow> u32 \<Rightarrow> (engine_kind \<times> 'e) option" where
  "storage_for_file_no c n =
     map_option (\<lambda>t. (tb_engine_kind t, tb_engine t)) (List.find (\<lambda>t. hs_file_no (tb_heap t) = n) (map snd (cat_tables c)))"

definition create_view :: "rust_string \<Rightarrow> rust_string \<Rightarrow> 'e catalog \<Rightarrow> 'e catalog result" where
  "create_view name sql c =
     (if taken name c then Err (Runtime (''already exists: '' @ text_of name))
      else Ok (c\<lparr> cat_views := bt_insert name sql (cat_views c) \<rparr>))"

definition drop_view :: "rust_string \<Rightarrow> 'e catalog \<Rightarrow> 'e catalog result" where
  "drop_view name c =
     (if map_of (cat_views c) name = None then Err (Runtime (''no such view: '' @ text_of name))
      else Ok (c\<lparr> cat_views := bt_remove name (cat_views c) \<rparr>))"

definition catalog_view :: "'e catalog \<Rightarrow> rust_string \<Rightarrow> rust_string option" where
  "catalog_view c name = map_of (cat_views c) name"

subsection \<open>Resolving columns\<close>

lemma resolve_in_range: "resolve sc q n = Ok i \<Longrightarrow> i < length sc \<and> col_name (sc ! i) = n"
proof (cases q)
  case None
  assume "resolve sc q n = Ok i"
  with None have "matching_columns sc n = [i]" by (auto simp: resolve_def split: list.splits)
  then have "i \<in> set (matching_columns sc n)" by simp
  then show ?thesis by (auto simp: matching_columns_def)
next
  case (Some p)
  assume "resolve sc q n = Ok i"
  with Some show ?thesis by (auto simp: resolve_def split: option.splits dest: position_bound)
qed

lemma resolve_no_panic: "resolve sc q n \<noteq> Err Panic"
  by (auto simp: resolve_def split: option.split list.split)

subsection \<open>Reachable catalogs\<close>

inductive catalog_reachable :: "'e catalog \<Rightarrow> bool" where
  start: "catalog_reachable catalog_default"
| table: "catalog_reachable c \<Longrightarrow> create_table name sc hp kind lay eng c = Ok c' \<Longrightarrow> catalog_reachable c'"
| index: "catalog_reachable c \<Longrightarrow> create_index name tab col uniq st c = Ok c' \<Longrightarrow> catalog_reachable c'"
| view: "catalog_reachable c \<Longrightarrow> create_view name sql c = Ok c' \<Longrightarrow> catalog_reachable c'"
| unindex: "catalog_reachable c \<Longrightarrow> drop_index name c = Ok c' \<Longrightarrow> catalog_reachable c'"
| untable: "catalog_reachable c \<Longrightarrow> drop_table name c = Ok (d, c') \<Longrightarrow> catalog_reachable c'"
| unview: "catalog_reachable c \<Longrightarrow> drop_view name c = Ok c' \<Longrightarrow> catalog_reachable c'"

definition catalog_inv :: "'e catalog \<Rightarrow> bool" where
  "catalog_inv c \<longleftrightarrow> ascending (cat_tables c) \<and> ascending (cat_indexes c) \<and> ascending (cat_views c) \<and>
     (\<forall>n. map_of (cat_tables c) n = None \<or> map_of (cat_views c) n = None) \<and>
     (\<forall>(k, ix) \<in> set (cat_indexes c). ix_name ix = k)"

lemma in_bt_insert: "x \<in> set (bt_insert k v m) \<Longrightarrow> x = (k, v) \<or> x \<in> set m"
  by (induction k v m rule: bt_insert.induct) (auto split: if_splits)

lemma set_bt_remove: "set (bt_remove k m) = {(a, b) \<in> set m. a \<noteq> k}"
  by (auto simp: bt_remove_def)

text \<open>Removing collected names one by one is filtering them out, in the order collected.\<close>

lemma remove_indexes_eq:
  assumes "ascending ixs" "distinct ns" "set ns \<subseteq> dom (map_of ixs)"
  shows "remove_indexes ns ixs =
     Ok (map (\<lambda>n. is_file (ix_store (the (map_of ixs n)))) ns, filter (\<lambda>(k, _). k \<notin> set ns) ixs)"
  using assms
proof (induction ns arbitrary: ixs)
  case (Cons n ns)
  then obtain ix where ix: "map_of ixs n = Some ix" by auto
  have "set ns \<subseteq> dom (map_of (bt_remove n ixs))" using Cons.prems by (auto simp: bt_simps)
  with Cons have "remove_indexes ns (bt_remove n ixs) =
    Ok (map (\<lambda>m. is_file (ix_store (the (map_of (bt_remove n ixs) m)))) ns, filter (\<lambda>(k, _). k \<notin> set ns) (bt_remove n ixs))"
    by simp
  moreover have "map (\<lambda>m. is_file (ix_store (the (map_of (bt_remove n ixs) m)))) ns = map (\<lambda>m. is_file (ix_store (the (map_of ixs m)))) ns"
    using Cons.prems(2) by (auto simp: bt_simps)
  moreover have "filter (\<lambda>(k, _). k \<notin> set ns) (bt_remove n ixs) = filter (\<lambda>(k, _). k \<notin> set (n # ns)) ixs"
    by (auto simp: bt_remove_def intro!: filter_cong)
  ultimately show ?case using ix by simp
qed (auto intro!: filter_True [symmetric])

lemma indexed_names:
  assumes "\<forall>(k, ix) \<in> set ixs. ix_name ix = k"
  shows "map ix_name (filter (\<lambda>ix. P ix) (map snd ixs)) = map fst (filter (\<lambda>(_, ix). P ix) ixs)"
  using assms by (induction ixs) auto

lemma drop_table_eq:
  assumes "catalog_inv c" "map_of (cat_tables c) name = Some t"
  shows "drop_table name c =
    Ok (\<lparr> dt_heap_file = hs_file (tb_heap t), dt_file_no = hs_file_no (tb_heap t), dt_engine = tb_engine_kind t,
          dt_index_files = map (is_file \<circ> ix_store) (indexes_for c name) \<rparr>,
        c\<lparr> cat_tables := bt_remove name (cat_tables c),
           cat_indexes := filter (\<lambda>(_, ix). ix_table ix \<noteq> name) (cat_indexes c) \<rparr>)"
proof -
  let ?ixs = "cat_indexes c" and ?ns = "map fst (filter (\<lambda>(_, ix). ix_table ix = name) (cat_indexes c))"
  have asc: "ascending ?ixs" and keys: "\<forall>(k, ix) \<in> set ?ixs. ix_name ix = k" using assms(1) by (auto simp: catalog_inv_def)
  have dist: "distinct (map fst ?ixs)" using asc by (rule ascending_distinct)
  have "distinct ?ns" using dist by (rule distinct_map_filter)
  moreover have "set ?ns \<subseteq> dom (map_of ?ixs)" by (auto simp: dom_map_of_conv_image_fst)
  ultimately have "remove_indexes ?ns ?ixs =
      Ok (map (\<lambda>n. is_file (ix_store (the (map_of ?ixs n)))) ?ns, filter (\<lambda>(k, _). k \<notin> set ?ns) ?ixs)"
    using asc by (intro remove_indexes_eq)
  moreover have "map (\<lambda>n. is_file (ix_store (the (map_of ?ixs n)))) ?ns = map (is_file \<circ> ix_store) (indexes_for c name)"
    using dist by (auto simp: indexes_for_def filter_map comp_def split_def)
  moreover have "filter (\<lambda>(k, _). k \<notin> set ?ns) ?ixs = filter (\<lambda>(_, ix). ix_table ix \<noteq> name) ?ixs"
    using dist by (intro filter_cong) (force dest: eq_key_imp_eq_value)+
  ultimately show ?thesis
    using assms(2) indexed_names [OF keys, of "\<lambda>ix. ix_table ix = name"] by (simp add: drop_table_def)
qed

lemma catalog_reachable_inv: "catalog_reachable c \<Longrightarrow> catalog_inv c"
proof (induction rule: catalog_reachable.induct)
  case (untable c name d c')
  then obtain t where "map_of (cat_tables c) name = Some t" by (auto simp: drop_table_def split: option.splits)
  with untable drop_table_eq [of c name t] show ?case
    by (auto simp: catalog_inv_def bt_simps)
qed (fastforce simp: catalog_inv_def catalog_default_def create_table_def create_index_def create_view_def drop_index_def
      drop_view_def taken_def bt_simps set_bt_remove split: if_splits dest!: in_bt_insert)+

text \<open>
  C23: In every catalog reached by creating and dropping tables, indexes and views, no name is a table and a view at
  once and every index is filed under its own name; and dropping a table either reports that there is no such table
  or returns the files of the table and of all its indexes, leaving exactly the other tables and the indexes
  of other tables. The removal loop cannot panic.
\<close>

theorem catalog_drop_table:
  assumes "catalog_reachable c"
  shows "(\<forall>n. map_of (cat_tables c) n = None \<or> map_of (cat_views c) n = None) \<and>
    (\<forall>n ix. catalog_index c n = Some ix \<longrightarrow> ix_name ix = n) \<and>
    (case map_of (cat_tables c) name of
       None \<Rightarrow> drop_table name c = Err (Runtime (''no such table: '' @ text_of name))
     | Some t \<Rightarrow> \<exists>d c'. drop_table name c = Ok (d, c') \<and>
         dt_heap_file d = hs_file (tb_heap t) \<and> dt_index_files d = map (is_file \<circ> ix_store) (indexes_for c name) \<and>
         map_of (cat_tables c') = (map_of (cat_tables c))(name := None) \<and> cat_views c' = cat_views c \<and>
         (\<forall>n. catalog_index c' n = (case catalog_index c n of Some ix \<Rightarrow> if ix_table ix = name then None else Some ix | None \<Rightarrow> None)))"
proof -
  have inv: "catalog_inv c" using assms by (rule catalog_reachable_inv)
  then have asc: "ascending (cat_indexes c)" by (simp add: catalog_inv_def)
  have look: "map_of (filter (\<lambda>(_, ix). ix_table ix \<noteq> name) (cat_indexes c)) n =
      (case map_of (cat_indexes c) n of Some ix \<Rightarrow> if ix_table ix = name then None else Some ix | None \<Rightarrow> None)" for n
    using asc by (simp add: map_of_filter_ascending split: option.split)
  have names: "ix_name ix = n" if "catalog_index c n = Some ix" for n ix
    using that inv by (auto simp: catalog_index_def catalog_inv_def dest: map_of_SomeD)
  show ?thesis
  proof (cases "map_of (cat_tables c) name")
    case None
    then show ?thesis using inv names by (auto simp: catalog_inv_def drop_table_def)
  next
    case (Some t)
    from drop_table_eq [OF inv this] inv names Some look show ?thesis
      by (auto simp: catalog_inv_def bt_simps catalog_index_def)
  qed
qed

theorem catalog_drop_table_witness:
  "\<exists>c :: unit catalog. \<exists>d c'. catalog_index c [105] \<noteq> None \<and> drop_table [116] c = Ok (d, c') \<and> dt_index_files d = [7] \<and>
     catalog_index c' [105] = None"
proof -
  let ?h = "\<lparr> hs_file = 3, hs_file_no = 1 \<rparr>" and ?s = "\<lparr> is_file = 7, is_file_no = 1 \<rparr>"
  obtain c1 :: "unit catalog" where c1: "create_table [116] [] ?h Heap Row () catalog_default = Ok c1"
    by (simp add: create_table_def taken_def catalog_default_def)
  obtain c2 where c2: "create_index [105] [116] [97] False ?s c1 = Ok c2"
    using c1 by (auto simp: create_index_def create_table_def taken_def catalog_default_def)
  have r: "catalog_reachable c2" using start c1 c2 by (blast intro: catalog_reachable.intros)
  have v: "map_of (cat_tables c2) [116] \<noteq> None" "indexes_for c2 [116] = [\<lparr> ix_name = [105], ix_table = [116], ix_column = [97], ix_unique = False, ix_store = ?s \<rparr>]"
    "catalog_index c2 [105] = Some \<lparr> ix_name = [105], ix_table = [116], ix_column = [97], ix_unique = False, ix_store = ?s \<rparr>"
    using c1 c2 by (auto simp: create_index_def create_table_def taken_def catalog_default_def indexes_for_def catalog_index_def)
  then obtain t where t: "map_of (cat_tables c2) [116] = Some t" by blast
  from catalog_drop_table [OF r, of "[116]"] obtain d c' where "drop_table [116] c2 = Ok (d, c')" "dt_index_files d = [7]"
    "catalog_index c' [105] = None"
    by (auto simp: t v(2,3))
  with v(3) show ?thesis by (intro exI [of _ c2] exI [of _ d] exI [of _ c']) simp
qed

end
