(* ===== verification/Float64.thy ===== *)
theory Float64
  imports Value
begin

section \<open>Double precision arithmetic\<close>

text \<open>
  The operations of Rust's \<open>f64\<close> that the evaluator uses, on bit patterns: a finite float is a signed multiple of a
  power of two, an operation computes the exact rational result and rounds it to the nearest float, ties to even.
  Rust leaves the payload of a NaN result open; it is the quiet NaN here. \<open>unat\<close> reads the fields.
\<close>

unbundle bit_operations_syntax

definition f64_inf :: f64 where "f64_inf = 0x7FF0000000000000"
definition f64_nan :: f64 where "f64_nan = 0x7FF8000000000000"

definition f64_sign_bit :: "bool \<Rightarrow> nat" where
  "f64_sign_bit s = (if s then 2 ^ 63 else 0)"

definition f64_is_inf :: "f64 \<Rightarrow> bool" where
  "f64_is_inf x = (f64_magnitude x = 0x7FF0000000000000)"

text \<open>Mantissa and exponent of a finite float: its magnitude is \<open>m * 2 ^ e\<close>, with \<open>e\<close> shifted by 1074 to be a number.\<close>

definition f64_mantissa :: "f64 \<Rightarrow> nat" where
  "f64_mantissa x =
     (let m = f64_magnitude x in if m div 2 ^ 52 = 0 then m else m mod 2 ^ 52 + 2 ^ 52)"

definition f64_exponent :: "f64 \<Rightarrow> nat" where
  "f64_exponent x = (let m = f64_magnitude x in m div 2 ^ 52 - 1)"

text \<open>The binary logarithm, rounded down.\<close>

fun log2_nat :: "nat \<Rightarrow> nat" where
  "log2_nat n = (if n < 2 then 0 else Suc (log2_nat (n div 2)))"

declare log2_nat.simps [simp del]

text \<open>
  \<open>round_quotient a b\<close>: the multiple of \<open>2 ^ e\<close> nearest to \<open>a / b\<close>, ties to even, as a number of units of \<open>2 ^ e\<close>, where a
  float counts units of \<open>2 ^ -1074\<close>. \<open>e\<close> is chosen so that the result has 53 bits, or 0 for a subnormal.
\<close>

definition round_quotient :: "nat \<Rightarrow> nat \<Rightarrow> nat" where
  "round_quotient a b =
     (let q = a div b; r = a mod b in if b < 2 * r \<or> 2 * r = b \<and> odd q then q + 1 else q)"

definition f64_round :: "bool \<Rightarrow> nat \<Rightarrow> nat \<Rightarrow> f64" where
  "f64_round s a b =
     (let e = log2_nat (a div b) - 52;
          bits = round_quotient a (b * 2 ^ e) + e * 2 ^ 52
      in word_of_nat (f64_sign_bit s + min bits 0x7FF0000000000000))"

definition f64_neg_bit :: "f64 \<Rightarrow> bool" where
  "f64_neg_bit x = bit x 63"

text \<open>The signed number of units of \<open>2 ^ -1074\<close> in a finite float.\<close>

definition f64_units :: "f64 \<Rightarrow> int" where
  "f64_units x = (if f64_neg_bit x then - 1 else 1) * int (f64_mantissa x * 2 ^ f64_exponent x)"

definition f64_add :: "f64 \<Rightarrow> f64 \<Rightarrow> f64" where
  "f64_add a b =
     (if f64_is_nan a \<or> f64_is_nan b then f64_nan
      else if f64_is_inf a then (if f64_is_inf b \<and> f64_neg_bit a \<noteq> f64_neg_bit b then f64_nan else a)
      else if f64_is_inf b then b
      else let s = f64_units a + f64_units b in
        if s = 0 then word_of_nat (f64_sign_bit (f64_neg_bit a \<and> f64_neg_bit b))
        else f64_round (s < 0) (nat \<bar>s\<bar>) 1)"

definition f64_sub :: "f64 \<Rightarrow> f64 \<Rightarrow> f64" where
  "f64_sub a b = f64_add a (f64_neg b)"

definition f64_mul :: "f64 \<Rightarrow> f64 \<Rightarrow> f64" where
  "f64_mul a b =
     (let s = (f64_neg_bit a \<noteq> f64_neg_bit b) in
      if f64_is_nan a \<or> f64_is_nan b then f64_nan
      else if f64_is_inf a \<or> f64_is_inf b then
        (if f64_magnitude a = 0 \<or> f64_magnitude b = 0 then f64_nan else word_of_nat (f64_sign_bit s + unat f64_inf))
      else f64_round s (nat \<bar>f64_units a * f64_units b\<bar>) (2 ^ 1074))"

definition f64_div :: "f64 \<Rightarrow> f64 \<Rightarrow> f64" where
  "f64_div a b =
     (let s = (f64_neg_bit a \<noteq> f64_neg_bit b) in
      if f64_is_nan a \<or> f64_is_nan b \<or> f64_is_inf a \<and> f64_is_inf b \<or> f64_magnitude a = 0 \<and> f64_magnitude b = 0 then f64_nan
      else if f64_is_inf a \<or> f64_magnitude b = 0 then word_of_nat (f64_sign_bit s + unat f64_inf)
      else if f64_is_inf b then word_of_nat (f64_sign_bit s)
      else f64_round s (nat \<bar>f64_units a\<bar> * 2 ^ 1074) (nat \<bar>f64_units b\<bar>))"

text \<open>\<open>%\<close> is the truncated remainder, exact, with the sign of the dividend.\<close>

definition f64_rem :: "f64 \<Rightarrow> f64 \<Rightarrow> f64" where
  "f64_rem a b =
     (if f64_is_nan a \<or> f64_is_nan b \<or> f64_is_inf a \<or> f64_magnitude b = 0 then f64_nan
      else if f64_is_inf b then a
      else f64_round (f64_neg_bit a) (nat \<bar>f64_units a\<bar> mod nat \<bar>f64_units b\<bar>) 1)"

text \<open>\<open>n as f64\<close> for integers.\<close>

definition f64_of_int :: "int \<Rightarrow> f64" where
  "f64_of_int n = f64_round (n < 0) (nat \<bar>n\<bar> * 2 ^ 1074) 1"

subsection \<open>Exact results\<close>

lemma log2_nat_bounds: "0 < n \<Longrightarrow> 2 ^ log2_nat n \<le> n \<and> n < 2 ^ Suc (log2_nat n)"
proof (induction n rule: log2_nat.induct)
  case (1 n)
  show ?case
  proof (cases "n < 2")
    case True
    with 1(2) show ?thesis by (simp add: log2_nat.simps)
  next
    case False
    then have "2 ^ log2_nat (n div 2) \<le> n div 2" "n div 2 < 2 ^ Suc (log2_nat (n div 2))"
      using 1(1) by auto
    then have "2 * 2 ^ log2_nat (n div 2) \<le> n" "n < 2 * 2 ^ Suc (log2_nat (n div 2))" by auto
    then show ?thesis using False by (simp add: log2_nat.simps [of n])
  qed
qed

lemma log2_nat_less: "n < 2 ^ k \<Longrightarrow> 0 < n \<Longrightarrow> log2_nat n < k"
proof (rule ccontr)
  assume n: "n < 2 ^ k" "0 < n" "\<not> log2_nat n < k"
  then have "(2 :: nat) ^ k \<le> 2 ^ log2_nat n" by (intro power_increasing) auto
  with n log2_nat_bounds [of n] show False by linarith
qed

lemma round_quotient_exact: "0 < b \<Longrightarrow> round_quotient (b * q) b = q"
  by (simp add: round_quotient_def)

text \<open>A number of units with 53 significant bits is its own rounding.\<close>

lemma f64_round_bits:
  assumes "0 < b" "u = m * 2 ^ e" "0 < m" "m < 2 ^ 53" "e \<le> 2045"
  defines "x \<equiv> log2_nat u - 52"
  shows "2 ^ x dvd u" "u div 2 ^ x < 2 ^ 53" "x = 0 \<or> 2 ^ 52 \<le> u div 2 ^ x" "x \<le> 2045"
    "f64_round s (b * u) b = word_of_nat (f64_sign_bit s + (u div 2 ^ x + x * 2 ^ 52))"
proof -
  have u: "0 < u" "u < 2 ^ (53 + e)" using assms(2-4) by (simp_all add: power_add)
  note L = log2_nat_bounds [OF u(1)]
  have "log2_nat u < 53 + e" using log2_nat_less [OF u(2,1)] .
  then have xe: "x \<le> e" by (simp add: x_def)
  then show "x \<le> 2045" using assms(5) by simp
  show d: "2 ^ x dvd u" using xe by (simp add: assms(2) le_imp_power_dvd)
  have "(2 :: nat) ^ Suc (log2_nat u) \<le> 2 ^ (53 + x)" by (intro power_increasing) (auto simp: x_def)
  then have "u < 2 ^ 53 * 2 ^ x" using L unfolding power_add [symmetric] by linarith
  then show q: "u div 2 ^ x < 2 ^ 53" by (simp add: less_mult_imp_div_less)
  show "x = 0 \<or> 2 ^ 52 \<le> u div 2 ^ x"
  proof (cases "log2_nat u \<le> 52")
    case False
    then have "2 ^ 52 * 2 ^ x = (2 :: nat) ^ log2_nat u" unfolding power_add [symmetric] by (simp only: x_def) simp
    then have "2 ^ 52 * 2 ^ x \<le> u" using L by linarith
    then have "2 ^ 52 * 2 ^ x div 2 ^ x \<le> u div 2 ^ x" by (rule div_le_mono)
    then show ?thesis by simp
  qed (simp add: x_def)
  have r: "round_quotient (b * u) (b * 2 ^ x) = u div 2 ^ x"
    using round_quotient_exact [of "b * 2 ^ x" "u div 2 ^ x"] assms(1) d by (simp add: mult.assoc)
  have "u div 2 ^ x + x * 2 ^ 52 \<le> (2 ^ 53 - 1) + 2045 * 2 ^ 52"
    using q \<open>x \<le> 2045\<close> by (intro add_mono mult_right_mono) auto
  then have "min (u div 2 ^ x + x * 2 ^ 52) 0x7FF0000000000000 = u div 2 ^ x + x * 2 ^ 52"
    by simp
  then show "f64_round s (b * u) b = word_of_nat (f64_sign_bit s + (u div 2 ^ x + x * 2 ^ 52))"
    using assms(1) by (simp add: f64_round_def Let_def r flip: x_def)
qed

lemma f64_round_units:
  assumes "0 < b" "u = m * 2 ^ e" "0 < m" "m < 2 ^ 53" "e \<le> 2045"
  shows "f64_units (f64_round s (b * u) b) = (if s then - int u else int u) \<and> \<not> f64_is_nan (f64_round s (b * u) b) \<and>
     \<not> f64_is_inf (f64_round s (b * u) b)"
proof -
  let ?x = "log2_nat u - 52"
  let ?bits = "u div 2 ^ ?x + ?x * 2 ^ 52" and ?f = "f64_round s (b * u) b"
  note B = f64_round_bits [OF assms]
  have bits: "?bits < 0x7FF0000000000000" 
  proof -
    have "?bits \<le> (2 ^ 53 - 1) + 2045 * 2 ^ 52" using B(2,4) by (intro add_mono mult_right_mono) auto
    then show ?thesis by simp
  qed
  have un: "unat ?f = f64_sign_bit s + ?bits"
    using bits unfolding B(5) by (subst unat_of_nat) (simp add: f64_sign_bit_def take_bit_nat_eq_self)
  have mag: "f64_magnitude ?f = ?bits"
    using bits un by (simp add: f64_magnitude_mod f64_sign_bit_def)
  have sg: "f64_neg_bit ?f = s"
    using bits un by (simp add: f64_neg_bit_def f64_sign f64_sign_bit_def)
  have "f64_mantissa ?f * 2 ^ f64_exponent ?f = u div 2 ^ ?x * 2 ^ ?x"
  proof (cases "u div 2 ^ ?x < 2 ^ 52")
    case True
    with B(3) have x0: "?x = 0" by auto
    with True show ?thesis by (simp add: f64_mantissa_def f64_exponent_def mag)
  next
    case False
    with B(2) have "?bits div 2 ^ 52 = Suc ?x" "?bits mod 2 ^ 52 + 2 ^ 52 = u div 2 ^ ?x"
      by (simp_all add: div_add1_eq le_div_geq le_mod_geq mod_add_eq)
    then show ?thesis by (simp add: f64_mantissa_def f64_exponent_def mag Let_def)
  qed
  then have "f64_mantissa ?f * 2 ^ f64_exponent ?f = u" using B(1) by simp
  then show ?thesis using sg mag bits by (simp add: f64_units_def f64_is_nan_def f64_is_inf_def)
qed

lemma f64_of_int_exact:
  assumes "\<bar>n\<bar> \<le> 2 ^ 53"
  shows "f64_units (f64_of_int n) = n * 2 ^ 1074 \<and> \<not> f64_is_nan (f64_of_int n) \<and> \<not> f64_is_inf (f64_of_int n)"
proof (cases "n = 0")
  case True
  have "f64_of_int 0 = 0"
    by (simp add: f64_of_int_def f64_round_def round_quotient_def f64_sign_bit_def log2_nat.simps)
  then show ?thesis using True
    by (simp add: f64_units_def f64_neg_bit_def f64_mantissa_def f64_exponent_def f64_magnitude_def f64_is_nan_def f64_is_inf_def)
next
  case False
  obtain m e where me: "nat \<bar>n\<bar> = m * 2 ^ e" "0 < m" "m < 2 ^ 53" "e \<le> 1"
  proof (cases "nat \<bar>n\<bar> < 2 ^ 53")
    case True
    with False that [of "nat \<bar>n\<bar>" 0] show ?thesis by simp
  next
    case big: False
    then have "nat \<bar>n\<bar> = 2 ^ 52 * 2 ^ 1" using assms by simp
    with that [of "2 ^ 52" 1] show ?thesis by simp
  qed
  have "nat \<bar>n\<bar> * 2 ^ 1074 = m * 2 ^ (e + 1074)" using me(1) by (simp add: power_add)
  from f64_round_units [OF _ this me(2,3), where b = 1 and s = "n < 0"] me(4) show ?thesis
    by (simp add: f64_of_int_def split: if_splits)
qed

subsection \<open>Comparison is comparison of values\<close>

definition magnitude_units :: "nat \<Rightarrow> nat" where
  "magnitude_units m = (if m div 2 ^ 52 = 0 then m else (m mod 2 ^ 52 + 2 ^ 52) * 2 ^ (m div 2 ^ 52 - 1))"

lemma magnitude_units_Suc: "magnitude_units m < magnitude_units (Suc m)"
proof (cases "Suc (m mod 2 ^ 52) = 2 ^ 52")
  case True
  then have d: "Suc m div 2 ^ 52 = Suc (m div 2 ^ 52)" "Suc m mod 2 ^ 52 = 0"
    using div_Suc [of m "2 ^ 52"] mod_Suc [of m "2 ^ 52"] by simp_all
  show ?thesis
  proof (cases "m div 2 ^ 52")
    case 0
    with d have "m < 2 ^ 52" by (simp add: div_eq_0_iff)
    with 0 d show ?thesis by (simp add: magnitude_units_def)
  next
    case (Suc k)
    have "(m mod 2 ^ 52 + 2 ^ 52) * 2 ^ k < (2 ^ 53) * (2 :: nat) ^ k"
      using True by (intro mult_strict_right_mono) auto
    with Suc d show ?thesis by (simp add: magnitude_units_def)
  qed
next
  case False
  then have "Suc m div 2 ^ 52 = m div 2 ^ 52" "Suc m mod 2 ^ 52 = Suc (m mod 2 ^ 52)"
    using div_Suc [of m "2 ^ 52"] mod_Suc [of m "2 ^ 52"] by simp_all
  then show ?thesis by (simp add: magnitude_units_def)
qed

lemma magnitude_units_less: "magnitude_units a < magnitude_units b \<longleftrightarrow> a < b"
  using lift_Suc_mono_less_iff [of magnitude_units, OF magnitude_units_Suc] .

lemma f64_units_magnitude: "f64_units x = (if f64_neg_bit x then - 1 else 1) * int (magnitude_units (f64_magnitude x))"
  by (simp add: f64_units_def f64_mantissa_def f64_exponent_def magnitude_units_def Let_def)

lemma f64_key_units: "cmp_by f64_key a b = cmp_by f64_units a b"
proof -
  have z: "magnitude_units 0 = 0" by (simp add: magnitude_units_def)
  have pos: "0 < magnitude_units m \<longleftrightarrow> 0 < m" for m using magnitude_units_less [of 0 m] z by simp
  have less: "(f64_key a < f64_key b) = (f64_units a < f64_units b)" for a b
    using pos [of "f64_magnitude a"] pos [of "f64_magnitude b"] magnitude_units_less [of "f64_magnitude a" "f64_magnitude b"]
      magnitude_units_less [of "f64_magnitude b" "f64_magnitude a"]
    by (auto simp: f64_key_def f64_units_magnitude f64_neg_bit_def)
  show ?thesis using less [of a b] less [of b a] by (auto simp: cmp_by_def)
qed

end
