(* ===== verification/Eval.thy ===== *)
theory Eval
  imports Catalog Datetime Float64
begin

section \<open>Expression evaluation\<close>

text \<open>
  The evaluator of \<open>src/src/exec/eval.rs\<close> with \<open>eval_aggregate\<close> of \<open>src/src/exec/aggregate.rs\<close>, which it calls for groups:
  column resolution through enclosing queries, three-valued logic, checked integer and double arithmetic,
  comparison, \<open>LIKE\<close>, and the string functions. Two parts of the standard library are arguments, collected in
  \<open>text_ops\<close>: decimal printing of floats and Unicode case mapping.

  The lemmas show that the table-filling \<open>LIKE\<close> matcher agrees with the meaning of patterns, that the connectives are
  Kleene's, that integer arithmetic is exact or reports overflow, that evaluation on rows of the schema's width
  never panics, and how names resolve.
\<close>

record text_ops =
  f64_to_string :: "f64 \<Rightarrow> rust_string"
  f64_fixed1 :: "f64 \<Rightarrow> rust_string"
  to_uppercase :: "rust_string \<Rightarrow> rust_string"
  to_lowercase :: "rust_string \<Rightarrow> rust_string"

text \<open>\<open>Display\<close> of values (\<open>src/src/sql/value.rs\<close>).\<close>

definition i64_text :: "i64 \<Rightarrow> rust_string" where
  "i64_text n = (if sint n < 0 then 45 # dec_digits (nat (- sint n)) else dec_digits (nat (sint n)))"

fun value_text :: "text_ops \<Rightarrow> sql_value \<Rightarrow> rust_string" where
  "value_text tx VNull = bytes_of ''NULL''"
| "value_text tx (VBool b) = bytes_of (if b then ''true'' else ''false'')"
| "value_text tx (VDate d) = format_date d"
| "value_text tx (VInt n) = i64_text n"
| "value_text tx (VFloat x) = (let s = f64_to_string tx x in if 46 \<in> set s then s else f64_fixed1 tx x)"
| "value_text tx (VStr s) = s"

subsection \<open>Contexts\<close>

type_synonym row = "sql_value list"

datatype scope = RowScope schema row | GroupScope schema "row list"
datatype eval_ctx = EvalCtx (ctx_scope: scope) (ctx_parent: "eval_ctx option")

definition ctx_row :: "schema \<Rightarrow> row \<Rightarrow> eval_ctx" where
  "ctx_row sc r = EvalCtx (RowScope sc r) None"

definition ctx_group :: "schema \<Rightarrow> row list \<Rightarrow> eval_ctx" where
  "ctx_group sc rows = EvalCtx (GroupScope sc rows) None"

definition type_mismatch :: error where
  "type_mismatch = Runtime ''type mismatch in expression''"

definition div_by_zero :: error where
  "div_by_zero = Runtime ''division by zero''"

definition int_overflow :: error where
  "int_overflow = Runtime ''integer overflow''"

definition arity_error :: "rust_string \<Rightarrow> nat \<Rightarrow> string \<Rightarrow> error" where
  "arity_error name got want =
     Runtime (text_of name @ '' expects '' @ want @ '' argument(s), got '' @ text_of (dec_digits got))"

text \<open>The text of an error and the test for a substring, on which \<open>resolve_column\<close> decides.\<close>

fun error_text :: "error \<Rightarrow> string" where
  "error_text (Syntax m _) = ''syntax error: '' @ m"
| "error_text (Runtime m) = m"
| "error_text PageFull = ''page full''"
| "error_text Retry = ''retry statement''"
| "error_text Unsupported = ''unsupported sql''"
| "error_text Panic = []"

fun contains :: "string \<Rightarrow> string \<Rightarrow> bool" where
  "contains [] pat = (pat = [])"
| "contains (c # s) pat = (take (length pat) (c # s) = pat \<or> contains s pat)"

definition scope_lookup :: "scope \<Rightarrow> rust_string option \<Rightarrow> rust_string \<Rightarrow> sql_value result" where
  "scope_lookup sc qual name =
     (case sc of
        RowScope schema r \<Rightarrow> bindR (resolve schema qual name) (idx r)
      | GroupScope schema rows \<Rightarrow>
          bindR (resolve schema qual name) (\<lambda>i. case rows of [] \<Rightarrow> Ok VNull | r # _ \<Rightarrow> idx r i))"

definition no_such_column :: "rust_string option \<Rightarrow> rust_string \<Rightarrow> error" where
  "no_such_column qual name =
     Runtime (case qual of Some q \<Rightarrow> ''no such column: '' @ text_of q @ ''.'' @ text_of name
              | None \<Rightarrow> ''no such column: '' @ text_of name)"

text \<open>A panic of indexing a row is not an \<open>Err\<close> of \<open>resolve\<close>: it propagates at once.\<close>

fun resolve_from :: "eval_ctx \<Rightarrow> rust_string option \<Rightarrow> rust_string \<Rightarrow> sql_value result" where
  "resolve_from (EvalCtx sc parent) qual name =
     (case scope_lookup sc qual name of
        Ok v \<Rightarrow> Ok v
      | Err Panic \<Rightarrow> Err Panic
      | Err e \<Rightarrow>
          if contains (error_text e) ''ambiguous'' then Err e
          else (case parent of None \<Rightarrow> Err e | Some p \<Rightarrow> resolve_from p qual name))"

definition resolve_column :: "eval_ctx option \<Rightarrow> rust_string option \<Rightarrow> rust_string \<Rightarrow> sql_value result" where
  "resolve_column ctx qual name =
     (case ctx of None \<Rightarrow> Err (no_such_column qual name) | Some c \<Rightarrow> resolve_from c qual name)"

subsection \<open>Shape tests\<close>

fun expr_has_column :: "expr \<Rightarrow> bool" where
  "expr_has_column (EColumn _) = True"
| "expr_has_column (EQualified _ _) = True"
| "expr_has_column (EUnary _ e) = expr_has_column e"
| "expr_has_column (EBinary _ l r) = (expr_has_column l \<or> expr_has_column r)"
| "expr_has_column (EIsNull e _) = expr_has_column e"
| "expr_has_column (ELike e p _ _) = (expr_has_column e \<or> expr_has_column p)"
| "expr_has_column (EFunction _ args) = list_ex expr_has_column args"
| "expr_has_column _ = False"

fun expr_has_subquery :: "expr \<Rightarrow> bool" where
  "expr_has_subquery (EInSubquery _ _ _) = True"
| "expr_has_subquery (EExists _) = True"
| "expr_has_subquery (EScalarSubquery _) = True"
| "expr_has_subquery (EUnary _ e) = expr_has_subquery e"
| "expr_has_subquery (EIsNull e _) = expr_has_subquery e"
| "expr_has_subquery (EBinary _ l r) = (expr_has_subquery l \<or> expr_has_subquery r)"
| "expr_has_subquery (ELike e p _ _) = (expr_has_subquery e \<or> expr_has_subquery p)"
| "expr_has_subquery (EFunction _ args) = list_ex expr_has_subquery args"
| "expr_has_subquery (EAggregate _ (Some e) _) = expr_has_subquery e"
| "expr_has_subquery _ = False"

fun expr_has_aggregate :: "expr \<Rightarrow> bool" where
  "expr_has_aggregate (EAggregate _ _ _) = True"
| "expr_has_aggregate (EUnary _ e) = expr_has_aggregate e"
| "expr_has_aggregate (EBinary _ l r) = (expr_has_aggregate l \<or> expr_has_aggregate r)"
| "expr_has_aggregate (EIsNull e _) = expr_has_aggregate e"
| "expr_has_aggregate (ELike e p _ _) = (expr_has_aggregate e \<or> expr_has_aggregate p)"
| "expr_has_aggregate (EFunction _ args) = list_ex expr_has_aggregate args"
| "expr_has_aggregate _ = False"

subsection \<open>Operators\<close>

text \<open>\<open>checked_*\<close> of \<open>i64\<close>: the exact result, if it fits.\<close>

definition checked_i64 :: "int \<Rightarrow> i64 option" where
  "checked_i64 n = (if - (2 ^ 63) \<le> n \<and> n < 2 ^ 63 then Some (word_of_int n) else None)"

text \<open>Division truncates towards zero; \<open>checked_rem\<close> fails where the quotient overflows.\<close>

definition trunc_div :: "int \<Rightarrow> int \<Rightarrow> int" where
  "trunc_div a b = sgn a * sgn b * (\<bar>a\<bar> div \<bar>b\<bar>)"

definition trunc_rem :: "int \<Rightarrow> int \<Rightarrow> int" where
  "trunc_rem a b = a - b * trunc_div a b"

definition int_arith :: "bin_op \<Rightarrow> i64 \<Rightarrow> i64 \<Rightarrow> sql_value result" where
  "int_arith op a b =
     (let checked = (\<lambda>r. case r of Some n \<Rightarrow> Ok (VInt n) | None \<Rightarrow> Err int_overflow) in
      case op of
        Add \<Rightarrow> checked (checked_i64 (sint a + sint b))
      | Sub \<Rightarrow> checked (checked_i64 (sint a - sint b))
      | Mul \<Rightarrow> checked (checked_i64 (sint a * sint b))
      | Div \<Rightarrow> if b = 0 then Err div_by_zero else checked (checked_i64 (trunc_div (sint a) (sint b)))
      | Mod \<Rightarrow> if b = 0 then Err div_by_zero
               else checked (case checked_i64 (trunc_div (sint a) (sint b)) of
                       None \<Rightarrow> None | Some _ \<Rightarrow> checked_i64 (trunc_rem (sint a) (sint b)))
      | _ \<Rightarrow> Err Panic)"

definition float_arith :: "bin_op \<Rightarrow> f64 \<Rightarrow> f64 \<Rightarrow> sql_value result" where
  "float_arith op a b =
     (if (op = Div \<or> op = Mod) \<and> f64_eq b 0 then Err div_by_zero
      else case op of
        Add \<Rightarrow> Ok (VFloat (f64_add a b))
      | Sub \<Rightarrow> Ok (VFloat (f64_sub a b))
      | Mul \<Rightarrow> Ok (VFloat (f64_mul a b))
      | Div \<Rightarrow> Ok (VFloat (f64_div a b))
      | Mod \<Rightarrow> Ok (VFloat (f64_rem a b))
      | _ \<Rightarrow> Err Panic)"

fun arith :: "bin_op \<Rightarrow> sql_value \<Rightarrow> sql_value \<Rightarrow> sql_value result" where
  "arith op VNull VNull = Ok VNull"
| "arith op VNull (VInt _) = Ok VNull"
| "arith op VNull (VFloat _) = Ok VNull"
| "arith op (VInt _) VNull = Ok VNull"
| "arith op (VFloat _) VNull = Ok VNull"
| "arith op (VInt a) (VInt b) = int_arith op a b"
| "arith op (VFloat a) (VFloat b) = float_arith op a b"
| "arith op (VInt a) (VFloat b) = float_arith op (f64_of_int (sint a)) b"
| "arith op (VFloat a) (VInt b) = float_arith op a (f64_of_int (sint b))"
| "arith op _ _ = Err type_mismatch"

fun cmp_values :: "sql_value \<Rightarrow> sql_value \<Rightarrow> ordering option result" where
  "cmp_values VNull _ = Ok None"
| "cmp_values _ VNull = Ok None"
| "cmp_values (VInt a) (VInt b) = Ok (Some (cmp_by sint a b))"
| "cmp_values (VInt a) (VFloat b) = Ok (f64_partial_cmp (f64_of_int (sint a)) b)"
| "cmp_values (VFloat a) (VInt b) = Ok (f64_partial_cmp a (f64_of_int (sint b)))"
| "cmp_values (VFloat a) (VFloat b) = Ok (f64_partial_cmp a b)"
| "cmp_values (VStr a) (VStr b) = Ok (Some (cmp_by id a b))"
| "cmp_values (VBool a) (VBool b) = Ok (Some (cmp_by id a b))"
| "cmp_values (VDate a) (VDate b) = Ok (Some (cmp_by sint a b))"
| "cmp_values (VDate a) (VStr b) = bindR (parse_date b) (\<lambda>d. Ok (Some (cmp_by sint a d)))"
| "cmp_values (VStr a) (VDate b) = bindR (parse_date a) (\<lambda>d. Ok (Some (cmp_by sint d b)))"
| "cmp_values _ _ = Err type_mismatch"

definition compare :: "bin_op \<Rightarrow> sql_value \<Rightarrow> sql_value \<Rightarrow> sql_value result" where
  "compare op l r =
     (if l = VNull \<or> r = VNull then Ok VNull
      else bindR (cmp_values l r) (\<lambda>ord.
        Ok (VBool (case ord of
            None \<Rightarrow> op = NotEq
          | Some Less \<Rightarrow> op \<in> {Lt, Le, NotEq}
          | Some Equal \<Rightarrow> op \<in> {Le, Ge, Eq}
          | Some Greater \<Rightarrow> op \<in> {Gt, Ge, NotEq}))))"

definition eval_binary :: "bin_op \<Rightarrow> sql_value \<Rightarrow> sql_value \<Rightarrow> sql_value result" where
  "eval_binary op l r =
     (case op of
        And \<Rightarrow>
          if l = VBool False \<or> r = VBool False then Ok (VBool False)
          else if l = VBool True \<and> r = VBool True then Ok (VBool True)
          else if (l, r) \<in> {(VBool True, VNull), (VNull, VBool True), (VNull, VNull)} then Ok VNull
          else Err type_mismatch
      | Or \<Rightarrow>
          if l = VBool True \<or> r = VBool True then Ok (VBool True)
          else if l = VBool False \<and> r = VBool False then Ok (VBool False)
          else if (l, r) \<in> {(VBool False, VNull), (VNull, VBool False), (VNull, VNull)} then Ok VNull
          else Err type_mismatch
      | _ \<Rightarrow> if op \<in> {Add, Sub, Mul, Div, Mod} then arith op l r else compare op l r)"

definition eval_unary :: "un_op \<Rightarrow> sql_value \<Rightarrow> sql_value result" where
  "eval_unary op v =
     (case op of
        Neg \<Rightarrow> (case v of
            VNull \<Rightarrow> Ok VNull
          | VInt n \<Rightarrow> (case checked_i64 (- sint n) of Some m \<Rightarrow> Ok (VInt m) | None \<Rightarrow> Err int_overflow)
          | VFloat x \<Rightarrow> Ok (VFloat (f64_neg x))
          | _ \<Rightarrow> Err type_mismatch)
      | Not \<Rightarrow> (case v of
            VNull \<Rightarrow> Ok VNull
          | VBool b \<Rightarrow> Ok (VBool (\<not> b))
          | _ \<Rightarrow> Err type_mismatch))"

subsection \<open>LIKE\<close>

datatype like_tok = Any | One | Lit rust_char

fun compile_like :: "rust_char list \<Rightarrow> rust_char option \<Rightarrow> like_tok list result" where
  "compile_like [] escape = Ok []"
| "compile_like (c # cs) escape =
     (if Some c = escape then
        (case cs of
           [] \<Rightarrow> Err (Runtime ''LIKE pattern ends with the escape character'')
         | d # ds \<Rightarrow> bindR (compile_like ds escape) (\<lambda>ts. Ok (Lit d # ts)))
      else bindR (compile_like cs escape) (\<lambda>ts.
        Ok ((if c = [37] then Any else if c = [95] then One else Lit c) # ts)))"

text \<open>
  The table of the matcher, row by row: the first row, and the next row from the previous one and a character,
  where \<open>left\<close> is the cell just computed and \<open>diag\<close> the previous row's cell before it.
\<close>

fun first_row :: "like_tok list \<Rightarrow> bool list" where
  "first_row [] = []"
| "first_row (t # ts) = (if t = Any then True # first_row ts else replicate (length (t # ts)) False)"

fun like_cells :: "rust_char \<Rightarrow> like_tok list \<Rightarrow> bool \<Rightarrow> bool \<Rightarrow> bool list \<Rightarrow> bool list" where
  "like_cells c (t # ts) left diag (up # ups) =
     (let cell = (case t of Any \<Rightarrow> left \<or> up | One \<Rightarrow> diag | Lit d \<Rightarrow> diag \<and> c = d)
      in cell # like_cells c ts cell up ups)"
| "like_cells c _ _ _ _ = []"

definition next_row :: "like_tok list \<Rightarrow> bool list \<Rightarrow> rust_char \<Rightarrow> bool list" where
  "next_row toks prev c = False # like_cells c toks False (hd prev) (tl prev)"

definition like_table :: "like_tok list \<Rightarrow> rust_char list \<Rightarrow> bool" where
  "like_table toks txt = last (foldl (next_row toks) (True # first_row toks) txt)"

definition like_match :: "rust_string \<Rightarrow> rust_string \<Rightarrow> rust_char option \<Rightarrow> bool result" where
  "like_match pattern text escape =
     bindR (compile_like (chars pattern) escape) (\<lambda>toks. Ok (like_table toks (chars text)))"

subsection \<open>Functions\<close>

definition str_arg :: "sql_value \<Rightarrow> rust_string option result" where
  "str_arg v = (case v of VNull \<Rightarrow> Ok None | VStr s \<Rightarrow> Ok (Some s) | _ \<Rightarrow> Err type_mismatch)"

definition int_arg :: "sql_value \<Rightarrow> i64 option result" where
  "int_arg v = (case v of VNull \<Rightarrow> Ok None | VInt n \<Rightarrow> Ok (Some n) | _ \<Rightarrow> Err type_mismatch)"

fun concat_values :: "text_ops \<Rightarrow> sql_value list \<Rightarrow> rust_string \<Rightarrow> sql_value" where
  "concat_values tx [] out = VStr out"
| "concat_values tx (v # vs) out = (if v = VNull then VNull else concat_values tx vs (out @ value_text tx v))"

definition substring_len :: "sql_value list \<Rightarrow> nat option option result" where
  "substring_len vals =
     (case vals of
        [_, _, v] \<Rightarrow> bindR (int_arg v) (\<lambda>n. case n of
            None \<Rightarrow> Ok None
          | Some n \<Rightarrow> if 0 \<le> sint n then Ok (Some (Some (nat (sint n))))
                       else Err (Runtime ''substring length must be non-negative''))
      | _ \<Rightarrow> Ok (Some None))"

definition substring :: "rust_string \<Rightarrow> sql_value list \<Rightarrow> sql_value result" where
  "substring name vals =
     (if length vals \<noteq> 2 \<and> length vals \<noteq> 3 then Err (arity_error name (length vals) ''2 or 3'')
      else bindR (str_arg (vals ! 0)) (\<lambda>s. case s of None \<Rightarrow> Ok VNull | Some s \<Rightarrow>
        bindR (int_arg (vals ! 1)) (\<lambda>n. case n of None \<Rightarrow> Ok VNull | Some start \<Rightarrow>
          if sint start < 1 then Err (Runtime ''substring start must be positive'')
          else bindR (substring_len vals) (\<lambda>len. case len of
              None \<Rightarrow> Ok VNull
            | Some len \<Rightarrow>
                let skipped = drop (nat (sint start - 1)) (chars s)
                in Ok (VStr (concat (case len of Some n \<Rightarrow> take n skipped | None \<Rightarrow> skipped)))))))"

definition apply_function :: "text_ops \<Rightarrow> rust_string \<Rightarrow> sql_value list \<Rightarrow> sql_value result" where
  "apply_function tx name vals =
     (if name = bytes_of ''concat'' then Ok (concat_values tx vals [])
      else if name = bytes_of ''upper'' \<or> name = bytes_of ''lower'' then
        (case vals of
           [v] \<Rightarrow> bindR (str_arg v) (\<lambda>s. case s of
               None \<Rightarrow> Ok VNull
             | Some s \<Rightarrow> Ok (VStr (if name = bytes_of ''upper'' then to_uppercase tx s else to_lowercase tx s)))
         | _ \<Rightarrow> Err (arity_error name (length vals) ''1''))
      else if name = bytes_of ''length'' then
        (case vals of
           [v] \<Rightarrow> bindR (str_arg v) (\<lambda>s. case s of
               None \<Rightarrow> Ok VNull
             | Some s \<Rightarrow> Ok (VInt (word_of_nat (length (chars s)))))
         | _ \<Rightarrow> Err (arity_error name (length vals) ''1''))
      else if name = bytes_of ''substring'' \<or> name = bytes_of ''substr'' then substring name vals
      else Err (Runtime (''unknown function: '' @ text_of name)))"

subsection \<open>Aggregates over the rows of a group\<close>

text \<open>\<open>DISTINCT\<close> keeps the first of equal values; \<open>seen\<close> is what was kept.\<close>

fun retain_distinct :: "('a \<Rightarrow> 'a \<Rightarrow> bool) \<Rightarrow> 'a list \<Rightarrow> 'a list \<Rightarrow> 'a list" where
  "retain_distinct eq seen [] = []"
| "retain_distinct eq seen (v # vs) =
     (if list_ex (\<lambda>s. eq s v) seen then retain_distinct eq seen vs else v # retain_distinct eq (seen @ [v]) vs)"

definition sum_step :: "sql_value option \<Rightarrow> sql_value \<Rightarrow> sql_value option result" where
  "sum_step acc v = (case acc of None \<Rightarrow> Ok (Some v) | Some a \<Rightarrow> bindR (eval_binary Add a v) (\<lambda>s. Ok (Some s)))"

definition avg_step :: "f64 \<Rightarrow> sql_value \<Rightarrow> f64 result" where
  "avg_step tot v =
     (case v of
        VInt n \<Rightarrow> Ok (f64_add tot (f64_of_int (sint n)))
      | VFloat x \<Rightarrow> Ok (f64_add tot x)
      | _ \<Rightarrow> Err type_mismatch)"

definition best_step :: "bool \<Rightarrow> sql_value option \<Rightarrow> sql_value \<Rightarrow> sql_value option result" where
  "best_step is_min best v =
     (case best of
        None \<Rightarrow> Ok (Some v)
      | Some b \<Rightarrow> bindR (cmp_values b v) (\<lambda>ord. case ord of
            None \<Rightarrow> Err type_mismatch
          | Some ord \<Rightarrow> Ok (Some (if ord = (if is_min then Greater else Less) then v else b))))"

definition or_null :: "sql_value option \<Rightarrow> sql_value" where
  "or_null v = (case v of Some x \<Rightarrow> x | None \<Rightarrow> VNull)"

definition aggregate_values :: "agg_func \<Rightarrow> bool \<Rightarrow> nat \<Rightarrow> sql_value list \<Rightarrow> sql_value result" where
  "aggregate_values func star n_rows vals =
     (case func of
        Count \<Rightarrow> Ok (VInt (word_of_nat (if star then n_rows else length vals)))
      | Sum \<Rightarrow> bindR (foldR sum_step None vals) (\<lambda>acc. Ok (or_null acc))
      | Avg \<Rightarrow> if vals = [] then Ok VNull
               else bindR (foldR avg_step 0 vals) (\<lambda>tot. Ok (VFloat (f64_div tot (f64_of_int (int (length vals))))))
      | _ \<Rightarrow> bindR (foldR (best_step (func = Min)) None vals) (\<lambda>best. Ok (or_null best)))"

subsection \<open>The evaluator\<close>

lemma elem_less_size_list: "x \<in> set xs \<Longrightarrow> f x < size_list f xs"
  by (induction xs) auto

function (sequential) eval :: "text_ops \<Rightarrow> expr \<Rightarrow> eval_ctx option \<Rightarrow> sql_value result"
and eval_function :: "text_ops \<Rightarrow> rust_string \<Rightarrow> expr list \<Rightarrow> eval_ctx option \<Rightarrow> sql_value result"
and eval_aggregate :: "text_ops \<Rightarrow> agg_func \<Rightarrow> expr option \<Rightarrow> bool \<Rightarrow> schema \<Rightarrow> row list \<Rightarrow> sql_value result" where
  "eval tx (EInt n) ctx = Ok (VInt n)"
| "eval tx (EFloat x) ctx = Ok (VFloat x)"
| "eval tx (EStr s) ctx = Ok (VStr s)"
| "eval tx ENull ctx = Ok VNull"
| "eval tx (EColumn c) ctx = resolve_column ctx None c"
| "eval tx (EQualified t c) ctx = resolve_column ctx (Some t) c"
| "eval tx (EAggregate func arg dist) ctx =
     (case map_option ctx_scope ctx of
        Some (GroupScope sc rows) \<Rightarrow> eval_aggregate tx func arg dist sc rows
      | _ \<Rightarrow> Err (Runtime ''aggregate not allowed here''))"
| "eval tx (EUnary op e) ctx = bindR (eval tx e ctx) (eval_unary op)"
| "eval tx (EBinary op l r) ctx = bindR (eval tx l ctx) (\<lambda>lv. bindR (eval tx r ctx) (\<lambda>rv. eval_binary op lv rv))"
| "eval tx (EIsNull e negated) ctx = bindR (eval tx e ctx) (\<lambda>v. Ok (VBool ((v = VNull) \<noteq> negated)))"
| "eval tx (ELike e p negated escape) ctx =
     bindR (eval tx e ctx) (\<lambda>v. bindR (eval tx p ctx) (\<lambda>pv.
       if v = VNull \<or> pv = VNull then Ok VNull
       else (case (v, pv) of
           (VStr s, VStr pat) \<Rightarrow> bindR (like_match pat s escape) (\<lambda>matched. Ok (VBool (matched \<noteq> negated)))
         | _ \<Rightarrow> Err type_mismatch)))"
| "eval tx (EFunction name args) ctx = eval_function tx name args ctx"
| "eval tx (EValue v) ctx = Ok v"
| "eval tx _ ctx = Err (Runtime ''subqueries are materialized before evaluation'')"
| "eval_function tx name args ctx = bindR (mapR (\<lambda>a. eval tx a ctx) args) (apply_function tx name)"
| "eval_aggregate tx func arg dist sc rows =
     bindR (case arg of
         None \<Rightarrow> Ok []
       | Some e \<Rightarrow> bindR (mapR (\<lambda>r. eval tx e (Some (ctx_row sc r))) rows) (\<lambda>vs. Ok (filter (\<lambda>v. v \<noteq> VNull) vs)))
       (\<lambda>vals. aggregate_values func (arg = None) (length rows)
         (if dist then retain_distinct value_eq [] vals else vals))"
  by pat_completeness auto

termination
proof (relation "measure (\<lambda>x. case x of
    Inl (_, e, _) \<Rightarrow> size e
  | Inr (Inl (_, _, args, _)) \<Rightarrow> size_list size args
  | Inr (Inr (_, _, arg, _)) \<Rightarrow> size_option size arg)", goal_cases)
qed (auto intro: elem_less_size_list)

definition eval_const :: "text_ops \<Rightarrow> expr \<Rightarrow> sql_value result" where
  "eval_const tx e = eval tx e None"

subsection \<open>Patterns\<close>

text \<open>What a compiled pattern means.\<close>

inductive like :: "like_tok list \<Rightarrow> rust_char list \<Rightarrow> bool" where
  like_nil: "like [] []"
| like_any: "like ts rest \<Longrightarrow> like (Any # ts) (skipped @ rest)"
| like_one: "like ts rest \<Longrightarrow> like (One # ts) (c # rest)"
| like_lit: "like ts rest \<Longrightarrow> like (Lit c # ts) (c # rest)"

inductive_simps like_simps [simp]:
  "like [] rest" "like (Any # ts) rest" "like (One # ts) rest" "like (Lit c # ts) rest"

lemma like_appendI: "like ts ys \<Longrightarrow> like us zs \<Longrightarrow> like (ts @ us) (ys @ zs)"
proof (induction rule: like.induct)
  case (like_any ts rest skipped)
  then show ?case using like.like_any [of "ts @ us" "rest @ zs" skipped] by simp
qed auto

lemma like_appendD: "like (ts @ us) xs \<Longrightarrow> \<exists>ys zs. xs = ys @ zs \<and> like ts ys \<and> like us zs"
proof (induction ts arbitrary: xs)
  case (Cons t ts)
  obtain run rest where split: "xs = run @ rest" "like (ts @ us) rest" and run: "\<And>ys. like ts ys \<Longrightarrow> like (t # ts) (run @ ys)"
  proof (cases t)
    case Any
    with Cons.prems that show ?thesis by auto
  next
    case One
    with Cons.prems obtain c rest where "xs = [c] @ rest" "like (ts @ us) rest" by auto
    then show ?thesis by (rule that) (simp add: One)
  next
    case (Lit c)
    with Cons.prems obtain rest where "xs = [c] @ rest" "like (ts @ us) rest" by auto
    then show ?thesis by (rule that) (simp add: Lit)
  qed
  from Cons.IH [OF split(2)] obtain ys zs where "rest = ys @ zs" "like ts ys" "like us zs" by blast
  with split(1) run show ?case by (intro exI [of _ "run @ ys"] exI [of _ zs]) simp
qed auto

lemma like_append: "like (ts @ us) xs \<longleftrightarrow> (\<exists>ys zs. xs = ys @ zs \<and> like ts ys \<and> like us zs)"
  using like_appendI like_appendD by blast

lemma like_snoc_Any: "like (ts @ [Any]) (xs @ [c]) \<longleftrightarrow> like ts (xs @ [c]) \<or> like (ts @ [Any]) xs"
proof -
  have any: "like (ts @ [Any]) ys \<longleftrightarrow> (\<exists>us vs. ys = us @ vs \<and> like ts us)" for ys
    by (auto simp: like_append)
  have "(\<exists>us vs. xs @ [c] = us @ vs \<and> like ts us) \<longleftrightarrow> like ts (xs @ [c]) \<or> (\<exists>us vs. xs = us @ vs \<and> like ts us)"
    by (auto simp: append_eq_append_conv2 Cons_eq_append_conv) (metis append_Nil2)
  then show ?thesis unfolding any .
qed

lemma like_snoc_One: "like (ts @ [One]) (xs @ [c]) \<longleftrightarrow> like ts xs"
  by (auto simp: like_append)

lemma like_snoc_Lit: "like (ts @ [Lit d]) (xs @ [c]) \<longleftrightarrow> like ts xs \<and> c = d"
  by (auto simp: like_append)

text \<open>The row of the table for a text: the matches of all non-empty prefixes of the pattern.\<close>

fun prefix_cells :: "like_tok list \<Rightarrow> like_tok list \<Rightarrow> rust_char list \<Rightarrow> bool list" where
  "prefix_cells pre [] xs = []"
| "prefix_cells pre (t # ts) xs = like (pre @ [t]) xs # prefix_cells (pre @ [t]) ts xs"

lemma like_cells_step:
  "like_cells c ts (like pre (xs @ [c])) (like pre xs) (prefix_cells pre ts xs) = prefix_cells pre ts (xs @ [c])"
proof (induction ts arbitrary: pre)
  case (Cons t ts)
  have "(case t of Any \<Rightarrow> like pre (xs @ [c]) \<or> like (pre @ [t]) xs | One \<Rightarrow> like pre xs | Lit d \<Rightarrow> like pre xs \<and> c = d) =
      like (pre @ [t]) (xs @ [c])"
    by (auto simp: like_snoc_Any like_snoc_One like_snoc_Lit split: like_tok.split)
  with Cons [of "pre @ [t]"] show ?case by simp
qed simp

lemma like_blank: "\<exists>t \<in> set ts. t \<noteq> Any \<Longrightarrow> \<not> like ts []"
proof (induction ts)
  case (Cons t ts)
  then show ?case by (cases t) auto
qed simp

lemma prefix_cells_blank: "\<exists>t \<in> set pre. t \<noteq> Any \<Longrightarrow> prefix_cells pre ts [] = replicate (length ts) False"
  by (induction ts arbitrary: pre) (auto simp: like_blank)

lemma like_all_Any: "\<forall>t \<in> set ts. t = Any \<Longrightarrow> like ts []"
  by (induction ts) auto

lemma first_row_cells: "\<forall>t \<in> set pre. t = Any \<Longrightarrow> first_row ts = prefix_cells pre ts []"
proof (induction ts arbitrary: pre)
  case (Cons t ts)
  show ?case
  proof (cases "t = Any")
    case True
    with Cons.prems have "like (pre @ [t]) []" by (intro like_all_Any) auto
    with Cons.IH [of "pre @ [t]"] Cons.prems True show ?thesis by auto
  next
    case False
    then have "prefix_cells pre (t # ts) [] = replicate (length (t # ts)) False"
      using like_blank [of "pre @ [t]"] prefix_cells_blank [of "pre @ [t]" ts] by simp
    with False show ?thesis by simp
  qed
qed simp

lemma like_rows: "foldl (next_row toks) (like [] xs # prefix_cells [] toks xs) ys = like [] (xs @ ys) # prefix_cells [] toks (xs @ ys)"
proof (induction ys arbitrary: xs)
  case (Cons y ys)
  have "next_row toks (like [] xs # prefix_cells [] toks xs) y = like [] (xs @ [y]) # prefix_cells [] toks (xs @ [y])"
    using like_cells_step [of y toks "[]" xs] by (simp add: next_row_def)
  with Cons [of "xs @ [y]"] show ?case by simp
qed simp

lemma last_prefix_cells: "last (like pre xs # prefix_cells pre ts xs) = like (pre @ ts) xs"
  by (induction ts arbitrary: pre) auto

lemma like_table_like: "like_table toks rest = like toks rest"
  using like_rows [of toks "[]" rest] first_row_cells [of "[]" toks] last_prefix_cells [of "[]" rest toks]
  by (simp add: like_table_def)

text \<open>
  What a pattern means, read off its characters: after the escape character the next one stands for itself, \<open>%\<close> (byte 37)
  stands for any run, \<open>_\<close> (byte 95) for one character, any other for itself.
\<close>

inductive pattern_matches :: "rust_char option \<Rightarrow> rust_char list \<Rightarrow> rust_char list \<Rightarrow> bool" for escape where
  pm_end: "pattern_matches escape [] []"
| pm_escaped: "escape = Some c \<Longrightarrow> pattern_matches escape cs rest \<Longrightarrow> pattern_matches escape (c # d # cs) (d # rest)"
| pm_percent: "escape \<noteq> Some [37] \<Longrightarrow> pattern_matches escape cs rest \<Longrightarrow> pattern_matches escape ([37] # cs) (skipped @ rest)"
| pm_underscore: "escape \<noteq> Some [95] \<Longrightarrow> pattern_matches escape cs rest \<Longrightarrow> pattern_matches escape ([95] # cs) (c # rest)"
| pm_itself: "escape \<noteq> Some c \<Longrightarrow> c \<notin> {[37], [95]} \<Longrightarrow> pattern_matches escape cs rest \<Longrightarrow> pattern_matches escape (c # cs) (c # rest)"

inductive_simps pattern_matches_simps:
  "pattern_matches escape [] rest" "pattern_matches escape [c] rest" "pattern_matches escape (c # d # cs) rest"

text \<open>Escape characters pair up with the characters behind them; the last one may be left without.\<close>

fun dangling_escape :: "rust_char option \<Rightarrow> rust_char list \<Rightarrow> bool" where
  "dangling_escape escape [] = False"
| "dangling_escape escape [c] = (escape = Some c)"
| "dangling_escape escape (c # d # cs) = dangling_escape escape (if escape = Some c then cs else d # cs)"

lemma compile_like_meaning:
  "(dangling_escape escape cs \<longrightarrow> compile_like cs escape = Err (Runtime ''LIKE pattern ends with the escape character'')) \<and>
   (\<not> dangling_escape escape cs \<longrightarrow> (\<exists>toks. compile_like cs escape = Ok toks \<and> (\<forall>rest. like toks rest \<longleftrightarrow> pattern_matches escape cs rest)))"
proof (induction escape cs rule: dangling_escape.induct)
  case (1 escape)
  show ?case by (auto simp: pattern_matches_simps)
next
  case (2 escape c)
  show ?case by (auto simp: pattern_matches_simps)
next
  case (3 escape c d cs)
  show ?case
  proof (cases "escape = Some c")
    case True
    with 3 show ?thesis by (auto simp: pattern_matches_simps)
  next
    case False
    let ?tok = "if c = [37] then Any else if c = [95] then One else Lit c"
    have c: "compile_like (c # d # cs) escape = bindR (compile_like (d # cs) escape) (\<lambda>ts. Ok (?tok # ts))"
      using False compile_like.simps(2) [of c "d # cs" escape] by (metis (full_types))
    have m: "pattern_matches escape (c # d # cs) rest \<longleftrightarrow>
        (if c = [37] then \<exists>skipped rest'. rest = skipped @ rest' \<and> pattern_matches escape (d # cs) rest'
         else if c = [95] then \<exists>x rest'. rest = x # rest' \<and> pattern_matches escape (d # cs) rest'
         else \<exists>rest'. rest = c # rest' \<and> pattern_matches escape (d # cs) rest')" for rest
      using False by (subst pattern_matches_simps(3)) auto
    show ?thesis
    proof (cases "dangling_escape escape (d # cs)")
      case True
      with 3 False c show ?thesis by simp
    next
      case nd: False
      with 3 False obtain toks where t: "compile_like (d # cs) escape = Ok toks" "\<And>rest. like toks rest = pattern_matches escape (d # cs) rest"
        by auto
      have "like (?tok # toks) rest \<longleftrightarrow> pattern_matches escape (c # d # cs) rest" for rest
        unfolding m using t(2) by auto
      with c t(1) nd False show ?thesis by simp
    qed
  qed
qed

lemma compile_like_error: "compile_like cs escape = Err e \<Longrightarrow> e = Runtime ''LIKE pattern ends with the escape character''"
  using compile_like_meaning [of escape cs] by (cases "dangling_escape escape cs") auto

text \<open>
  C24: The \<open>LIKE\<close> matcher, which compiles the pattern and fills a table of pattern prefixes against text prefixes in one pass over the
  text, decides exactly what the pattern means: \<open>%\<close> stands for any run of characters, \<open>_\<close> for one, an escaped character
  and any other for itself, and the whole text must be used up. It fails exactly for a pattern whose last character is an
  escape character that escapes nothing.
\<close>

theorem like_match_meaning:
  "like_match pattern rest escape =
     (if dangling_escape escape (chars pattern) then Err (Runtime ''LIKE pattern ends with the escape character'')
      else Ok (pattern_matches escape (chars pattern) (chars rest)))"
  using compile_like_meaning [of escape "chars pattern"] by (auto simp: like_match_def like_table_like)

subsection \<open>Logic and arithmetic\<close>

text \<open>Truth values with unknown, as values.\<close>

fun tri :: "bool option \<Rightarrow> sql_value" where
  "tri None = VNull"
| "tri (Some b) = VBool b"

text \<open>Kleene's connectives: the answer that every way of resolving the unknowns agrees on.\<close>

definition kleene :: "(bool \<Rightarrow> bool \<Rightarrow> bool) \<Rightarrow> bool option \<Rightarrow> bool option \<Rightarrow> bool option" where
  "kleene f a b =
     (if \<forall>x y. (a = None \<or> a = Some x) \<and> (b = None \<or> b = Some y) \<longrightarrow> f x y then Some True
      else if \<forall>x y. (a = None \<or> a = Some x) \<and> (b = None \<or> b = Some y) \<longrightarrow> \<not> f x y then Some False
      else None)"

lemma kleene_agree: "(\<forall>x y. (a = None \<or> a = Some x) \<and> (b = None \<or> b = Some y) \<longrightarrow> f x y) \<longleftrightarrow>
   (case (a, b) of (None, None) \<Rightarrow> f True True \<and> f True False \<and> f False True \<and> f False False
     | (Some x, None) \<Rightarrow> f x True \<and> f x False | (None, Some y) \<Rightarrow> f True y \<and> f False y | (Some x, Some y) \<Rightarrow> f x y)"
  for f :: "bool \<Rightarrow> bool \<Rightarrow> bool"
  by (cases a; cases b) (simp_all, (metis (full_types))+)

lemma kleene_cases:
  "kleene (\<and>) a b = (if a = Some False \<or> b = Some False then Some False else if a = Some True \<and> b = Some True then Some True else None)"
  "kleene (\<or>) a b = (if a = Some True \<or> b = Some True then Some True else if a = Some False \<and> b = Some False then Some False else None)"
  unfolding kleene_def kleene_agree kleene_agree [where f = "\<lambda>x y. \<not> f x y" for f] by (cases a; cases b; simp)+

text \<open>
  C25: \<open>AND\<close>, \<open>OR\<close> and \<open>NOT\<close> are the connectives of three-valued logic: on truth values and NULL they give the answer that
  holds however the unknown operands turn out, and NULL when there is none. An operand that is no truth value is
  an error, except that \<open>FALSE AND x\<close> and \<open>TRUE OR x\<close> are decided whatever \<open>x\<close> is.
\<close>

theorem logic_is_kleene:
  "eval_binary And (tri a) (tri b) = Ok (tri (kleene (\<and>) a b)) \<and>
   eval_binary Or (tri a) (tri b) = Ok (tri (kleene (\<or>) a b)) \<and>
   eval_unary Not (tri a) = Ok (tri (map_option HOL.Not a)) \<and>
   (\<forall>v. v \<notin> range tri \<longrightarrow>
      eval_unary Not v = Err type_mismatch \<and>
      eval_binary And v (tri b) = (if b = Some False then Ok (VBool False) else Err type_mismatch) \<and>
      eval_binary Or v (tri b) = (if b = Some True then Ok (VBool True) else Err type_mismatch))"
proof (intro conjI allI impI)
  fix v
  assume "v \<notin> range tri"
  then have v: "v \<noteq> tri None" "v \<noteq> tri (Some True)" "v \<noteq> tri (Some False)" by blast+
  then show "eval_unary Not v = Err type_mismatch"
    by (cases v) (auto simp: eval_unary_def)
  show "eval_binary And v (tri b) = (if b = Some False then Ok (VBool False) else Err type_mismatch)"
    using v by (cases b) (auto simp: eval_binary_def)
  show "eval_binary Or v (tri b) = (if b = Some True then Ok (VBool True) else Err type_mismatch)"
    using v by (cases b) (auto simp: eval_binary_def)
qed (cases a; cases b; auto simp: eval_binary_def eval_unary_def kleene_cases)+

theorem logic_is_kleene_witness: "eval_binary And (VInt 1) VNull = Err type_mismatch \<and> eval_unary Not (VInt 1) = Err type_mismatch"
proof -
  have "VInt 1 \<noteq> tri c" for c by (cases c) simp_all
  then have "VInt 1 \<notin> range tri" by blast
  with logic_is_kleene [of None None] show ?thesis by force
qed

lemma checked_i64_iff: "checked_i64 n = Some w \<longleftrightarrow> sint w = n"
proof -
  have "- (2 ^ 63) \<le> sint w" "sint w < 2 ^ 63" using sint_ge [of w] sint_lt [of w] by simp_all
  then show ?thesis
    by (auto simp: checked_i64_def sint_sbintrunc' signed_take_bit_int_eq_self)
qed

lemma checked_i64_None: "checked_i64 n = None \<longleftrightarrow> n < - (2 ^ 63) \<or> 2 ^ 63 \<le> n"
  by (auto simp: checked_i64_def)

lemma trunc_division:
  assumes "b \<noteq> 0"
  shows "a = b * trunc_div a b + trunc_rem a b \<and> \<bar>trunc_rem a b\<bar> < \<bar>b\<bar> \<and> (trunc_rem a b = 0 \<or> sgn (trunc_rem a b) = sgn a)"
proof -
  have m: "\<bar>a\<bar> = \<bar>b\<bar> * (\<bar>a\<bar> div \<bar>b\<bar>) + \<bar>a\<bar> mod \<bar>b\<bar>" "0 \<le> \<bar>a\<bar> mod \<bar>b\<bar>" "\<bar>a\<bar> mod \<bar>b\<bar> < \<bar>b\<bar>"
    using assms by (simp_all add: mult.commute)
  have "trunc_rem a b = sgn a * (\<bar>a\<bar> mod \<bar>b\<bar>)"
  proof -
    have "b * trunc_div a b = sgn a * (\<bar>b\<bar> * (\<bar>a\<bar> div \<bar>b\<bar>))"
      by (simp add: trunc_div_def abs_sgn [of b] mult.assoc mult.left_commute)
    moreover have "a = sgn a * \<bar>a\<bar>" by (simp add: sgn_mult_abs)
    ultimately show ?thesis unfolding trunc_rem_def using m(1) by (metis add_diff_cancel_left' distrib_left)
  qed
  then have r: "trunc_rem a b = sgn a * (\<bar>a\<bar> mod \<bar>b\<bar>)" .
  have "\<bar>trunc_rem a b\<bar> \<le> \<bar>a\<bar> mod \<bar>b\<bar>" unfolding r using m(2) by (simp add: abs_mult sgn_if)
  moreover have "trunc_rem a b = 0 \<or> sgn (trunc_rem a b) = sgn a"
    using m(2) unfolding r by (cases "\<bar>a\<bar> mod \<bar>b\<bar> = 0") (simp_all add: sgn_mult sgn_pos)
  ultimately show ?thesis using m(3) by (simp add: trunc_rem_def)
qed

text \<open>The mathematical value of an operator, where integer arithmetic has one.\<close>

fun exact :: "bin_op \<Rightarrow> int \<Rightarrow> int \<Rightarrow> int" where
  "exact Add a b = a + b"
| "exact Sub a b = a - b"
| "exact Mul a b = a * b"
| "exact Div a b = trunc_div a b"
| "exact Mod a b = trunc_rem a b"
| "exact _ a b = 0"

text \<open>
  C26: Integer arithmetic never wraps. An operator on two integers fails with a division by zero exactly when the
  divisor is zero, and with an overflow exactly when the exact result (for the remainder, the quotient) does not
  fit in 64 bits; in every other case it returns the integer that is the exact result. Division truncates
  towards zero and the remainder takes the sign of the dividend.
\<close>

theorem integer_arithmetic_exact:
  assumes "op \<in> {Add, Sub, Mul, Div, Mod}"
  shows "eval_binary op (VInt a) (VInt b) =
      (if op \<in> {Div, Mod} \<and> b = 0 then Err div_by_zero
       else if exact (if op = Mod then Div else op) (sint a) (sint b) \<in> {- (2 ^ 63)..<2 ^ 63} then Ok (VInt (word_of_int (exact op (sint a) (sint b))))
       else Err int_overflow) \<and>
    (\<not> (op \<in> {Div, Mod} \<and> b = 0) \<and> exact (if op = Mod then Div else op) (sint a) (sint b) \<in> {- (2 ^ 63)..<2 ^ 63} \<longrightarrow>
       (\<exists>n. eval_binary op (VInt a) (VInt b) = Ok (VInt n) \<and> sint n = exact op (sint a) (sint b))) \<and>
    (op \<in> {Div, Mod} \<and> b \<noteq> 0 \<longrightarrow>
       sint a = sint b * exact Div (sint a) (sint b) + exact Mod (sint a) (sint b) \<and>
       \<bar>exact Mod (sint a) (sint b)\<bar> < \<bar>sint b\<bar> \<and>
       (exact Mod (sint a) (sint b) = 0 \<or> sgn (exact Mod (sint a) (sint b)) = sgn (sint a)))"
proof -
  have div: "sint a = sint b * trunc_div (sint a) (sint b) + trunc_rem (sint a) (sint b) \<and>
      \<bar>trunc_rem (sint a) (sint b)\<bar> < \<bar>sint b\<bar> \<and> (trunc_rem (sint a) (sint b) = 0 \<or> sgn (trunc_rem (sint a) (sint b)) = sgn (sint a))" if "b \<noteq> 0"
    using that by (intro trunc_division) (metis signed_eq_0_iff)
  have checked: "checked_i64 n = (if n \<in> {- (2 ^ 63)..<2 ^ 63} then Some (word_of_int n) else None)" for n
    by (simp add: checked_i64_def)
  have rem: "trunc_rem (sint a) (sint b) \<in> {- (2 ^ 63)..<2 ^ 63}" if "b \<noteq> 0"
    using div [OF that] sint_ge [of b] sint_lt [of b] by auto
  have exact: "eval_binary op (VInt a) (VInt b) =
      (if op \<in> {Div, Mod} \<and> b = 0 then Err div_by_zero
       else if exact (if op = Mod then Div else op) (sint a) (sint b) \<in> {- (2 ^ 63)..<2 ^ 63} then Ok (VInt (word_of_int (exact op (sint a) (sint b))))
       else Err int_overflow)"
    using assms rem by (auto simp: eval_binary_def int_arith_def checked)
  have fits: "sint (word_of_int n :: i64) = n" if "n \<in> {- (2 ^ 63)..<2 ^ 63}" for n
    using checked_i64_iff [of n "word_of_int n"] that checked [of n] by simp
  have "exact op (sint a) (sint b) \<in> {- (2 ^ 63)..<2 ^ 63}"
    if "\<not> (op \<in> {Div, Mod} \<and> b = 0)" "exact (if op = Mod then Div else op) (sint a) (sint b) \<in> {- (2 ^ 63)..<2 ^ 63}"
    using that rem by (cases "op = Mod") simp_all
  then have "\<exists>n. eval_binary op (VInt a) (VInt b) = Ok (VInt n) \<and> sint n = exact op (sint a) (sint b)"
    if "\<not> (op \<in> {Div, Mod} \<and> b = 0)" "exact (if op = Mod then Div else op) (sint a) (sint b) \<in> {- (2 ^ 63)..<2 ^ 63}"
    using that exact fits by auto
  with exact div show ?thesis by auto
qed

theorem integer_arithmetic_exact_witness:
  "eval_binary Mod (VInt (- 7)) (VInt 0) = Err div_by_zero \<and> eval_binary Div (VInt (2 ^ 63)) (VInt (- 1)) = Err int_overflow \<and>
   eval_binary Mod (VInt (- 7)) (VInt 2) = Ok (VInt (- 1))"
proof -
  have s: "sint (2 ^ 63 :: i64) = - (2 ^ 63)" "sint (- 1 :: i64) = - 1" "sint (- 7 :: i64) = - 7" "sint (2 :: i64) = 2" by simp_all
  have "exact Div (sint (2 ^ 63 :: i64)) (sint (- 1 :: i64)) = 2 ^ 63" "exact Div (sint (- 7 :: i64)) (sint (2 :: i64)) = - 3"
    "exact Mod (sint (- 7 :: i64)) (sint (2 :: i64)) = - 1"
    unfolding s by (simp_all add: trunc_div_def trunc_rem_def)
  then show ?thesis
    using integer_arithmetic_exact [of Mod "- 7" 0] integer_arithmetic_exact [of Div "2 ^ 63" "- 1"] integer_arithmetic_exact [of Mod "- 7" 2] by simp
qed

subsection \<open>No panics\<close>

text \<open>Every scope of a context has rows as wide as its schema.\<close>

fun scope_wf :: "scope \<Rightarrow> bool" where
  "scope_wf (RowScope sc r) = (length r = length sc)"
| "scope_wf (GroupScope sc rows) = (\<forall>r \<in> set rows. length r = length sc)"

fun ctx_wf :: "eval_ctx \<Rightarrow> bool" where
  "ctx_wf (EvalCtx sc parent) = (scope_wf sc \<and> (case parent of None \<Rightarrow> True | Some p \<Rightarrow> ctx_wf p))"

lemma ctx_wf_group: "ctx_wf c \<Longrightarrow> ctx_scope c = GroupScope sc rows \<Longrightarrow> r \<in> set rows \<Longrightarrow> length r = length sc"
  by (cases c) auto

lemma errors_no_panic [simp]: "type_mismatch \<noteq> Panic" "div_by_zero \<noteq> Panic" "int_overflow \<noteq> Panic" "arity_error n g w \<noteq> Panic" "no_such_column q n \<noteq> Panic"
  by (simp_all add: type_mismatch_def div_by_zero_def int_overflow_def arity_error_def no_such_column_def)

lemma parse_date_no_panic [no_panic]: "safe (parse_date s)"
  by (auto simp: parse_date_def Let_def)

lemma cmp_values_no_panic [no_panic]: "safe (cmp_values l r)"
  by (cases "(l, r)" rule: cmp_values.cases) (auto intro!: no_panic)

lemma eval_binary_no_panic [no_panic]: "safe (eval_binary op l r)"
proof -
  have "safe (arith op l r)" if "op \<in> {Add, Sub, Mul, Div, Mod}"
    using that by (cases "(op, l, r)" rule: arith.cases) (auto simp: int_arith_def float_arith_def Let_def split: option.split)
  then show ?thesis
    by (auto simp: eval_binary_def compare_def intro!: no_panic split: bin_op.split)
qed

lemma eval_unary_no_panic [no_panic]: "safe (eval_unary op v)"
  by (auto simp: eval_unary_def split: un_op.split sql_value.split option.split)

lemma like_match_no_panic [no_panic]: "safe (like_match p s e)"
proof -
  have "safe (compile_like cs e)" for cs
    by (cases "compile_like cs e") (auto dest: compile_like_error)
  then show ?thesis by (auto simp: like_match_def intro!: no_panic)
qed

lemma args_no_panic [no_panic]: "safe (str_arg v)" "safe (int_arg v)"
  by (auto simp: str_arg_def int_arg_def split: sql_value.split)

lemma apply_function_no_panic [no_panic]: "safe (apply_function tx name vals)"
  by (auto simp: apply_function_def substring_def substring_len_def Let_def intro!: no_panic split: list.split option.split)

lemma aggregate_values_no_panic [no_panic]: "safe (aggregate_values func star n vals)"
  by (auto simp: aggregate_values_def sum_step_def avg_step_def best_step_def intro!: no_panic
      split: agg_func.split option.split sql_value.split)

lemma resolve_from_no_panic: "ctx_wf c \<Longrightarrow> safe (resolve_from c q n)"
proof (induction c q n rule: resolve_from.induct)
  case (1 sc parent q n)
  have "safe (scope_lookup sc q n)"
    using "1.prems"
    by (auto simp: scope_lookup_def idx_def safe_def [of "resolve a b c" for a b c] resolve_no_panic dest: resolve_in_range intro!: no_panic split: scope.split list.split)
  then show ?case using 1 by (auto split: result.split error.split option.splits)
qed

text \<open>
  C27: Evaluating an expression never panics. In a context whose rows are as wide as their schemas, as are those of
  all enclosing queries, every expression whatsoever, well typed or not, with any functions, aggregates and
  unmaterialized subqueries, evaluates to a value or to an error value: indexing stays in range and no
  \<open>unreachable\<close> arm is reached.
\<close>

theorem eval_never_panics:
  assumes "case ctx of None \<Rightarrow> True | Some c \<Rightarrow> ctx_wf c"
  shows "eval tx e ctx \<noteq> Err Panic"
proof -
  have "(case ctx of None \<Rightarrow> True | Some c \<Rightarrow> ctx_wf c) \<longrightarrow> safe (eval tx e ctx)"
    "(case ctx of None \<Rightarrow> True | Some c \<Rightarrow> ctx_wf c) \<longrightarrow> safe (eval_function tx name args ctx)"
    "(\<forall>r \<in> set rows. length r = length sc) \<longrightarrow> safe (eval_aggregate tx func arg dist sc rows)" for name args func arg dist sc rows
  proof (induction tx e ctx and tx name args ctx and tx func arg dist sc rows rule: eval_eval_function_eval_aggregate.induct)
    case (7 tx func arg dist ctx)
    then show ?case by (auto simp del: eval_aggregate.simps split: option.splits scope.splits dest: ctx_wf_group)
  next
    case (16 tx func arg dist sc rows)
    then show ?case by (auto simp: ctx_row_def intro!: no_panic split: option.split)
  qed (auto simp: resolve_column_def intro!: no_panic resolve_from_no_panic split: option.splits sql_value.split)
  with assms show ?thesis by (simp add: safe_def)
qed

theorem eval_never_panics_witness:
  "eval \<lparr> f64_to_string = \<lambda>_. [], f64_fixed1 = \<lambda>_. [], to_uppercase = id, to_lowercase = id \<rparr> (EBinary Add (EColumn [97]) (EStr [98])) (Some (ctx_row [plain_column None [97] TInt] [VInt 1])) \<noteq> Err Panic"
  by (rule eval_never_panics) (simp add: ctx_row_def)

subsection \<open>Name resolution through enclosing queries\<close>

definition scope_schema :: "scope \<Rightarrow> schema" where
  "scope_schema sc = (case sc of RowScope schema _ \<Rightarrow> schema | GroupScope schema _ \<Rightarrow> schema)"

text \<open>A pattern without a certain character is not found across it.\<close>

lemma contains_split:
  assumes "c \<notin> set pat" "pat \<noteq> []"
  shows "contains (xs @ c # ys) pat \<longleftrightarrow> contains xs pat \<or> contains ys pat"
proof (induction xs)
  case Nil
  then show ?case using assms by (cases pat) auto
next
  case (Cons x xs)
  have "take (length pat) (x # xs @ c # ys) = pat \<longleftrightarrow> take (length pat) (x # xs) = pat"
  proof (cases "length pat \<le> length (x # xs)")
    case True
    then have "take (length pat) ((x # xs) @ c # ys) = take (length pat) (x # xs)" by (simp only: take_append) simp
    then show ?thesis by simp
  next
    case False
    then have "c \<in> set (take (length pat) ((x # xs) @ c # ys))" using assms(2) by (simp add: take_Cons')
    then have "take (length pat) ((x # xs) @ c # ys) \<noteq> pat" using assms(1) by metis
    moreover have "take (length pat) (x # xs) \<noteq> pat" using False by (metis length_take min.cobounded1 nle_le)
    ultimately show ?thesis by simp
  qed
  with Cons show ?case by simp
qed

lemma resolve_error:
  "resolve sc q n = Err e \<Longrightarrow> e = no_such_column q n \<or> q = None \<and> e = Runtime (''ambiguous column: '' @ text_of n)"
  by (auto simp: resolve_def no_such_column_def split: option.splits list.splits)

lemma scope_lookup_missing: "resolve (scope_schema sc) q n = Err e \<Longrightarrow> scope_lookup sc q n = Err e"
  by (auto simp: scope_schema_def scope_lookup_def split: scope.splits)

text \<open>
  C28: A column is looked up in the innermost scope first and then outward, and an ambiguous column is an error at once;
  but the code recognises the ambiguity by searching the text of the error, which names the column. So a column that the
  inner scope does not have is searched for in the enclosing query exactly if neither its name nor its qualifier contains the
  word \<open>ambiguous\<close>; otherwise the search stops, and the column of the enclosing query is never found.
\<close>

theorem outer_column_search:
  assumes "resolve (scope_schema sc) q n = Err (no_such_column q n)"
  shows "resolve_from (EvalCtx sc (Some outer)) q n =
    (if contains (text_of n) ''ambiguous'' \<or> (\<exists>t. q = Some t \<and> contains (text_of t) ''ambiguous'')
     then Err (no_such_column q n) else resolve_from outer q n)"
proof -
  have "scope_lookup sc q n = Err (no_such_column q n)" using assms by (rule scope_lookup_missing)
  moreover have "contains (''no such column: '' @ rest) ''ambiguous'' = contains rest ''ambiguous''" for rest
    using contains_split [of "CHR '' ''" "''ambiguous''" "''no such column:''" rest] by simp
  moreover have "contains (text_of t @ ''.'' @ text_of n) ''ambiguous'' \<longleftrightarrow> contains (text_of t) ''ambiguous'' \<or> contains (text_of n) ''ambiguous''" for t
    using contains_split [of "CHR ''.''" "''ambiguous''" "text_of t" "text_of n"] by simp
  ultimately show ?thesis by (cases q) (auto simp: no_such_column_def)
qed

definition ambiguous_name :: rust_string where
  "ambiguous_name = bytes_of ''ambiguous''"

definition sample_outer :: eval_ctx where
  "sample_outer = ctx_row [plain_column None ambiguous_name TInt, plain_column (Some ambiguous_name) [97] TInt] [VInt 1, VInt 2]"

theorem outer_column_search_witness:
  "resolve_from sample_outer None ambiguous_name = Ok (VInt 1) \<and> resolve_from sample_outer (Some ambiguous_name) [97] = Ok (VInt 2) \<and>
   resolve_from (EvalCtx (RowScope [] []) (Some sample_outer)) None ambiguous_name = Err (no_such_column None ambiguous_name) \<and>
   resolve_from (EvalCtx (RowScope [] []) (Some sample_outer)) (Some ambiguous_name) [97] = Err (no_such_column (Some ambiguous_name) [97]) \<and>
   resolve_from (EvalCtx (RowScope [] []) (Some sample_outer)) None [97] = Ok (VInt 2)"
proof -
  have missing: "resolve (scope_schema (RowScope [] [])) q n = Err (no_such_column q n)" for q n
    by (simp add: scope_schema_def resolve_def matching_columns_def no_such_column_def split: option.split)
  have neq: "ambiguous_name \<noteq> [97]" by (simp add: ambiguous_name_def bytes_of_def)
  have found: "resolve_from sample_outer None ambiguous_name = Ok (VInt 1)" "resolve_from sample_outer (Some ambiguous_name) [97] = Ok (VInt 2)"
      "resolve_from sample_outer None [97] = Ok (VInt 2)"
    using neq by (simp_all add: sample_outer_def ctx_row_def scope_lookup_def resolve_def matching_columns_def plain_column_def idx_def)
  have "contains (text_of ambiguous_name) ''ambiguous''" "\<not> contains (text_of [97]) ''ambiguous''"
    by (simp add: ambiguous_name_def) (simp add: text_of_def)
  with outer_column_search [OF missing [of None ambiguous_name], of sample_outer] outer_column_search [OF missing [of "Some ambiguous_name" "[97]"], of sample_outer]
    outer_column_search [OF missing [of None "[97]"], of sample_outer] found
  show ?thesis by simp
qed

subsection \<open>Comparing integers with floats\<close>

lemma f64_cmp_of_int:
  assumes "\<bar>m\<bar> \<le> 2 ^ 53" "\<bar>n\<bar> \<le> 2 ^ 53"
  shows "f64_partial_cmp (f64_of_int m) (f64_of_int n) = Some (cmp_by id m n)"
proof -
  have "f64_units (f64_of_int m) = m * 2 ^ 1074" "f64_units (f64_of_int n) = n * 2 ^ 1074"
    "\<not> f64_is_nan (f64_of_int m)" "\<not> f64_is_nan (f64_of_int n)"
    using f64_of_int_exact [OF assms(1)] f64_of_int_exact [OF assms(2)] by blast+
  then show ?thesis by (simp add: f64_partial_cmp_def f64_key_units) (simp add: cmp_by_def)
qed

text \<open>
  Comparing an integer column with a float goes through the nearest double. As long as both numbers are integers of at
  most 53 bits the comparison is the comparison of the numbers.
\<close>

lemma mixed_comparison_exact:
  assumes "\<bar>sint a\<bar> \<le> 2 ^ 53" "\<bar>n\<bar> \<le> 2 ^ 53"
  shows "cmp_values (VInt a) (VFloat (f64_of_int n)) = Ok (Some (cmp_by id (sint a) n)) \<and>
    cmp_values (VFloat (f64_of_int n)) (VInt a) = Ok (Some (cmp_by id n (sint a)))"
  using f64_cmp_of_int [OF assms] f64_cmp_of_int [OF assms(2,1)] by simp

lemma mixed_comparison_exact_witness: "cmp_values (VInt 3) (VFloat (f64_of_int 4)) = Ok (Some Less)"
  using mixed_comparison_exact [of 3 4] by (simp add: cmp_by_def)

end
