(* ===== verification/Subquery.thy ===== *)
theory Subquery
  imports Eval
begin

section \<open>Subqueries in expressions\<close>

text \<open>
  \<open>src/src/exec/subquery.rs\<close>: before evaluation every subquery of an expression is run against the current context and
  replaced by what it evaluates to. Running a subquery is the work of the operators and of the database, so it is
  the argument \<open>run\<close> here, which gives the column names and the rows. The lemmas show that binding leaves no subquery behind
  and that \<open>IN\<close> and \<open>NOT IN\<close> have their three-valued meaning.
\<close>

type_synonym subquery_runner = "select_stmt \<Rightarrow> eval_ctx option \<Rightarrow> (rust_string list \<times> row list) result"

text \<open>The loop that turns the rows of an \<open>IN\<close> subquery into a disjunction; a row without a column is the panic of \<open>expect\<close>.\<close>

fun in_chain :: "expr \<Rightarrow> expr option \<Rightarrow> row list \<Rightarrow> expr option result" where
  "in_chain inner acc [] = Ok acc"
| "in_chain inner acc (r # rows) =
     (case r of
        [] \<Rightarrow> Err Panic
      | v # _ \<Rightarrow>
          let eq = EBinary Eq inner (EValue v)
          in in_chain inner (Some (case acc of None \<Rightarrow> eq | Some prev \<Rightarrow> EBinary Or prev eq)) rows)"

definition in_expr :: "expr \<Rightarrow> bool \<Rightarrow> row list \<Rightarrow> expr result" where
  "in_expr inner negated rows =
     bindR (in_chain inner None rows) (\<lambda>acc.
       let folded = (case acc of Some e \<Rightarrow> e | None \<Rightarrow> EValue (VBool False))
       in Ok (if negated then EUnary Not folded else folded))"

definition scalar_value :: "row list \<Rightarrow> expr result" where
  "scalar_value rows =
     (case rows of
        [] \<Rightarrow> Ok (EValue VNull)
      | [r] \<Rightarrow> (case r of [] \<Rightarrow> Err Panic | v # _ \<Rightarrow> Ok (EValue v))
      | _ \<Rightarrow> Err (Runtime ''scalar subquery returned more than one row''))"

function (sequential) bind_expr :: "subquery_runner \<Rightarrow> expr \<Rightarrow> eval_ctx option \<Rightarrow> expr result" where
  "bind_expr run (EInSubquery e sub negated) outer =
     bindR (bind_expr run e outer) (\<lambda>inner.
     bindR (run sub outer) (\<lambda>(cols, rows).
       if length cols \<noteq> 1 then Err (Runtime ''subquery in IN must return a single column'')
       else in_expr inner negated rows))"
| "bind_expr run (EExists sub) outer = bindR (run sub outer) (\<lambda>(_, rows). Ok (EValue (VBool (rows \<noteq> []))))"
| "bind_expr run (EScalarSubquery sub) outer =
     bindR (run sub outer) (\<lambda>(cols, rows).
       if length cols \<noteq> 1 then Err (Runtime ''scalar subquery must return a single column'') else scalar_value rows)"
| "bind_expr run (EUnary op e) outer = bindR (bind_expr run e outer) (\<lambda>e. Ok (EUnary op e))"
| "bind_expr run (EBinary op l r) outer =
     bindR (bind_expr run l outer) (\<lambda>l. bindR (bind_expr run r outer) (\<lambda>r. Ok (EBinary op l r)))"
| "bind_expr run (EIsNull e negated) outer = bindR (bind_expr run e outer) (\<lambda>e. Ok (EIsNull e negated))"
| "bind_expr run (ELike e p negated escape) outer =
     bindR (bind_expr run e outer) (\<lambda>e. bindR (bind_expr run p outer) (\<lambda>p. Ok (ELike e p negated escape)))"
| "bind_expr run (EFunction name args) outer = bindR (mapR (\<lambda>a. bind_expr run a outer) args) (\<lambda>args. Ok (EFunction name args))"
| "bind_expr run (EAggregate f (Some e) dist) outer = bindR (bind_expr run e outer) (\<lambda>e. Ok (EAggregate f (Some e) dist))"
| "bind_expr run other outer = Ok other"
  by pat_completeness auto
termination
  by (relation "measure (\<lambda>(_, e, _). size e)") (auto simp: less_Suc_eq dest: elem_less_size_list [where f = size])

definition eval_bound :: "text_ops \<Rightarrow> subquery_runner \<Rightarrow> expr \<Rightarrow> eval_ctx option \<Rightarrow> sql_value result" where
  "eval_bound tx run e ctx =
     (if \<not> expr_has_subquery e then eval tx e ctx
      else bindR (bind_expr run e ctx) (\<lambda>bound. eval tx bound ctx))"

definition eval_predicate_bound ::
  "text_ops \<Rightarrow> subquery_runner \<Rightarrow> expr \<Rightarrow> schema \<Rightarrow> row \<Rightarrow> eval_ctx option \<Rightarrow> bool result" where
  "eval_predicate_bound tx run e sc r outer =
     bindR (eval_bound tx run e (Some (EvalCtx (RowScope sc r) outer))) (\<lambda>v.
       case v of
         VBool b \<Rightarrow> Ok b
       | VNull \<Rightarrow> Ok False
       | _ \<Rightarrow> Err (Runtime ''where clause must evaluate to boolean''))"

subsection \<open>Nothing is left unbound\<close>

lemma in_chain_no_subquery:
  "in_chain inner acc rows = Ok e \<Longrightarrow> \<not> expr_has_subquery inner \<Longrightarrow> pred_option (\<lambda>a. \<not> expr_has_subquery a) acc \<Longrightarrow>
   pred_option (\<lambda>a. \<not> expr_has_subquery a) e"
proof (induction rows arbitrary: acc)
  case (Cons r rows)
  from Cons.prems(1) obtain v vs where r: "r = v # vs" by (cases r) auto
  let ?acc = "Some (case acc of None \<Rightarrow> EBinary Eq inner (EValue v) | Some prev \<Rightarrow> EBinary Or prev (EBinary Eq inner (EValue v)))"
  have "pred_option (\<lambda>a. \<not> expr_has_subquery a) ?acc" using Cons.prems(2,3) by (cases acc) auto
  moreover have "in_chain inner ?acc rows = Ok e" using Cons.prems(1) by (simp add: r Let_def)
  ultimately show ?case using Cons.IH Cons.prems(2) by blast
qed simp

lemma bind_expr_no_subquery: "bind_expr run e outer = Ok b \<Longrightarrow> \<not> expr_has_subquery b"
proof (induction run e outer arbitrary: b rule: bind_expr.induct)
  case (1 run e sub negated outer)
  from "1.prems" obtain inner cols rows acc where inner: "bind_expr run e outer = Ok inner"
    and acc: "in_chain inner None rows = Ok acc"
    and b: "b = (if negated then EUnary Not (case acc of Some e \<Rightarrow> e | None \<Rightarrow> EValue (VBool False)) else case acc of Some e \<Rightarrow> e | None \<Rightarrow> EValue (VBool False))"
    by (auto simp: bindR_Ok_iff in_expr_def Let_def split: if_split_asm)
  have "\<not> expr_has_subquery inner" using "1.IH" inner by blast
  with in_chain_no_subquery [OF acc] have "pred_option (\<lambda>a. \<not> expr_has_subquery a) acc" by simp
  then show ?case unfolding b by (cases acc) (auto simp: Let_def)
next
  case (8 run name args outer)
  then obtain bs where bs: "list_all2 (\<lambda>a b. bind_expr run a outer = Ok b) args bs" "b = EFunction name bs"
    by (auto simp: bindR_Ok_iff mapR_Ok_iff)
  have "\<not> expr_has_subquery c" if "c \<in> set bs" for c
    using that bs(1) "8.IH" by (force simp: list_all2_conv_all_nth in_set_conv_nth)
  with bs(2) show ?case by (simp add: list_ex_iff)
qed (auto simp: bindR_Ok_iff scalar_value_def split: if_splits list.splits)

subsection \<open>IN\<close>

text \<open>Membership in a list whose elements compare true, false or unknown.\<close>

definition tri_any :: "bool option list \<Rightarrow> bool option" where
  "tri_any ts = (if Some True \<in> set ts then Some True else if None \<in> set ts then None else Some False)"

lemma eval_or_chain:
  assumes "eval tx inner ctx = Ok v" "list_all2 (\<lambda>r t. \<exists>w. r = [w] \<and> compare Eq v w = Ok (tri t)) rows ts"
    and "eval tx a ctx = Ok (tri t0)"
  shows "\<exists>e. in_chain inner (Some a) rows = Ok (Some e) \<and> eval tx e ctx = Ok (tri (tri_any (t0 # ts)))"
  using assms(2,3)
proof (induction rows ts arbitrary: a t0 rule: list_all2_induct)
  case Nil
  then show ?case by (cases t0) (auto simp: tri_any_def)
next
  case (Cons r rows t ts)
  from Cons.hyps obtain w where w: "r = [w]" "compare Eq v w = Ok (tri t)" by blast
  let ?e = "EBinary Or a (EBinary Eq inner (EValue w))"
  have "eval tx ?e ctx = Ok (tri (kleene (\<or>) t0 t))"
    using assms(1) Cons.prems w(2) by (cases t0; cases t) (auto simp: eval_binary_def kleene_cases)
  from Cons.IH [OF this] obtain e where "in_chain inner (Some ?e) rows = Ok (Some e)"
    "eval tx e ctx = Ok (tri (tri_any (kleene (\<or>) t0 t # ts)))" by blast
  moreover have "tri_any (kleene (\<or>) t0 t # ts) = tri_any (t0 # t # ts)"
    by (cases t0; cases t) (auto simp: tri_any_def kleene_cases)
  ultimately show ?case using w(1) by simp
qed

text \<open>
  C30: \<open>x IN (SELECT ...)\<close> after materialization means membership in three-valued logic: true if some row's value equals
  \<open>x\<close>, unknown if none does but some comparison is unknown, false otherwise and for an empty result; \<open>NOT IN\<close> is its
  negation, true for an empty result. Binding an expression removes every subquery, so evaluation never meets one.
\<close>

theorem in_subquery_meaning:
  assumes "bind_expr run e outer = Ok inner" "run sub outer = Ok ([col], rows)" "eval tx inner outer = Ok v"
    and "list_all2 (\<lambda>r t. \<exists>w. r = [w] \<and> compare Eq v w = Ok (tri t)) rows ts"
  shows "eval_bound tx run (EInSubquery e sub False) outer = Ok (tri (tri_any ts)) \<and>
    eval_bound tx run (EInSubquery e sub True) outer = Ok (tri (map_option HOL.Not (tri_any ts))) \<and>
    (\<forall>b. bind_expr run (EInSubquery e sub False) outer = Ok b \<longrightarrow> \<not> expr_has_subquery b)"
proof -
  have "\<exists>acc. in_chain inner None rows = Ok acc \<and>
     eval tx (case acc of Some e \<Rightarrow> e | None \<Rightarrow> EValue (VBool False)) outer = Ok (tri (tri_any ts))"
  proof (cases rows)
    case Nil
    with assms(4) show ?thesis by (simp add: tri_any_def)
  next
    case (Cons r rs)
    with assms(4) obtain w t ts' where w: "r = [w]" "compare Eq v w = Ok (tri t)" "ts = t # ts'"
      "list_all2 (\<lambda>r t. \<exists>w. r = [w] \<and> compare Eq v w = Ok (tri t)) rs ts'"
      by (auto simp: list_all2_Cons1)
    have "eval tx (EBinary Eq inner (EValue w)) outer = Ok (tri t)"
      using assms(3) w(2) by (simp add: eval_binary_def)
    from eval_or_chain [OF assms(3) w(4) this] Cons w show ?thesis by auto
  qed
  then obtain acc where acc: "in_chain inner None rows = Ok acc"
    "eval tx (case acc of Some e \<Rightarrow> e | None \<Rightarrow> EValue (VBool False)) outer = Ok (tri (tri_any ts))" by blast
  have "eval_unary Not (tri t) = Ok (tri (map_option HOL.Not t))" for t
    by (cases t) (auto simp: eval_unary_def)
  with acc assms show ?thesis
    using bind_expr_no_subquery [of run "EInSubquery e sub False" outer]
    by (simp add: eval_bound_def in_expr_def Let_def)
qed

theorem in_subquery_meaning_witness:
  "eval_bound \<lparr> f64_to_string = \<lambda>_. [], f64_fixed1 = \<lambda>_. [], to_uppercase = id, to_lowercase = id \<rparr>
     (\<lambda>_ _. Ok ([[97]], [[VInt 1], [VNull]]))
     (EInSubquery (EInt 2) (Select False [] [] [] [] None [] None [] None []) True) None = Ok VNull"
proof -
  let ?tx = "\<lparr> f64_to_string = \<lambda>_. [], f64_fixed1 = \<lambda>_. [], to_uppercase = id, to_lowercase = id \<rparr>"
  let ?run = "\<lambda>_ _. Ok ([[97]], [[VInt 1], [VNull]])"
  have "eval ?tx (EInt 2) None = Ok (VInt 2)" by simp
  moreover have "list_all2 (\<lambda>r t. \<exists>w. r = [w] \<and> compare Eq (VInt 2) w = Ok (tri t)) [[VInt 1], [VNull]] [Some False, None]"
    by (simp add: compare_def cmp_by_def)
  ultimately have "eval_bound ?tx ?run (EInSubquery (EInt 2) (Select False [] [] [] [] None [] None [] None []) True) None =
     Ok (tri (map_option HOL.Not (tri_any [Some False, None])))"
    using in_subquery_meaning [of ?run "EInt 2" None "EInt 2" _ "[97]" "[[VInt 1], [VNull]]" ?tx "VInt 2"] by simp
  then show ?thesis by (simp add: tri_any_def)
qed

end
