(* ===== verification/Chunk.thy ===== *)
theory Chunk
  imports Catalog Codec
begin

section \<open>Columnar batches\<close>

text \<open>
  The chunks of \<open>src/src/exec/chunk.rs\<close>: up to \<open>CHUNK_ROWS\<close> rows in column-major form, one element type per column. Indexing
  out of range panics as in the source; a push that fails ends the whole operation, so the half-filled chunk it
  leaves behind is not part of the model. The debug form of a value inside an error text is left out.

  The lemmas show that a chunk is its rows: building from rows and reading them back, typed appending, appending an
  encoded row without materializing it, and gathering rows.
\<close>

definition CHUNK_ROWS :: nat where
  "CHUNK_ROWS = 1024"

datatype chunk_column =
    CBool "bool option list"
  | CInt "i64 option list"
  | CFloat "f64 option list"
  | CStr "rust_string option list"
  | CDate "i32 option list"

definition column_for_dtype :: "data_type \<Rightarrow> chunk_column" where
  "column_for_dtype t =
     (case t of TInt \<Rightarrow> CInt [] | TFloat \<Rightarrow> CFloat [] | TDate \<Rightarrow> CDate [] | TChar _ \<Rightarrow> CStr [] | TText \<Rightarrow> CStr [])"

definition column_for_value :: "sql_value \<Rightarrow> chunk_column" where
  "column_for_value v =
     (case v of VBool _ \<Rightarrow> CBool [] | VInt _ \<Rightarrow> CInt [] | VFloat _ \<Rightarrow> CFloat [] | VDate _ \<Rightarrow> CDate []
      | VStr _ \<Rightarrow> CStr [] | VNull \<Rightarrow> CStr [])"

fun column_len :: "chunk_column \<Rightarrow> nat" where
  "column_len (CBool v) = length v"
| "column_len (CInt v) = length v"
| "column_len (CFloat v) = length v"
| "column_len (CStr v) = length v"
| "column_len (CDate v) = length v"

definition mismatch :: "string \<Rightarrow> error" where
  "mismatch want = Runtime (''chunk column expects '' @ want)"

fun column_push :: "chunk_column \<Rightarrow> sql_value \<Rightarrow> chunk_column result" where
  "column_push (CBool v) (VBool b) = Ok (CBool (v @ [Some b]))"
| "column_push (CBool v) VNull = Ok (CBool (v @ [None]))"
| "column_push (CBool v) _ = Err (mismatch ''bool'')"
| "column_push (CInt v) (VInt n) = Ok (CInt (v @ [Some n]))"
| "column_push (CInt v) VNull = Ok (CInt (v @ [None]))"
| "column_push (CInt v) _ = Err (mismatch ''int'')"
| "column_push (CFloat v) (VFloat x) = Ok (CFloat (v @ [Some x]))"
| "column_push (CFloat v) VNull = Ok (CFloat (v @ [None]))"
| "column_push (CFloat v) _ = Err (mismatch ''float'')"
| "column_push (CStr v) (VStr s) = Ok (CStr (v @ [Some s]))"
| "column_push (CStr v) VNull = Ok (CStr (v @ [None]))"
| "column_push (CStr v) _ = Err (mismatch ''string'')"
| "column_push (CDate v) (VDate d) = Ok (CDate (v @ [Some d]))"
| "column_push (CDate v) VNull = Ok (CDate (v @ [None]))"
| "column_push (CDate v) _ = Err (mismatch ''date'')"

definition opt_value :: "('a \<Rightarrow> sql_value) \<Rightarrow> 'a option \<Rightarrow> sql_value" where
  "opt_value f x = (case x of Some y \<Rightarrow> f y | None \<Rightarrow> VNull)"

fun column_value :: "chunk_column \<Rightarrow> nat \<Rightarrow> sql_value result" where
  "column_value (CBool v) i = bindR (idx v i) (\<lambda>x. Ok (opt_value VBool x))"
| "column_value (CInt v) i = bindR (idx v i) (\<lambda>x. Ok (opt_value VInt x))"
| "column_value (CFloat v) i = bindR (idx v i) (\<lambda>x. Ok (opt_value VFloat x))"
| "column_value (CStr v) i = bindR (idx v i) (\<lambda>x. Ok (opt_value VStr x))"
| "column_value (CDate v) i = bindR (idx v i) (\<lambda>x. Ok (opt_value VDate x))"

fun column_is_null :: "chunk_column \<Rightarrow> nat \<Rightarrow> bool result" where
  "column_is_null (CBool v) i = bindR (idx v i) (\<lambda>x. Ok (x = None))"
| "column_is_null (CInt v) i = bindR (idx v i) (\<lambda>x. Ok (x = None))"
| "column_is_null (CFloat v) i = bindR (idx v i) (\<lambda>x. Ok (x = None))"
| "column_is_null (CStr v) i = bindR (idx v i) (\<lambda>x. Ok (x = None))"
| "column_is_null (CDate v) i = bindR (idx v i) (\<lambda>x. Ok (x = None))"

fun column_take :: "chunk_column \<Rightarrow> nat list \<Rightarrow> chunk_column result" where
  "column_take (CBool v) rows = bindR (mapR (idx v) rows) (\<lambda>w. Ok (CBool w))"
| "column_take (CInt v) rows = bindR (mapR (idx v) rows) (\<lambda>w. Ok (CInt w))"
| "column_take (CFloat v) rows = bindR (mapR (idx v) rows) (\<lambda>w. Ok (CFloat w))"
| "column_take (CStr v) rows = bindR (mapR (idx v) rows) (\<lambda>w. Ok (CStr w))"
| "column_take (CDate v) rows = bindR (mapR (idx v) rows) (\<lambda>w. Ok (CDate w))"

definition column_from_values :: "sql_value list \<Rightarrow> chunk_column result" where
  "column_from_values vals =
     foldR column_push
       (case List.find (\<lambda>v. v \<noteq> VNull) vals of Some v \<Rightarrow> column_for_value v | None \<Rightarrow> CStr []) vals"

record chunk =
  ck_columns :: "chunk_column list"
  ck_len :: nat

definition chunk_new :: chunk where
  "chunk_new = \<lparr> ck_columns = [], ck_len = 0 \<rparr>"

definition chunk_with_schema :: "schema \<Rightarrow> chunk" where
  "chunk_with_schema sc = \<lparr> ck_columns = map (\<lambda>c. column_for_dtype (col_dtype c)) sc, ck_len = 0 \<rparr>"

definition chunk_column_at :: "chunk \<Rightarrow> nat \<Rightarrow> chunk_column result" where
  "chunk_column_at ck i = idx (ck_columns ck) i"

text \<open>\<open>zip\<close> over the columns and the row, pushing each value.\<close>

fun push_all :: "chunk_column list \<Rightarrow> sql_value list \<Rightarrow> chunk_column list result" where
  "push_all (c # cs) (v # vs) = bindR (column_push c v) (\<lambda>c. bindR (push_all cs vs) (\<lambda>cs. Ok (c # cs)))"
| "push_all cs _ = Ok cs"

definition push_row :: "chunk \<Rightarrow> sql_value list \<Rightarrow> chunk result" where
  "push_row ck r =
     (if length r \<noteq> length (ck_columns ck) then Err (Runtime ''chunk row width differs from columns'')
      else bindR (push_all (ck_columns ck) r) (\<lambda>cs. Ok (ck\<lparr> ck_columns := cs, ck_len := ck_len ck + 1 \<rparr>)))"

definition push_sink :: "nat \<Rightarrow> sql_value \<Rightarrow> chunk_column list \<Rightarrow> chunk_column list result" where
  "push_sink i v cs =
     (if i < length cs then bindR (column_push (cs ! i) v) (\<lambda>c. Ok (cs[i := c]))
      else Err (Runtime ''row has more values than columns''))"

definition push_encoded_row :: "chunk \<Rightarrow> byte list \<Rightarrow> lob_store \<Rightarrow> bool list option \<Rightarrow> chunk result" where
  "push_encoded_row ck data lobs keep =
     bindR (decode_row_each data (Some lobs) keep push_sink (ck_columns ck)) (\<lambda>(count, cs).
       if count \<noteq> length (ck_columns ck) then Err (Runtime ''row width differs from columns'')
       else Ok (ck\<lparr> ck_columns := cs, ck_len := ck_len ck + 1 \<rparr>))"

definition chunk_row :: "chunk \<Rightarrow> nat \<Rightarrow> sql_value list result" where
  "chunk_row ck i = mapR (\<lambda>c. column_value c i) (ck_columns ck)"

definition chunk_from_columns :: "chunk_column list \<Rightarrow> chunk" where
  "chunk_from_columns cs = \<lparr> ck_columns = cs, ck_len = (case cs of [] \<Rightarrow> 0 | c # _ \<Rightarrow> column_len c) \<rparr>"

definition chunk_from_rows :: "sql_value list list \<Rightarrow> chunk result" where
  "chunk_from_rows rows =
     (case rows of
        [] \<Rightarrow> Ok chunk_new
      | r # _ \<Rightarrow>
          bindR (mapR (\<lambda>i. bindR (mapR (\<lambda>r. idx r i) rows) column_from_values) [0..<length r]) (\<lambda>cs.
            Ok \<lparr> ck_columns = cs, ck_len = length rows \<rparr>))"

definition chunk_from_row :: "sql_value list \<Rightarrow> chunk result" where
  "chunk_from_row r = chunk_from_rows [r]"

definition chunk_to_rows :: "chunk \<Rightarrow> sql_value list list result" where
  "chunk_to_rows ck = mapR (chunk_row ck) [0..<ck_len ck]"

definition chunk_take :: "chunk \<Rightarrow> nat list \<Rightarrow> chunk result" where
  "chunk_take ck rows =
     bindR (mapR (\<lambda>c. column_take c rows) (ck_columns ck)) (\<lambda>cs. Ok \<lparr> ck_columns = cs, ck_len = length rows \<rparr>)"

subsection \<open>A column is a list of values\<close>

fun column_values :: "chunk_column \<Rightarrow> sql_value list" where
  "column_values (CBool v) = map (opt_value VBool) v"
| "column_values (CInt v) = map (opt_value VInt) v"
| "column_values (CFloat v) = map (opt_value VFloat) v"
| "column_values (CStr v) = map (opt_value VStr) v"
| "column_values (CDate v) = map (opt_value VDate) v"

lemma column_value_nth: "column_value c i = idx (column_values c) i"
  by (cases c) (auto simp: idx_def)

lemma column_len_values: "column_len c = length (column_values c)"
  by (cases c) auto

lemma column_push_values: "column_push c v = Ok c' \<Longrightarrow> column_values c' = column_values c @ [v]"
  by (cases "(c, v)" rule: column_push.cases) (auto simp: opt_value_def)

lemma foldR_push_values: "foldR column_push c vs = Ok c' \<Longrightarrow> column_values c' = column_values c @ vs"
proof (induction vs arbitrary: c)
  case (Cons v vs)
  then show ?case by (auto simp: bindR_Ok_iff dest!: column_push_values)
qed simp

lemma column_for_empty [simp]: "column_values (column_for_dtype t) = []" "column_values (column_for_value v) = []"
  by (auto simp: column_for_dtype_def column_for_value_def split: data_type.split sql_value.split)

lemma column_from_values_values: "column_from_values vs = Ok c \<Longrightarrow> column_values c = vs"
  by (auto simp: column_from_values_def dest: foldR_push_values split: option.splits)

lemma mapR_idx_map: "mapR (idx (map f v)) rows = bindR (mapR (idx v) rows) (\<lambda>w. Ok (map f w))"
proof (induction rows)
  case (Cons r rows)
  then show ?case by (cases "mapR (idx v) rows") (auto simp: idx_def)
qed simp

lemma column_take_values: "column_take c rows = Ok c' \<Longrightarrow> mapR (idx (column_values c)) rows = Ok (column_values c')"
  by (cases c) (auto simp: bindR_Ok_iff mapR_idx_map)

subsection \<open>A chunk is its rows\<close>

definition chunk_ok :: "chunk \<Rightarrow> bool" where
  "chunk_ok ck \<longleftrightarrow> (\<forall>c \<in> set (ck_columns ck). length (column_values c) = ck_len ck)"

definition chunk_rows :: "chunk \<Rightarrow> sql_value list list" where
  "chunk_rows ck = map (\<lambda>i. map (\<lambda>c. column_values c ! i) (ck_columns ck)) [0..<ck_len ck]"

lemma chunk_row_ok: "chunk_ok ck \<Longrightarrow> i < ck_len ck \<Longrightarrow> chunk_row ck i = Ok (map (\<lambda>c. column_values c ! i) (ck_columns ck))"
  by (auto simp: chunk_row_def chunk_ok_def column_value_nth idx_def mapR_Ok_iff list_all2_map2 list_all2_same)

lemma chunk_to_rows_ok: "chunk_ok ck \<Longrightarrow> chunk_to_rows ck = Ok (chunk_rows ck)"
  by (auto simp: chunk_to_rows_def chunk_rows_def mapR_Ok_iff list_all2_map2 list_all2_same chunk_row_ok)

lemma push_all_values:
  "push_all cs vs = Ok cs' \<Longrightarrow> length vs = length cs \<Longrightarrow> list_all2 (\<lambda>c' (c, v). column_values c' = column_values c @ [v]) cs' (zip cs vs)"
  by (induction cs vs arbitrary: cs' rule: push_all.induct) (auto simp: bindR_Ok_iff dest: column_push_values)

lemma push_row_rows:
  assumes "chunk_ok ck" "push_row ck r = Ok ck'"
  shows "chunk_ok ck' \<and> chunk_rows ck' = chunk_rows ck @ [r] \<and> length (ck_columns ck') = length (ck_columns ck)"
proof -
  let ?n = "ck_len ck"
  from assms(2) obtain cs where len: "length r = length (ck_columns ck)" and cs: "push_all (ck_columns ck) r = Ok cs"
    and ck': "ck' = ck\<lparr> ck_columns := cs, ck_len := ?n + 1 \<rparr>"
    by (auto simp: push_row_def bindR_Ok_iff split: if_splits)
  have vals: "list_all2 (\<lambda>c' (c, v). column_values c' = column_values c @ [v]) cs (zip (ck_columns ck) r)"
    using push_all_values [OF cs len] .
  have lc: "length cs = length (ck_columns ck)" using list_all2_lengthD [OF vals] len by simp
  have v: "column_values (cs ! j) = column_values (ck_columns ck ! j) @ [r ! j]" if "j < length cs" for j
    using list_all2_nthD [OF vals that] that len lc by simp
  have old: "length (column_values (ck_columns ck ! j)) = ?n" if "j < length cs" for j
    using that assms(1) lc by (simp add: chunk_ok_def)
  have "chunk_ok ck'" using v old by (auto simp: chunk_ok_def ck' in_set_conv_nth)
  moreover have "map (\<lambda>c. column_values c ! i) cs = map (\<lambda>c. column_values c ! i) (ck_columns ck)" if "i < ?n" for i
    using that v old lc by (intro nth_equalityI) (auto simp: nth_append)
  moreover have "map (\<lambda>c. column_values c ! ?n) cs = r"
    using v old len lc by (intro nth_equalityI) (auto simp: nth_append)
  ultimately show ?thesis using lc by (auto simp: ck' chunk_rows_def)
qed

text \<open>Pushing the values of a row one by one through the sink is pushing the row.\<close>

lemma push_sink_rest:
  assumes "length vs + length pre = length cs"
  shows "foldR (\<lambda>cs (i, v). push_sink i v cs) (pre @ drop (length pre) cs) (zip [length pre..<length cs] vs) =
    bindR (push_all (drop (length pre) cs) vs) (\<lambda>new. Ok (pre @ new))"
  using assms
proof (induction vs arbitrary: pre)
  case (Cons v vs)
  let ?d = "length pre"
  have d: "?d < length cs" using Cons.prems by simp
  then have split: "drop ?d cs = cs ! ?d # drop (Suc ?d) cs" by (rule Cons_nth_drop_Suc [symmetric])
  have z: "zip [?d..<length cs] (v # vs) = (?d, v) # zip [Suc ?d..<length cs] vs"
    using d by (simp add: upt_conv_Cons)
  show ?case
  proof (cases "column_push (cs ! ?d) v")
    case (Ok c)
    then have "push_sink ?d v (pre @ drop ?d cs) = Ok ((pre @ [c]) @ drop (length (pre @ [c])) cs)"
      using d by (simp add: push_sink_def split nth_append list_update_append)
    moreover have "length vs + length (pre @ [c]) = length cs" using Cons.prems by simp
    note Cons.IH [OF this]
    ultimately show ?thesis using Ok by (simp add: z split)
  next
    case (Err e)
    then show ?thesis using d by (auto simp: z split push_sink_def nth_append)
  qed
qed simp

lemma decode_each_fold:
  "decode_values data lobs keep pos i n = Ok (vs, p) \<Longrightarrow>
   decode_each data lobs keep sink pos i n s = foldR (\<lambda>s (j, v). sink j v s) s (zip [i..<i + n] vs)"
proof (induction n arbitrary: pos i vs s)
  case (Suc n)
  from Suc.prems obtain v q vs' where v: "decode_value data pos i lobs keep = Ok (v, q)"
    "decode_values data lobs keep q (Suc i) n = Ok (vs', p)" "vs = v # vs'"
    by (auto simp: bindR_Ok_iff)
  have "zip [i..<i + Suc n] vs = (i, v) # zip [Suc i..<Suc i + n] vs'"
    using v(3) by (simp add: upt_conv_Cons)
  with v Suc.IH [OF v(2)] show ?case by (simp add: bindR_case split: result.split)
qed simp

lemma push_encoded_row_eq:
  assumes "decode_row_with data (Some lobs) keep = Ok (r, p)" "length r = length (ck_columns ck)"
  shows "push_encoded_row ck data lobs keep = push_row ck r"
proof -
  from assms(1) obtain hb q where h: "codec_take data 0 2 = Ok (hb, q)" "decode_values data (Some lobs) keep q 0 (le_dec hb) = Ok (r, p)"
    by (auto simp: decode_row_with_def bindR_Ok_iff)
  have n: "le_dec hb = length (ck_columns ck)" using decode_values_length [OF h(2)] assms(2) by simp
  have "decode_each data (Some lobs) keep push_sink q 0 (le_dec hb) (ck_columns ck) = push_all (ck_columns ck) r"
    using decode_each_fold [OF h(2), of push_sink "ck_columns ck"] push_sink_rest [of r "[]" "ck_columns ck"] assms(2) n by simp
  then show ?thesis using h(1) assms(2) n
    by (simp add: push_encoded_row_def push_row_def decode_row_each_def bindR_case split: result.split)
qed

lemma chunk_from_rows_rows:
  assumes "chunk_from_rows rows = Ok ck" "\<forall>r \<in> set rows. length r = w"
  shows "chunk_ok ck \<and> chunk_rows ck = rows"
proof (cases rows)
  case Nil
  with assms show ?thesis by (auto simp: chunk_from_rows_def chunk_new_def chunk_ok_def chunk_rows_def)
next
  case (Cons r rs)
  with assms(2) have w: "length r = w" by simp
  from assms(1) Cons w obtain cs where cs: "mapR (\<lambda>i. bindR (mapR (\<lambda>r. idx r i) rows) column_from_values) [0..<w] = Ok cs"
    and ck: "ck = \<lparr> ck_columns = cs, ck_len = length rows \<rparr>"
    by (auto simp: chunk_from_rows_def bindR_Ok_iff)
  have l: "length cs = w" using cs by (auto simp: mapR_Ok_iff dest: list_all2_lengthD)
  have vals: "column_values (cs ! i) = map (\<lambda>r. r ! i) rows" if "i < w" for i
  proof -
    have "bindR (mapR (\<lambda>r. idx r i) rows) column_from_values = Ok (cs ! i)"
      using cs that by (auto simp: mapR_Ok_iff dest: list_all2_nthD)
    moreover have "mapR (\<lambda>r. idx r i) rows = Ok (map (\<lambda>r. r ! i) rows)"
      using that assms(2) by (auto simp: mapR_Ok_iff list_all2_map2 list_all2_same idx_def)
    ultimately show ?thesis by (auto dest: column_from_values_values)
  qed
  have "chunk_ok ck" using vals l by (auto simp: chunk_ok_def ck in_set_conv_nth)
  moreover have "chunk_rows ck = rows"
    using vals l assms(2) by (auto simp: chunk_rows_def ck intro!: nth_equalityI)
  ultimately show ?thesis by blast
qed

lemma chunk_take_rows:
  assumes "chunk_ok ck" "chunk_take ck rows = Ok ck'" "\<forall>i \<in> set rows. i < ck_len ck"
  shows "chunk_ok ck' \<and> chunk_rows ck' = map (\<lambda>i. chunk_rows ck ! i) rows"
proof -
  from assms(2) obtain cs where cs: "list_all2 (\<lambda>c c'. column_take c rows = Ok c') (ck_columns ck) cs"
    and ck': "ck' = \<lparr> ck_columns = cs, ck_len = length rows \<rparr>"
    by (auto simp: chunk_take_def bindR_Ok_iff mapR_Ok_iff)
  have l: "length cs = length (ck_columns ck)" using list_all2_lengthD [OF cs] by simp
  have vals: "column_values (cs ! j) = map (\<lambda>i. column_values (ck_columns ck ! j) ! i) rows" if "j < length cs" for j
  proof -
    have "mapR (idx (column_values (ck_columns ck ! j))) rows = Ok (column_values (cs ! j))"
      using list_all2_nthD [OF cs, of j] that l by (simp add: column_take_values)
    moreover have "mapR (idx (column_values (ck_columns ck ! j))) rows = Ok (map (\<lambda>i. column_values (ck_columns ck ! j) ! i) rows)"
      using assms(1,3) that l by (auto simp: mapR_Ok_iff list_all2_map2 list_all2_same idx_def chunk_ok_def)
    ultimately show ?thesis by simp
  qed
  have "chunk_ok ck'" using vals by (auto simp: chunk_ok_def ck' in_set_conv_nth)
  moreover have "chunk_rows ck' = map (\<lambda>i. chunk_rows ck ! i) rows"
  proof (rule nth_equalityI)
    fix i
    assume "i < length (chunk_rows ck')"
    then have i: "i < length rows" "rows ! i < ck_len ck" using assms(3) by (auto simp: chunk_rows_def ck')
    then show "chunk_rows ck' ! i = map (\<lambda>i. chunk_rows ck ! i) rows ! i"
      using vals l by (auto simp: chunk_rows_def ck' intro!: nth_equalityI)
  qed (simp add: chunk_rows_def ck')
  ultimately show ?thesis by blast
qed

lemma chunk_take_total:
  assumes "chunk_ok ck" "\<forall>i \<in> set rows. i < ck_len ck"
  shows "\<exists>ck'. chunk_take ck rows = Ok ck'"
proof -
  have "\<exists>c'. column_take c rows = Ok c'" if "c \<in> set (ck_columns ck)" for c
  proof -
    have "\<forall>i \<in> set rows. i < length (column_values c)" using assms that by (simp add: chunk_ok_def)
    then show ?thesis by (cases c) (auto simp: bindR_Ok_iff mapR_Ok_iff idx_def list_all2_conv_all_nth intro!: exI [of _ "map ((!) v) rows" for v])
  qed
  then obtain f where "\<forall>c \<in> set (ck_columns ck). column_take c rows = Ok (f c)" by metis
  then have "mapR (\<lambda>c. column_take c rows) (ck_columns ck) = Ok (map f (ck_columns ck))"
    by (auto simp: mapR_Ok_iff list_all2_map2 list_all2_same)
  then show ?thesis by (simp add: chunk_take_def)
qed

text \<open>Values of a declared type.\<close>

fun fits :: "data_type \<Rightarrow> sql_value \<Rightarrow> bool" where
  "fits _ VNull = True"
| "fits TInt (VInt _) = True"
| "fits TFloat (VFloat _) = True"
| "fits (TChar _) (VStr _) = True"
| "fits TText (VStr _) = True"
| "fits TDate (VDate _) = True"
| "fits _ _ = False"

fun column_typed :: "data_type \<Rightarrow> chunk_column \<Rightarrow> bool" where
  "column_typed TInt (CInt _) = True"
| "column_typed TFloat (CFloat _) = True"
| "column_typed (TChar _) (CStr _) = True"
| "column_typed TText (CStr _) = True"
| "column_typed TDate (CDate _) = True"
| "column_typed _ _ = False"

lemma column_push_typed: "column_typed t c \<Longrightarrow> fits t v \<Longrightarrow> \<exists>c'. column_push c v = Ok c' \<and> column_typed t c'"
  by (cases "(t, c)" rule: column_typed.cases; cases v) auto

lemma push_all_typed:
  "list_all2 column_typed ts cs \<Longrightarrow> list_all2 fits ts vs \<Longrightarrow> \<exists>cs'. push_all cs vs = Ok cs' \<and> list_all2 column_typed ts cs'"
proof (induction ts arbitrary: cs vs)
  case (Cons t ts)
  then obtain c cs1 v vs1 where "cs = c # cs1" "vs = v # vs1" "column_typed t c" "fits t v"
    "list_all2 column_typed ts cs1" "list_all2 fits ts vs1" by (auto simp: list_all2_Cons1)
  moreover from this obtain c' where "column_push c v = Ok c'" "column_typed t c'" using column_push_typed by blast
  moreover obtain cs' where "push_all cs1 vs1 = Ok cs'" "list_all2 column_typed ts cs'"
    using Cons.IH calculation(5,6) by blast
  ultimately show ?case by simp
qed auto

lemma push_rows_typed:
  assumes "chunk_ok ck" "list_all2 column_typed ts (ck_columns ck)" "\<forall>r \<in> set rows. list_all2 fits ts r"
  shows "\<exists>ck'. foldR push_row ck rows = Ok ck' \<and> chunk_ok ck' \<and> chunk_rows ck' = chunk_rows ck @ rows"
  using assms
proof (induction rows arbitrary: ck)
  case (Cons r rows)
  from Cons.prems obtain cs where cs: "push_all (ck_columns ck) r = Ok cs" "list_all2 column_typed ts cs"
    using push_all_typed [of ts "ck_columns ck" r] by auto
  have "length r = length (ck_columns ck)" using Cons.prems(2,3) by (auto dest!: list_all2_lengthD)
  with cs have push: "push_row ck r = Ok (ck\<lparr> ck_columns := cs, ck_len := ck_len ck + 1 \<rparr>)" (is "_ = Ok ?ck")
    by (simp add: push_row_def)
  from push_row_rows [OF Cons.prems(1) push] have "chunk_ok ?ck" "chunk_rows ?ck = chunk_rows ck @ [r]" by auto
  moreover have "\<exists>ck'. foldR push_row ?ck rows = Ok ck' \<and> chunk_ok ck' \<and> chunk_rows ck' = chunk_rows ?ck @ rows"
    using calculation(1) cs(2) Cons.prems(3) by (intro Cons.IH) auto
  ultimately show ?case using push by auto
qed auto

lemma chunk_with_schema_ok:
  "chunk_ok (chunk_with_schema sc)" "chunk_rows (chunk_with_schema sc) = []"
  "list_all2 column_typed (map col_dtype sc) (ck_columns (chunk_with_schema sc))"
proof -
  have "column_typed t (column_for_dtype t)" for t by (cases t) (auto simp: column_for_dtype_def)
  then show "list_all2 column_typed (map col_dtype sc) (ck_columns (chunk_with_schema sc))"
    by (simp add: chunk_with_schema_def list_all2_map1 list_all2_map2 list_all2_same)
qed (auto simp: chunk_with_schema_def chunk_ok_def chunk_rows_def)

text \<open>
  C29: A chunk is its rows. Appending rows of the declared column types to a chunk of a schema always succeeds and reading
  the rows back gives them; appending an encoded row without materializing it is appending the row it decodes to;
  a chunk built from rows by inferring column types reads back as those rows; and gathering rows by index
  succeeds for indices in range and gives exactly those rows in the requested order.
\<close>

theorem chunk_is_rows:
  "((\<forall>r \<in> set rows. list_all2 fits (map col_dtype sc) r) \<longrightarrow>
      (\<exists>ck. foldR push_row (chunk_with_schema sc) rows = Ok ck \<and> chunk_to_rows ck = Ok rows)) \<and>
   (decode_row_with data (Some lobs) keep = Ok (r, p) \<and> length r = length (ck_columns ck0) \<longrightarrow>
      push_encoded_row ck0 data lobs keep = push_row ck0 r) \<and>
   ((\<forall>r \<in> set rows. length r = w) \<and> chunk_from_rows rows = Ok ck \<longrightarrow>
      chunk_to_rows ck = Ok rows \<and>
      ((\<forall>i \<in> set picks. i < length rows) \<longrightarrow>
         (\<exists>ck'. chunk_take ck picks = Ok ck' \<and> chunk_to_rows ck' = Ok (map (\<lambda>i. rows ! i) picks))))"
proof (intro conjI impI)
  assume "\<forall>r \<in> set rows. list_all2 fits (map col_dtype sc) r"
  from push_rows_typed [OF chunk_with_schema_ok(1,3) this]
  show "\<exists>ck. foldR push_row (chunk_with_schema sc) rows = Ok ck \<and> chunk_to_rows ck = Ok rows"
    by (auto simp: chunk_with_schema_ok(2) chunk_to_rows_ok)
next
  assume "decode_row_with data (Some lobs) keep = Ok (r, p) \<and> length r = length (ck_columns ck0)"
  then show "push_encoded_row ck0 data lobs keep = push_row ck0 r" by (intro push_encoded_row_eq) auto
next
  assume "(\<forall>r \<in> set rows. length r = w) \<and> chunk_from_rows rows = Ok ck"
  then have ck: "chunk_ok ck" "chunk_rows ck = rows" using chunk_from_rows_rows [of rows ck w] by auto
  then show "chunk_to_rows ck = Ok rows" by (simp add: chunk_to_rows_ok)
  assume picks: "\<forall>i \<in> set picks. i < length rows"
  have "length rows = ck_len ck" using ck(2) by (auto simp: chunk_rows_def)
  with picks have p: "\<forall>i \<in> set picks. i < ck_len ck" by simp
  from chunk_take_total [OF ck(1) p] obtain ck' where t: "chunk_take ck picks = Ok ck'" by blast
  from chunk_take_rows [OF ck(1) t p] have "chunk_to_rows ck' = Ok (map (\<lambda>i. rows ! i) picks)"
    by (simp add: chunk_to_rows_ok ck(2))
  with t show "\<exists>ck'. chunk_take ck picks = Ok ck' \<and> chunk_to_rows ck' = Ok (map (\<lambda>i. rows ! i) picks)" by blast
qed

theorem chunk_is_rows_witness:
  "\<exists>ck. foldR push_row (chunk_with_schema [plain_column None [97] TInt]) [[VInt 7], [VNull]] = Ok ck \<and> chunk_to_rows ck = Ok [[VInt 7], [VNull]]"
  by (rule chunk_is_rows [THEN conjunct1, THEN mp]) (simp add: plain_column_def)

end
