(* ===== verification/Aggregate.thy ===== *)
theory Aggregate
  imports Subquery Chunk
begin

section \<open>Grouping, ordering and aggregation\<close>

text \<open>
  \<open>src/src/exec/aggregate.rs\<close>: the reference path, which groups materialized rows and evaluates the projections per group
  (\<open>grouped_select_rows\<close>), and the columnar paths for the common shapes, which fold values into accumulators as they stream
  from storage. The child operator of a columnar path is an argument that says what each of its access paths delivers:
  a source is the items delivered in order and the error that ended it, if any. \<open>sort_by\<close> is a stable sort.

  The lemmas show that the columnar kernels, the fused scan and the projected scan all compute what the row-wise
  evaluator computes, error cases included, and that sorting and deduplication do what their specification says.
\<close>

subsection \<open>Deduplication, limits and ordering\<close>

text \<open>Equality of rows is the derived equality of vectors of values.\<close>

definition row_eq :: "row \<Rightarrow> row \<Rightarrow> bool" where
  "row_eq a b = list_all2 value_eq a b"

definition dedup_rows :: "row list \<Rightarrow> row list" where
  "dedup_rows rows = retain_distinct row_eq [] rows"

definition limit_value :: "text_ops \<Rightarrow> string \<Rightarrow> expr \<Rightarrow> nat result" where
  "limit_value tx what e =
     bindR (eval_const tx e) (\<lambda>v. case v of
         VInt n \<Rightarrow> if 0 \<le> sint n then Ok (nat (sint n)) else Err (Runtime what)
       | _ \<Rightarrow> Err (Runtime what))"

definition apply_limit :: "text_ops \<Rightarrow> row list \<Rightarrow> limit_clause option \<Rightarrow> row list result" where
  "apply_limit tx rows limit =
     (case limit of
        None \<Rightarrow> Ok rows
      | Some l \<Rightarrow>
          bindR (limit_value tx ''limit count must be a non-negative integer'' (limit_count l)) (\<lambda>count.
          bindR (case limit_offset l of Some e \<Rightarrow> limit_value tx ''limit offset must be a non-negative integer'' e | None \<Rightarrow> Ok 0) (\<lambda>offset.
            Ok (take count (drop offset rows)))))"

definition select_aliases :: "select_item list \<Rightarrow> (rust_string \<times> expr) list" where
  "select_aliases items = List.map_filter (\<lambda>it. case it of SAliased e alias \<Rightarrow> Some (alias, e) | _ \<Rightarrow> None) items"

definition resolve_order_expr :: "expr \<Rightarrow> (rust_string \<times> expr) list \<Rightarrow> expr" where
  "resolve_order_expr e aliases =
     (case e of EColumn c \<Rightarrow> (case map_of aliases c of Some a \<Rightarrow> a | None \<Rightarrow> e) | _ \<Rightarrow> e)"

definition eval_sort_keys ::
  "text_ops \<Rightarrow> subquery_runner \<Rightarrow> eval_ctx \<Rightarrow> (expr \<times> bool) list \<Rightarrow> (rust_string \<times> expr) list \<Rightarrow> row result" where
  "eval_sort_keys tx run ctx order_by aliases =
     mapR (\<lambda>(e, _). eval_bound tx run (resolve_order_expr e aliases) (Some ctx)) order_by"

definition reverse_ordering :: "ordering \<Rightarrow> ordering" where
  "reverse_ordering ord = (case ord of Less \<Rightarrow> Greater | Equal \<Rightarrow> Equal | Greater \<Rightarrow> Less)"

fun cmp_key :: "sql_value \<Rightarrow> sql_value \<Rightarrow> ordering" where
  "cmp_key VNull VNull = Equal"
| "cmp_key VNull _ = Less"
| "cmp_key _ VNull = Greater"
| "cmp_key va vb = (case cmp_values va vb of Ok (Some ord) \<Rightarrow> ord | _ \<Rightarrow> Equal)"

fun cmp_sort_keys :: "row \<Rightarrow> row \<Rightarrow> (expr \<times> bool) list \<Rightarrow> ordering" where
  "cmp_sort_keys (va # a) (vb # b) ((_, desc) # order_by) =
     (let ord = (if desc then reverse_ordering (cmp_key va vb) else cmp_key va vb)
      in if ord \<noteq> Equal then ord else cmp_sort_keys a b order_by)"
| "cmp_sort_keys _ _ _ = Equal"

fun insert_by :: "('a \<Rightarrow> 'a \<Rightarrow> ordering) \<Rightarrow> 'a \<Rightarrow> 'a list \<Rightarrow> 'a list" where
  "insert_by cmp x [] = [x]"
| "insert_by cmp x (y # ys) = (if cmp x y = Greater then y # insert_by cmp x ys else x # y # ys)"

definition stable_sort :: "('a \<Rightarrow> 'a \<Rightarrow> ordering) \<Rightarrow> 'a list \<Rightarrow> 'a list" where
  "stable_sort cmp xs = foldr (insert_by cmp) xs []"

definition sort_keyed :: "(expr \<times> bool) list \<Rightarrow> ('a \<times> row) list \<Rightarrow> 'a list" where
  "sort_keyed order_by pairs = map fst (stable_sort (\<lambda>(_, ka) (_, kb). cmp_sort_keys ka kb order_by) pairs)"

definition sort_rows ::
  "text_ops \<Rightarrow> subquery_runner \<Rightarrow> eval_ctx option \<Rightarrow> schema \<Rightarrow> row list \<Rightarrow> (expr \<times> bool) list \<Rightarrow> select_item list \<Rightarrow> row list result" where
  "sort_rows tx run outer sc rows order_by items =
     bindR (mapR (\<lambda>r. bindR (eval_sort_keys tx run (EvalCtx (RowScope sc r) outer) order_by (select_aliases items)) (\<lambda>keys. Ok (r, keys))) rows)
       (\<lambda>pairs. Ok (sort_keyed order_by pairs))"

definition sort_groups ::
  "text_ops \<Rightarrow> subquery_runner \<Rightarrow> eval_ctx option \<Rightarrow> schema \<Rightarrow> row list list \<Rightarrow> (expr \<times> bool) list \<Rightarrow> select_item list \<Rightarrow> row list list result" where
  "sort_groups tx run outer sc groups order_by items =
     bindR (mapR (\<lambda>g. bindR (eval_sort_keys tx run (EvalCtx (GroupScope sc g) outer) order_by (select_aliases items)) (\<lambda>keys. Ok (g, keys))) groups)
       (\<lambda>pairs. Ok (sort_keyed order_by pairs))"

subsection \<open>The reference path\<close>

text \<open>Appending a row to the group with its key, or opening a group at the end.\<close>

fun add_to_group :: "row \<Rightarrow> row \<Rightarrow> (row \<times> row list) list \<Rightarrow> (row \<times> row list) list" where
  "add_to_group key r [] = [(key, [r])]"
| "add_to_group key r ((k, rows) # gs) = (if row_eq k key then (k, rows @ [r]) # gs else (k, rows) # add_to_group key r gs)"

definition group_rows ::
  "text_ops \<Rightarrow> subquery_runner \<Rightarrow> eval_ctx option \<Rightarrow> schema \<Rightarrow> expr list \<Rightarrow> row list \<Rightarrow> (row \<times> row list) list result" where
  "group_rows tx run outer sc group_by rows =
     foldR (\<lambda>gs r. bindR (mapR (\<lambda>g. eval_bound tx run g (Some (EvalCtx (RowScope sc r) outer))) group_by) (\<lambda>key.
       Ok (add_to_group key r gs))) [] rows"

definition having_holds :: "text_ops \<Rightarrow> subquery_runner \<Rightarrow> eval_ctx option \<Rightarrow> schema \<Rightarrow> expr option \<Rightarrow> row list \<Rightarrow> bool result" where
  "having_holds tx run outer sc having g =
     (case having of
        None \<Rightarrow> Ok True
      | Some h \<Rightarrow> bindR (eval_bound tx run h (Some (EvalCtx (GroupScope sc g) outer))) (\<lambda>v. case v of
            VBool True \<Rightarrow> Ok True
          | VBool False \<Rightarrow> Ok False
          | VNull \<Rightarrow> Ok False
          | _ \<Rightarrow> Err (Runtime ''having clause must evaluate to boolean'')))"

definition filterR :: "('a \<Rightarrow> bool result) \<Rightarrow> 'a list \<Rightarrow> 'a list result" where
  "filterR p xs = bindR (mapR (\<lambda>x. bindR (p x) (\<lambda>b. Ok (x, b))) xs) (\<lambda>ys. Ok (map fst (filter snd ys)))"

definition item_has_column :: "select_item \<Rightarrow> bool" where
  "item_has_column it = (case it of SExpr e \<Rightarrow> expr_has_column e | SAliased e _ \<Rightarrow> expr_has_column e | Star \<Rightarrow> False)"

definition grouped_select_rows ::
  "text_ops \<Rightarrow> subquery_runner \<Rightarrow> eval_ctx option \<Rightarrow> schema \<Rightarrow> select_stmt \<Rightarrow> row list \<Rightarrow> expr list \<Rightarrow> row list result" where
  "grouped_select_rows tx run outer sc s filtered exprs =
     (if list_ex expr_has_aggregate (sel_group_by s)
      then Err (Runtime ''aggregate functions are not allowed in group by'')
      else if sel_group_by s = [] \<and> list_ex item_has_column (sel_items s)
      then Err (Runtime ''column must appear in group by or aggregate'')
      else
        bindR (if sel_group_by s = [] then Ok [([], filtered)] else group_rows tx run outer sc (sel_group_by s) filtered) (\<lambda>groups.
        bindR (filterR (having_holds tx run outer sc (sel_having s)) (map snd groups)) (\<lambda>surviving.
        bindR (if sel_order_by s = [] then Ok surviving
               else sort_groups tx run outer sc surviving (sel_order_by s) (sel_items s)) (\<lambda>sorted.
        bindR (mapR (\<lambda>g. mapR (\<lambda>e. eval_bound tx run e (Some (EvalCtx (GroupScope sc g) outer))) exprs) sorted) (\<lambda>out.
          apply_limit tx (if sel_distinct s then dedup_rows out else out) (sel_limit s))))))"

subsection \<open>Accumulators\<close>

datatype agg_kind = KCount "nat option" | KSum nat | KAvg nat | KMin nat | KMax nat

definition kind_column :: "agg_kind \<Rightarrow> nat option" where
  "kind_column k = (case k of KCount i \<Rightarrow> i | KSum i \<Rightarrow> Some i | KAvg i \<Rightarrow> Some i | KMin i \<Rightarrow> Some i | KMax i \<Rightarrow> Some i)"

datatype agg_state =
    SCount i64
  | SSum "sql_value option"
  | SAvg f64 i64
  | SMin "sql_value option"
  | SMax "sql_value option"

definition column_index :: "schema \<Rightarrow> expr \<Rightarrow> nat option" where
  "column_index sc e =
     (let found = (\<lambda>r. case r of Ok i \<Rightarrow> Some i | Err _ \<Rightarrow> None) in
      case e of
        EColumn name \<Rightarrow> found (resolve sc None name)
      | EQualified owner name \<Rightarrow> found (resolve sc (Some owner) name)
      | _ \<Rightarrow> None)"

definition agg_kind_of :: "schema \<Rightarrow> expr \<Rightarrow> agg_kind option" where
  "agg_kind_of sc e =
     (case e of
        EAggregate func arg dist \<Rightarrow>
          if dist then None
          else
            (let index = (case arg of None \<Rightarrow> None | Some a \<Rightarrow> column_index sc a) in
             case func of
               Count \<Rightarrow> (case arg of None \<Rightarrow> Some (KCount None) | Some _ \<Rightarrow> map_option (\<lambda>i. KCount (Some i)) index)
             | Sum \<Rightarrow> map_option KSum index
             | Avg \<Rightarrow> map_option KAvg index
             | Min \<Rightarrow> map_option KMin index
             | Max \<Rightarrow> map_option KMax index)
      | _ \<Rightarrow> None)"

definition new_state :: "agg_kind \<Rightarrow> agg_state" where
  "new_state k =
     (case k of KCount _ \<Rightarrow> SCount 0 | KSum _ \<Rightarrow> SSum None | KAvg _ \<Rightarrow> SAvg 0 0 | KMin _ \<Rightarrow> SMin None | KMax _ \<Rightarrow> SMax None)"

text \<open>
  A state that does not belong to the kind is the \<open>unreachable\<close> panic. The fast paths for two integers and two floats
  are those of the source.
\<close>

definition sum_value :: "sql_value option \<Rightarrow> sql_value \<Rightarrow> sql_value result" where
  "sum_value acc v =
     (case acc of
        None \<Rightarrow> Ok v
      | Some (VInt a) \<Rightarrow>
          (case v of
             VInt b \<Rightarrow> (case checked_i64 (sint a + sint b) of Some n \<Rightarrow> Ok (VInt n) | None \<Rightarrow> Err int_overflow)
           | other \<Rightarrow> eval_binary Add (VInt a) other)
      | Some (VFloat a) \<Rightarrow>
          (case v of
             VFloat b \<Rightarrow> Ok (VFloat (f64_add a b))
           | other \<Rightarrow> eval_binary Add (VFloat a) other)
      | Some prev \<Rightarrow> eval_binary Add prev v)"

definition best_value :: "bool \<Rightarrow> sql_value option \<Rightarrow> sql_value \<Rightarrow> sql_value result" where
  "best_value is_min best v =
     (case best of
        None \<Rightarrow> Ok v
      | Some prev \<Rightarrow> bindR (cmp_values prev v) (\<lambda>ord. case ord of
            None \<Rightarrow> Err type_mismatch
          | Some ord \<Rightarrow> Ok (if ord = (if is_min then Greater else Less) then v else prev)))"

definition on_count :: "agg_state \<Rightarrow> (i64 \<Rightarrow> i64) \<Rightarrow> agg_state result" where
  "on_count s f = (case s of SCount n \<Rightarrow> Ok (SCount (f n)) | _ \<Rightarrow> Err Panic)"

definition on_sum :: "agg_state \<Rightarrow> (sql_value option \<Rightarrow> sql_value option result) \<Rightarrow> agg_state result" where
  "on_sum s f = (case s of SSum acc \<Rightarrow> bindR (f acc) (\<lambda>acc. Ok (SSum acc)) | _ \<Rightarrow> Err Panic)"

definition on_avg :: "agg_state \<Rightarrow> (f64 \<times> i64 \<Rightarrow> f64 \<times> i64) \<Rightarrow> agg_state result" where
  "on_avg s f = (case s of SAvg tot n \<Rightarrow> Ok (case f (tot, n) of (tot, n) \<Rightarrow> SAvg tot n) | _ \<Rightarrow> Err Panic)"

definition on_best :: "agg_state \<Rightarrow> (sql_value option \<Rightarrow> sql_value option result) \<Rightarrow> agg_state result" where
  "on_best s f =
     (case s of
        SMin best \<Rightarrow> bindR (f best) (\<lambda>best. Ok (SMin best))
      | SMax best \<Rightarrow> bindR (f best) (\<lambda>best. Ok (SMax best))
      | _ \<Rightarrow> Err Panic)"

definition kind_is_min :: "agg_kind \<Rightarrow> bool" where
  "kind_is_min k = (case k of KMin _ \<Rightarrow> True | _ \<Rightarrow> False)"

definition avg_add :: "f64 \<Rightarrow> f64 \<times> i64 \<Rightarrow> f64 \<times> i64" where
  "avg_add x acc = (f64_add (fst acc) x, snd acc + 1)"

definition update_value :: "agg_kind \<Rightarrow> agg_state \<Rightarrow> sql_value \<Rightarrow> agg_state result" where
  "update_value kind s v =
     (case kind of
        KCount None \<Rightarrow> on_count s (\<lambda>n. n + 1)
      | KCount (Some _) \<Rightarrow> if v = VNull then Ok s else on_count s (\<lambda>n. n + 1)
      | KSum _ \<Rightarrow> if v = VNull then Ok s else on_sum s (\<lambda>acc. bindR (sum_value acc v) (\<lambda>x. Ok (Some x)))
      | KAvg _ \<Rightarrow>
          (case v of
             VNull \<Rightarrow> Ok s
           | VInt n \<Rightarrow> on_avg s (avg_add (f64_of_int (sint n)))
           | VFloat x \<Rightarrow> on_avg s (avg_add x)
           | _ \<Rightarrow> Err type_mismatch)
      | _ \<Rightarrow> if v = VNull then Ok s else on_best s (\<lambda>best. bindR (best_value (kind_is_min kind) best v) (\<lambda>x. Ok (Some x))))"

fun finish :: "agg_state \<Rightarrow> sql_value" where
  "finish (SCount n) = VInt n"
| "finish (SSum acc) = or_null acc"
| "finish (SAvg tot n) = (if n = 0 then VNull else VFloat (f64_div tot (f64_of_int (sint n))))"
| "finish (SMin best) = or_null best"
| "finish (SMax best) = or_null best"

subsection \<open>Columnar kernels\<close>

definition count_present :: "chunk_column \<Rightarrow> nat" where
  "count_present c =
     (case c of
        CBool v \<Rightarrow> length (filter (\<lambda>x. x \<noteq> None) v)
      | CInt v \<Rightarrow> length (filter (\<lambda>x. x \<noteq> None) v)
      | CFloat v \<Rightarrow> length (filter (\<lambda>x. x \<noteq> None) v)
      | CStr v \<Rightarrow> length (filter (\<lambda>x. x \<noteq> None) v)
      | CDate v \<Rightarrow> length (filter (\<lambda>x. x \<noteq> None) v))"

text \<open>\<open>values.iter().flatten()\<close>.\<close>

definition flatten :: "'a option list \<Rightarrow> 'a list" where
  "flatten xs = List.map_filter id xs"

definition int_sum_step :: "i64 option \<Rightarrow> i64 \<Rightarrow> i64 option result" where
  "int_sum_step tot x =
     (case tot of
        None \<Rightarrow> Ok (Some x)
      | Some a \<Rightarrow> (case checked_i64 (sint a + sint x) of Some n \<Rightarrow> Ok (Some n) | None \<Rightarrow> Err int_overflow))"

definition int_best_step :: "bool \<Rightarrow> i64 option \<Rightarrow> i64 \<Rightarrow> i64 option" where
  "int_best_step is_min current x =
     Some (case current of
        None \<Rightarrow> x
      | Some prev \<Rightarrow> if (if is_min then sint x < sint prev else sint prev < sint x) then x else prev)"

definition held_int :: "sql_value option \<Rightarrow> i64 option result" where
  "held_int acc = (case acc of None \<Rightarrow> Ok None | Some (VInt x) \<Rightarrow> Ok (Some x) | Some _ \<Rightarrow> Err type_mismatch)"

definition apply_int :: "agg_kind \<Rightarrow> agg_state \<Rightarrow> i64 option list \<Rightarrow> agg_state result" where
  "apply_int kind s vs =
     (case kind of
        KSum _ \<Rightarrow> on_sum s (\<lambda>acc. bindR (held_int acc) (\<lambda>tot. bindR (foldR int_sum_step tot (flatten vs)) (\<lambda>tot. Ok (map_option VInt tot))))
      | KAvg _ \<Rightarrow> on_avg s (fold (\<lambda>x. avg_add (f64_of_int (sint x))) (flatten vs))
      | KCount _ \<Rightarrow> Err Panic
      | _ \<Rightarrow> on_best s (\<lambda>best. bindR (held_int best) (\<lambda>cur. Ok (map_option VInt (foldl (int_best_step (kind_is_min kind)) cur (flatten vs))))))"

definition held_float :: "sql_value option \<Rightarrow> f64 option result" where
  "held_float acc = (case acc of None \<Rightarrow> Ok None | Some (VFloat x) \<Rightarrow> Ok (Some x) | Some _ \<Rightarrow> Err type_mismatch)"

definition float_sum_step :: "f64 option \<Rightarrow> f64 \<Rightarrow> f64 option" where
  "float_sum_step tot x = Some (case tot of None \<Rightarrow> x | Some a \<Rightarrow> f64_add a x)"

definition float_best_step :: "bool \<Rightarrow> f64 option \<Rightarrow> f64 \<Rightarrow> f64 option result" where
  "float_best_step is_min current x =
     (case current of
        None \<Rightarrow> Ok (Some x)
      | Some prev \<Rightarrow>
          (case f64_partial_cmp prev x of
             None \<Rightarrow> Err type_mismatch
           | Some ord \<Rightarrow> Ok (Some (if ord = (if is_min then Greater else Less) then x else prev))))"

definition apply_float :: "agg_kind \<Rightarrow> agg_state \<Rightarrow> f64 option list \<Rightarrow> agg_state result" where
  "apply_float kind s vs =
     (case kind of
        KSum _ \<Rightarrow> on_sum s (\<lambda>acc. bindR (held_float acc) (\<lambda>tot. Ok (map_option VFloat (foldl float_sum_step tot (flatten vs)))))
      | KAvg _ \<Rightarrow> on_avg s (fold avg_add (flatten vs))
      | KCount _ \<Rightarrow> Err Panic
      | _ \<Rightarrow> on_best s (\<lambda>best. bindR (held_float best) (\<lambda>cur.
          bindR (foldR (float_best_step (kind_is_min kind)) cur (flatten vs)) (\<lambda>cur. Ok (map_option VFloat cur)))))"

definition update_row :: "agg_kind \<Rightarrow> agg_state \<Rightarrow> chunk \<Rightarrow> nat \<Rightarrow> agg_state result" where
  "update_row kind s ck i =
     (case kind_column kind of
        Some c \<Rightarrow> bindR (chunk_column_at ck c) (\<lambda>col. bindR (column_value col i) (update_value kind s))
      | None \<Rightarrow> update_value kind s VNull)"

definition update_state :: "agg_kind \<Rightarrow> agg_state \<Rightarrow> chunk \<Rightarrow> agg_state result" where
  "update_state kind s ck =
     (case kind of
        KCount None \<Rightarrow> on_count s (\<lambda>n. n + word_of_nat (ck_len ck))
      | KCount (Some c) \<Rightarrow> bindR (chunk_column_at ck c) (\<lambda>col. on_count s (\<lambda>n. n + word_of_nat (count_present col)))
      | _ \<Rightarrow>
          bindR (chunk_column_at ck (the (kind_column kind))) (\<lambda>col.
            case col of
              CInt vs \<Rightarrow> apply_int kind s vs
            | CFloat vs \<Rightarrow> apply_float kind s vs
            | _ \<Rightarrow> foldR (\<lambda>s i. update_row kind s ck i) s [0..<ck_len ck]))"

subsection \<open>The columnar paths\<close>

type_synonym 'a source = "'a list \<times> error option"

definition foldS :: "('s \<Rightarrow> 'a \<Rightarrow> 's result) \<Rightarrow> 's \<Rightarrow> 'a source \<Rightarrow> 's result" where
  "foldS f s src = bindR (foldR f s (fst src)) (\<lambda>s. case snd src of None \<Rightarrow> Ok s | Some e \<Rightarrow> Err e)"

text \<open>
  What the child delivers along \<open>for_each_projected_row\<close> (for given columns), \<open>for_each_row\<close> and \<open>next_chunk\<close>; the first two are
  \<open>None\<close> when the child does not support them.
\<close>

record child_paths =
  projected_path :: "nat list \<Rightarrow> row source option"
  fused_path :: "row source option"
  chunk_path :: "chunk source"

text \<open>The loop over the kinds and their states.\<close>

fun update_all :: "('k \<Rightarrow> 's \<Rightarrow> 's result) \<Rightarrow> 'k list \<Rightarrow> 's list \<Rightarrow> 's list result" where
  "update_all f (k # ks) (s # ss) = bindR (f k s) (\<lambda>s. bindR (update_all f ks ss) (\<lambda>ss. Ok (s # ss)))"
| "update_all f _ ss = Ok ss"

definition slot_value :: "row \<Rightarrow> nat option \<Rightarrow> sql_value result" where
  "slot_value r at = (case at of Some i \<Rightarrow> idx r i | None \<Rightarrow> Ok VNull)"

definition add_column :: "nat list \<Rightarrow> nat \<Rightarrow> nat list" where
  "add_column cols i = (if i \<in> set cols then cols else cols @ [i])"

definition aggregate_columns :: "agg_kind list \<Rightarrow> nat list" where
  "aggregate_columns kinds = foldl add_column [] (List.map_filter kind_column kinds)"

definition slot_of :: "nat list \<Rightarrow> nat \<Rightarrow> nat result" where
  "slot_of cols c = (case position ((=) c) cols of Some i \<Rightarrow> Ok i | None \<Rightarrow> Err Panic)"

definition slots_of :: "nat list \<Rightarrow> agg_kind list \<Rightarrow> nat option list result" where
  "slots_of cols kinds =
     mapR (\<lambda>k. case kind_column k of None \<Rightarrow> Ok None | Some c \<Rightarrow> bindR (slot_of cols c) (\<lambda>i. Ok (Some i))) kinds"

definition update_slots :: "agg_kind list \<Rightarrow> nat option list \<Rightarrow> agg_state list \<Rightarrow> row \<Rightarrow> agg_state list result" where
  "update_slots kinds slots states vs =
     update_all (\<lambda>(k, at) s. bindR (slot_value vs at) (update_value k s)) (zip kinds slots) states"

text \<open>\<open>collect::<Option<Vec<_>>>()\<close>.\<close>

fun those_kinds :: "schema \<Rightarrow> expr list \<Rightarrow> agg_kind list option" where
  "those_kinds sc [] = Some []"
| "those_kinds sc (e # es) =
     (case agg_kind_of sc e of
        None \<Rightarrow> None
      | Some k \<Rightarrow> map_option (\<lambda>ks. k # ks) (those_kinds sc es))"

definition plain_shape :: "select_stmt \<Rightarrow> bool" where
  "plain_shape s \<longleftrightarrow> sel_having s = None \<and> \<not> sel_distinct s \<and> sel_order_by s = [] \<and> sel_limit s = None"

definition global_states :: "agg_kind list \<Rightarrow> child_paths \<Rightarrow> agg_state list result" where
  "global_states kinds child =
     (let states = map new_state kinds; cols = aggregate_columns kinds in
      bindR (slots_of cols kinds) (\<lambda>slots.
        case projected_path child cols of
          Some src \<Rightarrow> foldS (update_slots kinds slots) states src
        | None \<Rightarrow>
            (case fused_path child of
               Some src \<Rightarrow> foldS (update_slots kinds (map kind_column kinds)) states src
             | None \<Rightarrow> foldS (\<lambda>states ck. update_all (\<lambda>k s. update_state k s ck) kinds states) states (chunk_path child))))"

definition chunk_global_aggregate ::
  "schema \<Rightarrow> child_paths \<Rightarrow> select_stmt \<Rightarrow> expr list \<Rightarrow> row list option result" where
  "chunk_global_aggregate sc child s exprs =
     (if sel_group_by s \<noteq> [] \<or> \<not> plain_shape s then Ok None
      else
        (case those_kinds sc exprs of
           None \<Rightarrow> Ok None
         | Some kinds \<Rightarrow>
             if kinds = [] then Ok None
             else bindR (global_states kinds child) (\<lambda>states. Ok (Some [map finish states]))))"

datatype group_proj = GFirst nat | GAgg

fun group_plan :: "schema \<Rightarrow> expr list \<Rightarrow> (group_proj list \<times> agg_kind list) option" where
  "group_plan sc [] = Some ([], [])"
| "group_plan sc (e # es) =
     (case column_index sc e of
        Some i \<Rightarrow> map_option (\<lambda>(ps, ks). (GFirst i # ps, ks)) (group_plan sc es)
      | None \<Rightarrow>
          (case agg_kind_of sc e of
             Some k \<Rightarrow> map_option (\<lambda>(ps, ks). (GAgg # ps, k # ks)) (group_plan sc es)
           | None \<Rightarrow> None))"

definition needed_columns :: "nat list \<Rightarrow> group_proj list \<Rightarrow> agg_kind list \<Rightarrow> nat list" where
  "needed_columns group_columns projection kinds =
     foldl add_column [] (group_columns @
       List.map_filter (\<lambda>p. case p of GFirst i \<Rightarrow> Some i | GAgg \<Rightarrow> None) projection @ List.map_filter kind_column kinds)"

definition normalize_key :: "sql_value \<Rightarrow> sql_value" where
  "normalize_key v = (case v of VFloat x \<Rightarrow> if f64_eq x 0 then VFloat 0 else v | _ \<Rightarrow> v)"

record agg_group =
  ag_states :: "agg_state list"
  ag_first :: row

type_synonym group_table = "agg_group list \<times> (byte list \<rightharpoonup> nat)"

definition into_group ::
  "agg_kind list \<Rightarrow> row \<Rightarrow> row result \<Rightarrow> (agg_state list \<Rightarrow> agg_state list result) \<Rightarrow> group_table \<Rightarrow> group_table result" where
  "into_group kinds key first upd tab =
     (let (groups, lookup) = tab; encoded = encode_row (map normalize_key key) in
      bindR (case lookup encoded of
          Some g \<Rightarrow> Ok (g, groups, lookup)
        | None \<Rightarrow> bindR first (\<lambda>first.
            Ok (length groups, groups @ [\<lparr> ag_states = map new_state kinds, ag_first = first \<rparr>], lookup(encoded \<mapsto> length groups))))
        (\<lambda>(g, groups, lookup).
      bindR (idx groups g) (\<lambda>group. bindR (upd (ag_states group)) (\<lambda>states.
        Ok (groups[g := group\<lparr> ag_states := states \<rparr>], lookup)))))"

definition group_projected ::
  "agg_kind list \<Rightarrow> nat list \<Rightarrow> nat option list \<Rightarrow> group_table \<Rightarrow> row \<Rightarrow> group_table result" where
  "group_projected kinds group_slots agg_slots tab vs =
     bindR (mapR (idx vs) group_slots) (\<lambda>key. into_group kinds key (Ok vs) (\<lambda>states. update_slots kinds agg_slots states vs) tab)"

definition group_chunk_row ::
  "agg_kind list \<Rightarrow> nat list \<Rightarrow> nat list \<Rightarrow> chunk \<Rightarrow> group_table \<Rightarrow> nat \<Rightarrow> group_table result" where
  "group_chunk_row kinds group_columns needed ck tab i =
     (let cell = (\<lambda>c. bindR (chunk_column_at ck c) (\<lambda>col. column_value col i)) in
      bindR (mapR cell group_columns) (\<lambda>key.
        into_group kinds key (mapR cell needed) (update_all (\<lambda>k s. update_row k s ck i) kinds) tab))"

fun project_group :: "nat list \<Rightarrow> row \<Rightarrow> group_proj list \<Rightarrow> agg_state list \<Rightarrow> row result" where
  "project_group needed first [] states = Ok []"
| "project_group needed first (GFirst i # ps) states =
     bindR (slot_of needed i) (\<lambda>j. bindR (idx first j) (\<lambda>v. bindR (project_group needed first ps states) (\<lambda>vs. Ok (v # vs))))"
| "project_group needed first (GAgg # ps) (s # states) = bindR (project_group needed first ps states) (\<lambda>vs. Ok (finish s # vs))"
| "project_group needed first (GAgg # ps) [] = Err Panic"

fun those_columns :: "schema \<Rightarrow> expr list \<Rightarrow> nat list option" where
  "those_columns sc [] = Some []"
| "those_columns sc (e # es) =
     (case column_index sc e of None \<Rightarrow> None | Some i \<Rightarrow> map_option (\<lambda>is. i # is) (those_columns sc es))"

definition group_tables ::
  "agg_kind list \<Rightarrow> nat list \<Rightarrow> nat list \<Rightarrow> child_paths \<Rightarrow> group_table result" where
  "group_tables kinds group_columns needed child =
     bindR (mapR (slot_of needed) group_columns) (\<lambda>group_slots.
     bindR (slots_of needed kinds) (\<lambda>agg_slots.
       case projected_path child needed of
         Some src \<Rightarrow> foldS (group_projected kinds group_slots agg_slots) ([], Map.empty) src
       | None \<Rightarrow> foldS (\<lambda>tab ck. foldR (group_chunk_row kinds group_columns needed ck) tab [0..<ck_len ck]) ([], Map.empty) (chunk_path child)))"

definition chunk_grouped_aggregate ::
  "schema \<Rightarrow> child_paths \<Rightarrow> select_stmt \<Rightarrow> expr list \<Rightarrow> row list option result" where
  "chunk_grouped_aggregate sc child s exprs =
     (if sel_group_by s = [] \<or> \<not> plain_shape s then Ok None
      else
        (case those_columns sc (sel_group_by s) of
           None \<Rightarrow> Ok None
         | Some group_columns \<Rightarrow>
             (case group_plan sc exprs of
                None \<Rightarrow> Ok None
              | Some (projection, kinds) \<Rightarrow>
                  (let needed = needed_columns group_columns projection kinds in
                   bindR (group_tables kinds group_columns needed child) (\<lambda>(groups, _).
                   bindR (mapR (\<lambda>g. project_group needed (ag_first g) projection (ag_states g)) groups) (\<lambda>out. Ok (Some out)))))))"

subsection \<open>Streaming a group through an accumulator is evaluating the aggregate on the group\<close>

definition kind_value :: "agg_kind \<Rightarrow> row \<Rightarrow> sql_value" where
  "kind_value k r = (case kind_column k of Some i \<Rightarrow> r ! i | None \<Rightarrow> VNull)"

lemmas update_defs = update_value_def on_count_def on_sum_def on_avg_def on_best_def

lemma update_value_null: "kind_column k \<noteq> None \<Longrightarrow> update_value k s VNull = Ok s"
  by (auto simp: update_value_def kind_column_def split: agg_kind.splits option.split)

lemma foldR_update_nonnull:
  "kind_column k \<noteq> None \<Longrightarrow> foldR (update_value k) s vs = foldR (update_value k) s (filter (\<lambda>v. v \<noteq> VNull) vs)"
  by (induction vs arbitrary: s) (auto simp: update_value_null intro!: bindR_cong)

lemma sum_value_step: "v \<noteq> VNull \<Longrightarrow> bindR (sum_value acc v) (\<lambda>x. Ok (Some x)) = sum_step acc v"
  by (auto simp: sum_value_def sum_step_def eval_binary_def int_arith_def float_arith_def
    split: option.split sql_value.split)

lemma best_value_step: "bindR (best_value m best v) (\<lambda>x. Ok (Some x)) = best_step m best v"
  by (auto simp: best_value_def best_step_def bindR_case split: option.split result.split)

lemma foldR_wrap:
  assumes "\<And>s v. v \<in> set vs \<Longrightarrow> f (w s) v = bindR (g s v) (\<lambda>s. Ok (w s))"
  shows "foldR f (w s) vs = bindR (foldR g s vs) (\<lambda>s. Ok (w s))"
  using assms
proof (induction vs arbitrary: s)
  case (Cons v vs)
  then show ?case by (cases "g s v") auto
qed simp

lemma foldR_count: "foldR (update_value (KCount i)) (SCount n) vs =
    Ok (SCount (n + word_of_nat (length (if i = None then vs else filter (\<lambda>v. v \<noteq> VNull) vs))))"
  by (induction vs arbitrary: n) (auto simp: update_defs algebra_simps split: option.split)

lemma foldR_avg:
  assumes "\<forall>v \<in> set vs. v \<noteq> VNull"
  shows "foldR (update_value (KAvg i)) (SAvg tot n) vs = bindR (foldR avg_step tot vs) (\<lambda>t. Ok (SAvg t (n + word_of_nat (length vs))))"
  using assms
proof (induction vs arbitrary: tot n)
  case (Cons v vs)
  then show ?case by (cases v) (auto simp: update_defs avg_step_def avg_add_def algebra_simps)
qed simp

lemma foldR_sum:
  "\<forall>v \<in> set vs. v \<noteq> VNull \<Longrightarrow> foldR (update_value (KSum i)) (SSum acc) vs = bindR (foldR sum_step acc vs) (\<lambda>s. Ok (SSum s))"
  by (rule foldR_wrap) (auto simp: update_defs sum_value_step)

lemma foldR_min:
  "\<forall>v \<in> set vs. v \<noteq> VNull \<Longrightarrow> foldR (update_value (KMin i)) (SMin acc) vs = bindR (foldR (best_step True) acc vs) (\<lambda>s. Ok (SMin s))"
  by (rule foldR_wrap) (auto simp: update_defs best_value_step kind_is_min_def)

lemma foldR_max:
  "\<forall>v \<in> set vs. v \<noteq> VNull \<Longrightarrow> foldR (update_value (KMax i)) (SMax acc) vs = bindR (foldR (best_step False) acc vs) (\<lambda>s. Ok (SMax s))"
  by (rule foldR_wrap) (auto simp: update_defs best_value_step kind_is_min_def)

fun kind_func :: "agg_kind \<Rightarrow> agg_func" where
  "kind_func (KCount _) = Count"
| "kind_func (KSum _) = Sum"
| "kind_func (KAvg _) = Avg"
| "kind_func (KMin _) = Min"
| "kind_func (KMax _) = Max"

lemma foldR_update_is_aggregate:
  assumes "kind_column k \<noteq> None" "\<forall>v \<in> set vs. v \<noteq> VNull" "length vs < 2 ^ 63"
  shows "bindR (foldR (update_value k) (new_state k) vs) (\<lambda>s. Ok (finish s)) = aggregate_values (kind_func k) False n vs"
proof -
  have "sint (word_of_int (int (length vs)) :: i64) = int (length vs)"
    using assms(3) by (simp only: sint_sbintrunc') (auto intro!: signed_take_bit_int_eq_self)
  then have "sint (word_of_nat (length vs) :: i64) = int (length vs)" by simp
  moreover have "(word_of_nat (length vs) :: i64) = 0 \<longleftrightarrow> vs = []"
    using assms(3) by (simp add: word_of_nat_eq_0_iff) (auto dest: nat_dvd_not_less)
  ultimately show ?thesis using assms
    by (cases k) (auto simp: new_state_def aggregate_values_def foldR_count foldR_sum foldR_avg foldR_min foldR_max kind_column_def)
qed

lemma column_index_eval:
  assumes "column_index sc e = Some i"
  shows "i < length sc" "\<not> expr_has_subquery e" "\<not> expr_has_aggregate e"
    "length r = length sc \<Longrightarrow> eval tx e (Some (EvalCtx (RowScope sc r) outer)) = Ok (r ! i)"
    "length r = length sc \<Longrightarrow> eval tx e (Some (EvalCtx (GroupScope sc (r # rs)) outer)) = Ok (r ! i)"
  using assms
  by (auto simp: column_index_def resolve_column_def scope_lookup_def idx_def Let_def dest: resolve_in_range
    split: expr.splits result.splits)

lemma agg_kind_shape:
  assumes "agg_kind_of sc e = Some k"
  obtains arg where "e = EAggregate (kind_func k) arg False" "kind_column k = None \<longleftrightarrow> arg = None"
    "kind_column k = None \<Longrightarrow> kind_func k = Count"
    "\<And>a. arg = Some a \<Longrightarrow> \<exists>i. column_index sc a = Some i \<and> kind_column k = Some i"
  using assms that
  by (auto simp: agg_kind_of_def kind_column_def Let_def split: expr.splits if_splits agg_func.splits option.splits)

lemma stream_is_eval:
  assumes k: "agg_kind_of sc e = Some k" and rows: "\<forall>r \<in> set rows. length r = length sc" "length rows < 2 ^ 63"
  shows "eval tx e (Some (EvalCtx (GroupScope sc rows) outer)) =
    bindR (foldR (update_value k) (new_state k) (map (kind_value k) rows)) (\<lambda>s. Ok (finish s))"
proof (rule agg_kind_shape [OF k])
  fix arg
  assume e: "e = EAggregate (kind_func k) arg False" and none: "kind_column k = None \<longleftrightarrow> arg = None"
    and count: "kind_column k = None \<Longrightarrow> kind_func k = Count"
    and col: "\<And>a. arg = Some a \<Longrightarrow> \<exists>i. column_index sc a = Some i \<and> kind_column k = Some i"
  show ?thesis
  proof (cases arg)
    case None
    with none count have "k = KCount None" by (cases k) (auto simp: kind_column_def)
    with e None show ?thesis by (simp add: foldR_count new_state_def aggregate_values_def)
  next
    case (Some a)
    with col obtain i where i: "column_index sc a = Some i" "kind_column k = Some i" by auto
    have vals: "mapR (\<lambda>r. eval tx a (Some (ctx_row sc r))) rows = Ok (map (kind_value k) rows)"
      using rows(1) i column_index_eval(4) [OF i(1)]
      by (auto simp: mapR_Ok_iff list_all2_map2 ctx_row_def kind_value_def intro!: list_all2_same [THEN iffD2])
    have "bindR (foldR (update_value k) (new_state k) (filter (\<lambda>v. v \<noteq> VNull) (map (kind_value k) rows))) (\<lambda>s. Ok (finish s)) =
        aggregate_values (kind_func k) False (length rows) (filter (\<lambda>v. v \<noteq> VNull) (map (kind_value k) rows))"
      using i(2) rows(2) by (intro foldR_update_is_aggregate) (auto intro: le_less_trans [OF length_filter_le])
    with e Some vals i(2) show ?thesis
      by (simp add: foldR_update_nonnull [where vs = "map (kind_value k) rows"])
  qed
qed

subsection \<open>Several aggregates at once\<close>

text \<open>The result of a computation up to the choice of the error reported.\<close>

fun ok_of :: "'a result \<Rightarrow> 'a option" where
  "ok_of (Ok x) = Some x"
| "ok_of (Err e) = None"

lemma ok_of_bindR: "ok_of (bindR m f) = Option.bind (ok_of m) (\<lambda>x. ok_of (f x))"
  by (cases m) auto

lemma ok_of_None: "ok_of m = None \<longleftrightarrow> (\<exists>e. m = Err e)"
  by (cases m) auto

lemma ok_of_Some: "ok_of m = Some x \<longleftrightarrow> m = Ok x"
  by (cases m) auto

lemma update_all_then:
  "length ks = length ss \<Longrightarrow> ok_of (bindR (update_all h ks ss) (\<lambda>ss. mapR (\<lambda>(k, s). p k s) (zip ks ss))) =
    ok_of (mapR (\<lambda>(k, s). bindR (h k s) (p k)) (zip ks ss))"
proof (induction ks ss rule: list_induct2)
  case (Cons k ks s ss)
  show ?case
  proof (cases "h k s")
    case (Ok s')
    show ?thesis
    proof (cases "update_all h ks ss")
      case (Ok ss')
      with Cons.IH have "ok_of (mapR (\<lambda>(k, s). p k s) (zip ks ss')) = ok_of (mapR (\<lambda>(k, s). bindR (h k s) (p k)) (zip ks ss))" by simp
      with \<open>h k s = Ok s'\<close> Ok show ?thesis by (simp add: ok_of_bindR)
    next
      case (Err e)
      with Cons.IH have "ok_of (mapR (\<lambda>(k, s). bindR (h k s) (p k)) (zip ks ss)) = None" by simp
      with \<open>h k s = Ok s'\<close> Err show ?thesis by (simp add: ok_of_bindR)
    qed
  qed simp
qed simp

lemma update_all_length: "update_all h ks ss = Ok ss' \<Longrightarrow> length ss' = length ss"
  by (induction h ks ss arbitrary: ss' rule: update_all.induct) (auto simp: bindR_Ok_iff)

lemma foldR_update_all:
  "length ks = length ss \<Longrightarrow> ok_of (foldR (\<lambda>ss x. update_all (\<lambda>k s. g k s x) ks ss) ss xs) =
    ok_of (mapR (\<lambda>(k, s). foldR (g k) s xs) (zip ks ss))"
proof (induction xs arbitrary: ss)
  case Nil
  then show ?case using mapR_Ok [of snd "zip ks ss"] by (simp add: case_prod_beta')
next
  case (Cons x xs)
  have "ok_of (foldR (\<lambda>ss x. update_all (\<lambda>k s. g k s x) ks ss) ss (x # xs)) =
      ok_of (bindR (update_all (\<lambda>k s. g k s x) ks ss) (\<lambda>ss. mapR (\<lambda>(k, s). foldR (g k) s xs) (zip ks ss)))"
    using Cons.IH Cons.prems by (cases "update_all (\<lambda>k s. g k s x) ks ss") (auto dest: update_all_length)
  also have "\<dots> = ok_of (mapR (\<lambda>(k, s). foldR (g k) s (x # xs)) (zip ks ss))"
    using update_all_then [OF Cons.prems] by simp
  finally show ?case .
qed

lemma foldR_map: "foldR f s (map g xs) = foldR (\<lambda>s x. f s (g x)) s xs"
  by (induction xs arbitrary: s) (auto intro: bindR_cong)

subsection \<open>The columnar kernels\<close>

lemma foldR_pure: "foldR (\<lambda>s x. Ok (f s x)) s xs = Ok (foldl f s xs)"
  by (induction xs arbitrary: s) auto

fun state_for :: "agg_kind \<Rightarrow> agg_state \<Rightarrow> bool" where
  "state_for (KCount _) (SCount _) = True"
| "state_for (KSum _) (SSum _) = True"
| "state_for (KAvg _) (SAvg _ _) = True"
| "state_for (KMin _) (SMin _) = True"
| "state_for (KMax _) (SMax _) = True"
| "state_for _ _ = False"

fun holds_only :: "(sql_value \<Rightarrow> bool) \<Rightarrow> agg_state \<Rightarrow> bool" where
  "holds_only P (SSum acc) = pred_option P acc"
| "holds_only P (SMin best) = pred_option P best"
| "holds_only P (SMax best) = pred_option P best"
| "holds_only P _ = True"

fun cell_of :: "chunk_column \<Rightarrow> sql_value \<Rightarrow> bool" where
  "cell_of (CInt _) v = (\<exists>n. v = VInt n)"
| "cell_of (CFloat _) v = (\<exists>x. v = VFloat x)"
| "cell_of _ v = True"

lemma nonnull_cells:
  assumes "\<And>x. c x \<noteq> VNull"
  shows "filter (\<lambda>v. v \<noteq> VNull) (map (opt_value c) vs) = map c (flatten vs)"
  using assms by (induction vs) (auto simp: flatten_def List.map_filter_def opt_value_def)

lemma foldR_cells:
  assumes "kind_column k \<noteq> None" "\<And>x. c x \<noteq> VNull"
  shows "foldR (update_value k) s (map (opt_value c) vs) = foldR (update_value k) s (map c (flatten vs))"
  using foldR_update_nonnull [OF assms(1), of s "map (opt_value c) vs"] unfolding nonnull_cells [of c, OF assms(2)] .

lemma sum_kernel_int:
  "foldR sum_step (map_option VInt tot) (map VInt xs) = bindR (foldR int_sum_step tot xs) (\<lambda>t. Ok (map_option VInt t))"
  unfolding foldR_map
  by (rule foldR_wrap) (auto simp: sum_step_def int_sum_step_def eval_binary_def int_arith_def split: option.split)

lemma best_kernel_int:
  "foldR (best_step m) (map_option VInt cur) (map VInt xs) = Ok (map_option VInt (foldl (int_best_step m) cur xs))"
proof (induction xs arbitrary: cur)
  case (Cons x xs)
  have "best_step m (map_option VInt cur) (VInt x) = Ok (map_option VInt (int_best_step m cur x))"
    by (auto simp: best_step_def int_best_step_def cmp_by_def split: option.split)
  then show ?case by (simp add: Cons.IH)
qed simp

lemma sum_kernel_float:
  "foldR sum_step (map_option VFloat tot) (map VFloat xs) = Ok (map_option VFloat (foldl float_sum_step tot xs))"
proof (induction xs arbitrary: tot)
  case (Cons x xs)
  have "sum_step (map_option VFloat tot) (VFloat x) = Ok (map_option VFloat (float_sum_step tot x))"
    by (auto simp: sum_step_def float_sum_step_def eval_binary_def float_arith_def split: option.split)
  then show ?case by (simp add: Cons.IH)
qed simp

lemma best_kernel_float:
  "foldR (best_step m) (map_option VFloat cur) (map VFloat xs) = bindR (foldR (float_best_step m) cur xs) (\<lambda>c. Ok (map_option VFloat c))"
  unfolding foldR_map
  by (rule foldR_wrap) (auto simp: best_step_def float_best_step_def split: option.split)

lemma avg_kernel:
  assumes "\<And>x tot n. update_value (KAvg i) (SAvg tot n) (c x) = on_avg (SAvg tot n) (avg_add (d x))"
  shows "foldR (update_value (KAvg i)) (SAvg tot n) (map c xs) = on_avg (SAvg tot n) (fold (\<lambda>x. avg_add (d x)) xs)"
  by (induction xs arbitrary: tot n) (auto simp: assms on_avg_def avg_add_def split: prod.split)

lemmas kernel_simps = foldR_sum foldR_min foldR_max kind_is_min_def on_sum_def on_best_def

lemma apply_int_fold:
  assumes "state_for k s" "holds_only (cell_of (CInt ws)) s" "kind_func k \<noteq> Count"
  shows "apply_int k s vs = foldR (update_value k) s (map (opt_value VInt) vs)"
proof -
  have "kind_column k \<noteq> None" using assms(3) by (cases k) (auto simp: kind_column_def)
  then have cells: "foldR (update_value k) s (map (opt_value VInt) vs) = foldR (update_value k) s (map VInt (flatten vs))"
    by (rule foldR_cells) simp
  have held: "\<exists>tot. acc = map_option VInt tot \<and> held_int acc = Ok tot" if "pred_option (cell_of (CInt ws)) acc" for acc
    using that by (cases acc) (auto simp: held_int_def)
  show ?thesis unfolding cells
  proof (cases "(k, s)" rule: state_for.cases)
    case (3 i tot n)
    then show "apply_int k s vs = foldR (update_value k) s (map VInt (flatten vs))"
      by (simp add: apply_int_def avg_kernel [where d = "\<lambda>x. f64_of_int (sint x)"] update_value_def)
  qed (use assms held in \<open>fastforce simp: apply_int_def kernel_simps sum_kernel_int best_kernel_int\<close>)+
qed

lemma apply_float_fold:
  assumes "state_for k s" "holds_only (cell_of (CFloat ws)) s" "kind_func k \<noteq> Count"
  shows "apply_float k s vs = foldR (update_value k) s (map (opt_value VFloat) vs)"
proof -
  have "kind_column k \<noteq> None" using assms(3) by (cases k) (auto simp: kind_column_def)
  then have cells: "foldR (update_value k) s (map (opt_value VFloat) vs) = foldR (update_value k) s (map VFloat (flatten vs))"
    by (rule foldR_cells) simp
  have held: "\<exists>tot. acc = map_option VFloat tot \<and> held_float acc = Ok tot" if "pred_option (cell_of (CFloat ws)) acc" for acc
    using that by (cases acc) (auto simp: held_float_def)
  show ?thesis unfolding cells
  proof (cases "(k, s)" rule: state_for.cases)
    case (3 i tot n)
    then show "apply_float k s vs = foldR (update_value k) s (map VFloat (flatten vs))"
      by (simp add: apply_float_def avg_kernel [where d = "\<lambda>x. x"] update_value_def)
  qed (use assms held in \<open>fastforce simp: apply_float_def kernel_simps sum_kernel_float best_kernel_float\<close>)+
qed

text \<open>The accumulator keeps to the type of the values it is fed.\<close>

lemma sum_value_Ok:
  assumes "sum_value acc v = Ok x" "v \<noteq> VNull"
  shows "acc = None \<and> x = v \<or> (\<exists>a. acc = Some a \<and> eval_binary Add a v = Ok x)"
proof -
  have "sum_step acc v = Ok (Some x)" using assms sum_value_step [of v acc] by simp
  then show ?thesis by (auto simp: sum_step_def bindR_Ok_iff split: option.splits)
qed

lemma best_value_Ok: "best_value m best v = Ok x \<Longrightarrow> x = v \<or> best = Some x"
  by (auto simp: best_value_def bindR_Ok_iff split: option.splits if_splits)

lemma update_value_state: "update_value k s v = Ok s' \<Longrightarrow> state_for k s \<Longrightarrow> state_for k s'"
  by (cases "(k, s)" rule: state_for.cases) (auto simp: update_defs bindR_Ok_iff split: if_splits option.splits sql_value.splits prod.splits)

lemma update_value_holds:
  assumes "update_value k s v = Ok s'" "state_for k s" "holds_only P s" "v \<noteq> VNull \<Longrightarrow> P v"
    and add: "\<And>a b c. P a \<Longrightarrow> P b \<Longrightarrow> eval_binary Add a b = Ok c \<Longrightarrow> P c"
  shows "holds_only P s'"
proof (cases "v = VNull")
  case False
  with assms(4) have v: "P v" by simp
  show ?thesis
    using assms(1-3) False v
    by (cases "(k, s)" rule: state_for.cases)
      (auto simp: update_defs bindR_Ok_iff split: option.splits sql_value.splits prod.splits dest!: sum_value_Ok best_value_Ok dest: add)
next
  case True
  with assms(1-3) show ?thesis
    by (cases "(k, s)" rule: state_for.cases) (auto simp: update_defs split: option.splits prod.splits)
qed

lemma foldR_update_keeps:
  assumes "foldR (update_value k) s vs = Ok s'" "state_for k s" "holds_only P s" "\<forall>v \<in> set vs. v \<noteq> VNull \<longrightarrow> P v"
    and add: "\<And>a b c. P a \<Longrightarrow> P b \<Longrightarrow> eval_binary Add a b = Ok c \<Longrightarrow> P c"
  shows "state_for k s' \<and> holds_only P s'"
  using assms(1-4)
proof (induction vs arbitrary: s)
  case (Cons v vs)
  then obtain t where t: "update_value k s v = Ok t" "foldR (update_value k) t vs = Ok s'" by (auto simp: bindR_Ok_iff)
  have "state_for k t" using update_value_state [OF t(1) Cons.prems(2)] .
  moreover have "holds_only P t" using update_value_holds [OF t(1) Cons.prems(2,3) _ add] Cons.prems(4) by auto
  ultimately show ?case using Cons.IH [OF t(2)] Cons.prems(4) by simp
qed simp

text \<open>The type of a column, as the empty column of it.\<close>

fun column_type :: "chunk_column \<Rightarrow> chunk_column" where
  "column_type (CBool _) = CBool []"
| "column_type (CInt _) = CInt []"
| "column_type (CFloat _) = CFloat []"
| "column_type (CStr _) = CStr []"
| "column_type (CDate _) = CDate []"

lemma cell_of_add: "cell_of c a \<Longrightarrow> cell_of c b \<Longrightarrow> eval_binary Add a b = Ok d \<Longrightarrow> cell_of c d"
  by (cases c) (auto simp: eval_binary_def int_arith_def float_arith_def Let_def split: option.splits)

lemma cell_of_values: "v \<in> set (column_values c) \<Longrightarrow> v \<noteq> VNull \<Longrightarrow> cell_of c v"
  by (cases c) (auto simp: opt_value_def split: option.splits)

lemma cell_of_type: "column_type c = column_type d \<Longrightarrow> cell_of c = cell_of d"
  by (cases c; cases d) auto

lemma count_present_values: "count_present c = length (filter (\<lambda>v. v \<noteq> VNull) (column_values c))"
  by (cases c) (auto simp: count_present_def opt_value_def filter_map comp_def intro!: arg_cong [where f = length] filter_cong split: option.split)

lemma kind_values_chunk:
  assumes "chunk_ok ck" "kind_column k = Some i" "i < length (ck_columns ck)"
  shows "map (kind_value k) (chunk_rows ck) = column_values (ck_columns ck ! i)"
proof -
  have "length (column_values (ck_columns ck ! i)) = ck_len ck" using assms(1,3) by (simp add: chunk_ok_def)
  with assms(2,3) show ?thesis by (intro nth_equalityI) (auto simp: chunk_rows_def kind_value_def)
qed

lemma update_row_values:
  assumes "chunk_ok ck" "kind_column k = Some c" "c < length (ck_columns ck)" "i < ck_len ck"
  shows "update_row k s ck i = update_value k s (column_values (ck_columns ck ! c) ! i)"
  using assms by (simp add: update_row_def chunk_column_at_def column_value_nth idx_def chunk_ok_def)

lemma update_state_fold:
  assumes ck: "chunk_ok ck" and s: "state_for k s"
    and col: "\<And>i. kind_column k = Some i \<Longrightarrow> i < length (ck_columns ck) \<and> holds_only (cell_of (ck_columns ck ! i)) s"
  shows "update_state k s ck = foldR (update_value k) s (map (kind_value k) (chunk_rows ck))"
proof (cases "kind_column k")
  case None
  then have k: "k = KCount None" by (cases k) (auto simp: kind_column_def)
  with s obtain n where "s = SCount n" by (cases s) auto
  with k show ?thesis by (simp add: update_state_def on_count_def foldR_count chunk_rows_def)
next
  case (Some i)
  let ?c = "ck_columns ck ! i"
  note i = col [OF Some]
  have rows: "map (kind_value k) (chunk_rows ck) = column_values ?c" using kind_values_chunk [OF ck Some] i by simp
  have at: "chunk_column_at ck i = Ok ?c" using i by (simp add: chunk_column_at_def idx_def)
  have slow: "foldR (\<lambda>s j. update_row k s ck j) s [0..<ck_len ck] = foldR (update_value k) s (column_values ?c)"
  proof -
    have "foldR (\<lambda>s j. update_row k s ck j) s [0..<ck_len ck] = foldR (\<lambda>s j. update_value k s (column_values ?c ! j)) s [0..<ck_len ck]"
      using update_row_values [OF ck Some] i by (intro foldR_cong) auto
    also have "\<dots> = foldR (update_value k) s (map ((!) (column_values ?c)) [0..<ck_len ck])" by (simp add: foldR_map)
    also have "map ((!) (column_values ?c)) [0..<ck_len ck] = column_values ?c"
      using ck i map_nth [of "column_values ?c"] by (simp add: chunk_ok_def)
    finally show ?thesis .
  qed
  have "update_state k s ck = foldR (update_value k) s (column_values ?c)"
  proof (cases "kind_func k = Count")
    case True
    with Some have k: "k = KCount (Some i)" by (cases k) (auto simp: kind_column_def)
    with s obtain n where "s = SCount n" by (cases s) auto
    with k at show ?thesis by (simp add: update_state_def on_count_def foldR_count count_present_values)
  next
    case False
    then have "update_state k s ck = (case ?c of CInt vs \<Rightarrow> apply_int k s vs | CFloat vs \<Rightarrow> apply_float k s vs
        | _ \<Rightarrow> foldR (\<lambda>s j. update_row k s ck j) s [0..<ck_len ck])"
      using Some at by (cases k) (auto simp: update_state_def kind_column_def)
    with s i slow False show ?thesis by (cases ?c) (auto simp: apply_int_fold apply_float_fold)
  qed
  with rows show ?thesis by simp
qed

text \<open>A chunk built from rows gives a column without any value the string type; it fits every type.\<close>

definition column_fits :: "chunk_column \<Rightarrow> chunk_column \<Rightarrow> bool" where
  "column_fits t c \<longleftrightarrow> column_type c = column_type t \<or> column_type c = CStr [] \<and> (\<forall>v \<in> set (column_values c). v = VNull)"

lemma column_fits_cells:
  assumes "column_fits t c"
  shows "holds_only (cell_of t) s \<Longrightarrow> holds_only (cell_of c) s" "v \<in> set (column_values c) \<Longrightarrow> v \<noteq> VNull \<Longrightarrow> cell_of t v"
proof -
  show "cell_of t v" if "v \<in> set (column_values c)" "v \<noteq> VNull"
    using assms cell_of_type [of c t] cell_of_values [OF that] that by (auto simp: column_fits_def)
  show "holds_only (cell_of c) s" if "holds_only (cell_of t) s"
  proof (cases "column_type c = column_type t")
    case True
    with that show ?thesis using cell_of_type [of c t] by simp
  next
    case False
    then have "cell_of c = (\<lambda>_. True)" using assms by (cases c) (auto simp: column_fits_def)
    then show ?thesis by (cases s) (auto simp: pred_option_def)
  qed
qed

lemma update_state_chunks:
  assumes "\<forall>ck \<in> set cks. chunk_ok ck \<and> list_all2 column_fits types (ck_columns ck)"
    and "state_for k s" "\<And>i. kind_column k = Some i \<Longrightarrow> i < length types \<and> holds_only (cell_of (types ! i)) s"
  shows "foldR (update_state k) s cks = foldR (update_value k) s (map (kind_value k) (concat (map chunk_rows cks)))"
  using assms
proof (induction cks arbitrary: s)
  case (Cons ck cks)
  let ?vs = "map (kind_value k) (chunk_rows ck)"
  have types: "list_all2 column_fits types (ck_columns ck)" and ok: "chunk_ok ck" using Cons.prems(1) by auto
  note len = list_all2_lengthD [OF types]
  note fits = column_fits_cells [OF list_all2_nthD [OF types]]
  have here: "update_state k s ck = foldR (update_value k) s ?vs"
    using Cons.prems fits len by (intro update_state_fold [OF ok]) auto
  show ?case
  proof (cases "foldR (update_value k) s ?vs")
    case (Ok t)
    have "state_for k t \<and> (\<forall>i. kind_column k = Some i \<longrightarrow> i < length types \<and> holds_only (cell_of (types ! i)) t)"
    proof (cases "kind_column k")
      case None
      then show ?thesis using foldR_update_keeps [OF Ok Cons.prems(2), of "\<lambda>_. True"] by (cases s) (auto simp: pred_option_def)
    next
      case (Some i)
      with Cons.prems(3) have i: "i < length types" "holds_only (cell_of (types ! i)) s" by auto
      have "?vs = column_values (ck_columns ck ! i)" using kind_values_chunk [OF ok Some] i(1) len by simp
      then have "\<forall>v \<in> set ?vs. v \<noteq> VNull \<longrightarrow> cell_of (types ! i) v" using fits(2) [OF i(1)] by simp
      from foldR_update_keeps [OF Ok Cons.prems(2) i(2) this cell_of_add] Some i(1) show ?thesis by simp
    qed
    with Cons.IH [of t] Cons.prems(1) Ok here show ?thesis by (simp add: foldR_append)
  qed (simp add: here foldR_append)
qed simp

text \<open>Whatever the types, a kernel that succeeds gives what folding the values gives; otherwise it refuses the type.\<close>

lemma update_state_success:
  assumes ck: "chunk_ok ck" and s: "state_for k s" and col: "\<And>i. kind_column k = Some i \<Longrightarrow> i < length (ck_columns ck)"
    and up: "update_state k s ck = Ok t"
  shows "foldR (update_value k) s (map (kind_value k) (chunk_rows ck)) = Ok t"
proof -
  have "holds_only (cell_of (ck_columns ck ! i)) s" if i: "kind_column k = Some i" for i
  proof -
    have "chunk_column_at ck i = Ok (ck_columns ck ! i)" using col [OF i] by (simp add: chunk_column_at_def idx_def)
    with up i s show ?thesis
      by (cases "ck_columns ck ! i"; cases k; cases s)
        (auto simp: update_state_def kind_column_def apply_int_def apply_float_def on_sum_def on_best_def held_int_def held_float_def
          bindR_Ok_iff pred_option_def split: option.splits sql_value.splits)
  qed
  with update_state_fold [OF ck s] col up show ?thesis by simp
qed

lemma update_chunks_success:
  assumes "\<forall>ck \<in> set cks. chunk_ok ck \<and> (\<forall>i. kind_column k = Some i \<longrightarrow> i < length (ck_columns ck))" "state_for k s"
    and "foldR (update_state k) s cks = Ok t"
  shows "foldR (update_value k) s (map (kind_value k) (concat (map chunk_rows cks))) = Ok t"
  using assms
proof (induction cks arbitrary: s)
  case (Cons ck cks)
  then obtain u where u: "update_state k s ck = Ok u" "foldR (update_state k) u cks = Ok t" by (auto simp: bindR_Ok_iff)
  have f: "foldR (update_value k) s (map (kind_value k) (chunk_rows ck)) = Ok u"
    using update_state_success [of ck k s u] Cons.prems(1,2) u(1) by simp
  have "holds_only (\<lambda>_. True) s" by (cases s) (auto simp: pred_option_def)
  from foldR_update_keeps [OF f Cons.prems(2) this] have "state_for k u" by simp
  with Cons.IH [of u] Cons.prems(1) u(2) f show ?case by (simp add: foldR_append)
qed simp

subsection \<open>The global aggregate\<close>

text \<open>A child whose paths all deliver the same rows, and the same error at the end, if any.\<close>

definition delivers :: "schema \<Rightarrow> child_paths \<Rightarrow> row list \<Rightarrow> error option \<Rightarrow> bool" where
  "delivers sc child rows err \<longleftrightarrow>
     (\<forall>r \<in> set rows. length r = length sc) \<and>
     (\<forall>cols. projected_path child cols = None \<or> projected_path child cols = Some (map (\<lambda>r. map ((!) r) cols) rows, err)) \<and>
     (fused_path child = None \<or> fused_path child = Some (rows, err)) \<and>
     snd (chunk_path child) = err \<and> concat (map chunk_rows (fst (chunk_path child))) = rows \<and>
     (\<forall>ck \<in> set (fst (chunk_path child)). chunk_ok ck \<and> length (ck_columns ck) = length sc)"

text \<open>
  All chunks give a column the same type, as the chunks of a table do; a column without a value fits every type. The chunks that
  \<open>next_chunk\<close> makes of single rows by default take their types from the values, and need not have this property.
\<close>

definition one_type :: "child_paths \<Rightarrow> bool" where
  "one_type child \<longleftrightarrow> (\<exists>types. \<forall>ck \<in> set (fst (chunk_path child)). list_all2 column_fits types (ck_columns ck))"

lemma set_add_columns: "set (foldl add_column acc cs) = set acc \<union> set cs"
  by (induction cs arbitrary: acc) (auto simp: add_column_def)

lemma slot_of_column:
  assumes "c \<in> set cols"
  obtains j where "slot_of cols c = Ok j" "j < length cols" "cols ! j = c"
  using assms by (cases "position ((=) c) cols") (auto simp: slot_of_def position_None dest: position_Some position_bound)

lemma slots_of_kinds:
  assumes "\<forall>k \<in> set kinds. \<forall>c. kind_column k = Some c \<longrightarrow> c \<in> set cols"
  obtains slots where "slots_of cols kinds = Ok slots"
    "\<And>r. list_all2 (\<lambda>k at. slot_value (map ((!) r) cols) at = Ok (kind_value k r)) kinds slots"
  using assms
proof (induction kinds arbitrary: thesis)
  case Nil
  then show ?case by (simp add: slots_of_def)
next
  case (Cons k kinds)
  then obtain slots where slots: "slots_of cols kinds = Ok slots"
    "\<And>r. list_all2 (\<lambda>k at. slot_value (map ((!) r) cols) at = Ok (kind_value k r)) kinds slots" by auto
  show ?case
  proof (cases "kind_column k")
    case None
    with slots show ?thesis by (intro Cons.prems(1) [of "None # slots"]) (auto simp: slots_of_def slot_value_def kind_value_def)
  next
    case (Some c)
    with Cons.prems(2) obtain j where "slot_of cols c = Ok j" "j < length cols" "cols ! j = c" by (auto elim: slot_of_column)
    with slots Some show ?thesis
      by (intro Cons.prems(1) [of "Some j # slots"]) (auto simp: slots_of_def slot_value_def kind_value_def idx_def)
  qed
qed

lemma update_slots_values:
  "list_all2 (\<lambda>k at. slot_value vs at = Ok (kind_value k r)) kinds slots \<Longrightarrow>
    update_slots kinds slots states vs = update_all (\<lambda>k s. update_value k s (kind_value k r)) kinds states"
proof (induction kinds slots arbitrary: states rule: list_all2_induct)
  case (Cons k kinds at slots)
  then show ?case by (cases states) (auto simp: update_slots_def intro!: bindR_cong)
qed (simp add: update_slots_def)

lemma kind_column_bound: "agg_kind_of sc e = Some k \<Longrightarrow> kind_column k = Some i \<Longrightarrow> i < length sc"
  by (erule agg_kind_shape) (auto dest: column_index_eval(1) split: option.splits)

definition reference_states :: "agg_kind list \<Rightarrow> row list \<Rightarrow> agg_state list result" where
  "reference_states kinds rows = mapR (\<lambda>k. foldR (update_value k) (new_state k) (map (kind_value k) rows)) kinds"

lemma mapR_zip_map: "mapR (\<lambda>(k, s). f k s) (zip ks (map g ks)) = mapR (\<lambda>k. f k (g k)) ks"
  by (induction ks) auto

lemma foldR_update_rows:
  "ok_of (foldR (\<lambda>ss r. update_all (\<lambda>k s. update_value k s (kind_value k r)) kinds ss) (map new_state kinds) rows) =
   ok_of (reference_states kinds rows)"
proof -
  have "mapR (\<lambda>(k, s). foldR (\<lambda>s r. update_value k s (kind_value k r)) s rows) (zip kinds (map new_state kinds)) = reference_states kinds rows"
    by (simp only: reference_states_def mapR_zip_map foldR_map)
  then show ?thesis
    using foldR_update_all [of kinds "map new_state kinds" "\<lambda>k s r. update_value k s (kind_value k r)" rows] by simp
qed

lemma new_state_fits: "state_for k (new_state k)" "holds_only P (new_state k)"
  by (cases k; simp add: new_state_def)+

definition after :: "error option \<Rightarrow> 'a result \<Rightarrow> 'a result" where
  "after err m = (case err of None \<Rightarrow> m | Some e \<Rightarrow> Err e)"

lemma ok_of_foldS: "ok_of (foldS f s (xs, err)) = ok_of (after err (foldR f s xs))"
  by (auto simp: foldS_def after_def ok_of_bindR bindR_Ok_right split: option.split)

lemma ok_of_after: "ok_of m = ok_of m' \<Longrightarrow> ok_of (after err m) = ok_of (after err m')"
  by (simp add: after_def split: option.split)

lemma global_states_rows:
  assumes d: "delivers sc child rows err" and cols: "\<And>k i. k \<in> set kinds \<Longrightarrow> kind_column k = Some i \<Longrightarrow> i < length sc"
  shows "ok_of (global_states kinds child) =
    (if projected_path child (aggregate_columns kinds) = None \<and> fused_path child = None
     then ok_of (after err (mapR (\<lambda>k. foldR (update_state k) (new_state k) (fst (chunk_path child))) kinds))
     else ok_of (after err (reference_states kinds rows)))"
proof -
  let ?cols = "aggregate_columns kinds"
  have "\<forall>k \<in> set kinds. \<forall>c. kind_column k = Some c \<longrightarrow> c \<in> set ?cols"
    by (auto simp: aggregate_columns_def set_add_columns List.map_filter_def image_iff)
  then obtain slots where slots: "slots_of ?cols kinds = Ok slots"
    "\<And>r. list_all2 (\<lambda>k at. slot_value (map ((!) r) ?cols) at = Ok (kind_value k r)) kinds slots"
    by (rule slots_of_kinds) (rule that)
  obtain cks where cks: "chunk_path child = (cks, err)" using d by (cases "chunk_path child") (auto simp: delivers_def)
  have width: "list_all2 (\<lambda>k at. slot_value r at = Ok (kind_value k r)) kinds (map kind_column kinds)" if "r \<in> set rows" for r
    using that d cols by (auto simp: list_all2_map2 list_all2_same slot_value_def kind_value_def idx_def delivers_def split: option.split)
  have fused: "foldR (update_slots kinds (map kind_column kinds)) (map new_state kinds) rows =
      foldR (\<lambda>ss r. update_all (\<lambda>k s. update_value k s (kind_value k r)) kinds ss) (map new_state kinds) rows"
    by (rule foldR_cong) (auto dest: width intro: update_slots_values)
  have projected: "foldR (update_slots kinds slots) (map new_state kinds) (map (\<lambda>r. map ((!) r) ?cols) rows) =
      foldR (\<lambda>ss r. update_all (\<lambda>k s. update_value k s (kind_value k r)) kinds ss) (map new_state kinds) rows"
    unfolding foldR_map by (rule foldR_cong) (auto intro: update_slots_values slots(2))
  have chunks: "ok_of (foldR (\<lambda>ss ck. update_all (\<lambda>k s. update_state k s ck) kinds ss) (map new_state kinds) cks) =
      ok_of (mapR (\<lambda>k. foldR (update_state k) (new_state k) cks) kinds)"
    using foldR_update_all [of kinds "map new_state kinds" "\<lambda>k s ck. update_state k s ck" cks]
    by (simp only: length_map mapR_zip_map [of "\<lambda>k s. foldR (update_state k) s cks"])
  have paths: "projected_path child ?cols = None \<or> projected_path child ?cols = Some (map (\<lambda>r. map ((!) r) ?cols) rows, err)"
      "fused_path child = None \<or> fused_path child = Some (rows, err)"
    using d by (simp_all add: delivers_def)
  note agree = ok_of_after [OF chunks, of err] ok_of_after [OF foldR_update_rows, of err kinds rows]
  from paths show ?thesis
    by (elim disjE) (simp_all add: global_states_def Let_def slots(1) cks ok_of_foldS fused projected agree)
qed

lemma global_states_reference:
  assumes d: "delivers sc child rows err" and cols: "\<And>k i. k \<in> set kinds \<Longrightarrow> kind_column k = Some i \<Longrightarrow> i < length sc"
    and t: "one_type child \<or> fused_path child \<noteq> None \<or> projected_path child (aggregate_columns kinds) \<noteq> None"
  shows "ok_of (global_states kinds child) = ok_of (after err (reference_states kinds rows))"
proof (cases "projected_path child (aggregate_columns kinds) = None \<and> fused_path child = None")
  case True
  with t obtain types where types: "\<forall>ck \<in> set (fst (chunk_path child)). list_all2 column_fits types (ck_columns ck)" by (auto simp: one_type_def)
  have c: "\<forall>ck \<in> set (fst (chunk_path child)). chunk_ok ck \<and> length (ck_columns ck) = length sc"
      "concat (map chunk_rows (fst (chunk_path child))) = rows" using d by (auto simp: delivers_def)
  have "foldR (update_state k) (new_state k) (fst (chunk_path child)) = foldR (update_value k) (new_state k) (map (kind_value k) rows)"
    if k: "k \<in> set kinds" for k
  proof (cases "fst (chunk_path child)")
    case Nil
    with c(2) show ?thesis by auto
  next
    case (Cons ck cks)
    then have "length types = length sc" using types c(1) list_all2_lengthD by fastforce
    then show ?thesis
      using k cols c types new_state_fits update_state_chunks [of "fst (chunk_path child)" types k "new_state k"] by auto
  qed
  then have "mapR (\<lambda>k. foldR (update_state k) (new_state k) (fst (chunk_path child))) kinds = reference_states kinds rows"
    unfolding reference_states_def by (intro mapR_cong) auto
  with True show ?thesis by (simp add: global_states_rows [OF d cols])
qed (auto simp: global_states_rows [OF d cols])

lemma global_states_success:
  assumes d: "delivers sc child rows err" and cols: "\<And>k i. k \<in> set kinds \<Longrightarrow> kind_column k = Some i \<Longrightarrow> i < length sc"
    and ok: "global_states kinds child = Ok states"
  shows "after err (reference_states kinds rows) = Ok states"
proof (cases "projected_path child (aggregate_columns kinds) = None \<and> fused_path child = None")
  case True
  have c: "\<forall>ck \<in> set (fst (chunk_path child)). chunk_ok ck \<and> length (ck_columns ck) = length sc"
      "concat (map chunk_rows (fst (chunk_path child))) = rows" using d by (auto simp: delivers_def)
  have "ok_of (after err (mapR (\<lambda>k. foldR (update_state k) (new_state k) (fst (chunk_path child))) kinds)) = Some states"
    using global_states_rows [OF d, of kinds] cols True ok by simp
  then have e: "err = None" "mapR (\<lambda>k. foldR (update_state k) (new_state k) (fst (chunk_path child))) kinds = Ok states"
    by (auto simp: after_def ok_of_Some split: option.splits)
  have "foldR (update_value k) (new_state k) (map (kind_value k) rows) = Ok s"
    if "k \<in> set kinds" "foldR (update_state k) (new_state k) (fst (chunk_path child)) = Ok s" for k s
    using update_chunks_success [of "fst (chunk_path child)" k "new_state k" s] that c cols new_state_fits by auto
  then have "reference_states kinds rows = Ok states"
    using e(2) unfolding reference_states_def mapR_Ok_iff by (auto simp: list_all2_conv_all_nth)
  with e(1) show ?thesis by (simp add: after_def)
next
  case False
  with global_states_rows [OF d, of kinds] cols ok have "ok_of (after err (reference_states kinds rows)) = Some states" by auto
  then show ?thesis by (simp add: ok_of_Some)
qed

lemma those_kinds_iff: "those_kinds sc es = Some ks \<longleftrightarrow> list_all2 (\<lambda>e k. agg_kind_of sc e = Some k) es ks"
  by (induction sc es arbitrary: ks rule: those_kinds.induct) (auto split: option.split simp: list_all2_Cons1)

lemma reference_states_eval:
  assumes "list_all2 (\<lambda>e k. agg_kind_of sc e = Some k) es ks" "\<forall>r \<in> set rows. length r = length sc" "length rows < 2 ^ 63"
  shows "mapR (\<lambda>e. eval_bound tx run e (Some (EvalCtx (GroupScope sc rows) outer))) es =
    bindR (reference_states ks rows) (\<lambda>ss. Ok (map finish ss))"
  using assms(1)
proof (induction rule: list_all2_induct)
  case (Cons e es k ks)
  have "\<not> expr_has_subquery e"
    by (rule agg_kind_shape [OF Cons.hyps(1)]) (auto dest: column_index_eval(2) split: option.splits)
  then have "eval_bound tx run e (Some (EvalCtx (GroupScope sc rows) outer)) =
      bindR (foldR (update_value k) (new_state k) (map (kind_value k) rows)) (\<lambda>s. Ok (finish s))"
    using stream_is_eval [OF Cons.hyps(1) assms(2,3)] by (simp add: eval_bound_def)
  with Cons.IH show ?case by (simp add: reference_states_def bindR_case split: result.split)
qed (simp add: reference_states_def)

definition items_of :: "expr list \<Rightarrow> select_item list \<Rightarrow> bool" where
  "items_of exprs items \<longleftrightarrow> list_all2 (\<lambda>e it. it = SExpr e \<or> (\<exists>a. it = SAliased e a)) exprs items"

lemma filterR_all: "(\<And>x. x \<in> set xs \<Longrightarrow> p x = Ok True) \<Longrightarrow> filterR p xs = Ok xs"
  by (induction xs) (auto simp: filterR_def bindR_Ok_iff)

lemma plain_grouped_select:
  assumes "plain_shape s" "\<not> list_ex expr_has_aggregate (sel_group_by s)" "sel_group_by s = [] \<Longrightarrow> \<not> list_ex item_has_column (sel_items s)"
  shows "grouped_select_rows tx run outer sc s rows exprs =
    bindR (if sel_group_by s = [] then Ok [([], rows)] else group_rows tx run outer sc (sel_group_by s) rows) (\<lambda>groups.
      mapR (\<lambda>g. mapR (\<lambda>e. eval_bound tx run e (Some (EvalCtx (GroupScope sc g) outer))) exprs) (map snd groups))"
proof -
  have "filterR (having_holds tx run outer sc None) gs = Ok gs" for gs by (rule filterR_all) (simp add: having_holds_def)
  with assms show ?thesis by (auto simp: grouped_select_rows_def plain_shape_def apply_limit_def intro!: bindR_cong)
qed

subsection \<open>The grouped aggregate\<close>

text \<open>Keys on which value equality is equality of encodings: no NaN, and strings the codec can hold.\<close>

fun key_value :: "sql_value \<Rightarrow> bool" where
  "key_value (VFloat x) = (\<not> f64_is_nan x)"
| "key_value v = inline_ok v"

lemma normalize_inline: "key_value v \<Longrightarrow> inline_ok (normalize_key v)"
  by (cases v) (auto simp: normalize_key_def)

lemma normalize_key_eq: "key_value v \<Longrightarrow> key_value w \<Longrightarrow> normalize_key v = normalize_key w \<longleftrightarrow> value_eq v w"
proof -
  have "f64_eq x 0 \<longleftrightarrow> f64_magnitude x = 0" for x
    by (auto simp: f64_eq_def f64_key_def f64_is_nan_def f64_magnitude_mod)
  then show "normalize_key v = normalize_key w \<longleftrightarrow> value_eq v w" if "key_value v" "key_value w"
    using that by (cases v; cases w) (auto simp: normalize_key_def f64_eq_def f64_key_eq f64_magnitude_def)
qed

lemma row_eq_encoding:
  assumes "length a = length b" "length a < 65536" "\<forall>v \<in> set a. key_value v" "\<forall>v \<in> set b. key_value v"
  shows "encode_row (map normalize_key a) = encode_row (map normalize_key b) \<longleftrightarrow> row_eq a b"
proof -
  have "map normalize_key a = map normalize_key b \<longleftrightarrow> row_eq a b"
    using assms(1,3,4) by (induction a b rule: list_induct2) (auto simp: row_eq_def normalize_key_eq)
  then show ?thesis
    using encode_row_inj [of "map normalize_key a" "map normalize_key b"] assms normalize_inline by auto
qed

definition group_step :: "agg_kind list \<Rightarrow> nat list \<Rightarrow> nat list \<Rightarrow> group_table \<Rightarrow> row \<Rightarrow> group_table result" where
  "group_step kinds gcols needed tab r =
     into_group kinds (map ((!) r) gcols) (Ok (map ((!) r) needed)) (update_all (\<lambda>k s. update_value k s (kind_value k r)) kinds) tab"

definition group_lookup :: "(row \<times> row list) list \<Rightarrow> byte list \<rightharpoonup> nat" where
  "group_lookup gs enc = position (\<lambda>g. encode_row (map normalize_key (fst g)) = enc) gs"

definition group_table :: "nat list \<Rightarrow> (row \<times> row list) list \<Rightarrow> agg_state list list \<Rightarrow> group_table" where
  "group_table needed gs sss =
     (map (\<lambda>((_, rs), ss). \<lparr> ag_states = ss, ag_first = map ((!) (hd rs)) needed \<rparr>) (zip gs sss), group_lookup gs)"

definition group_states :: "agg_kind list \<Rightarrow> (row \<times> row list) list \<Rightarrow> agg_state list list option" where
  "group_states kinds gs = ok_of (mapR (\<lambda>(_, rs). reference_states kinds rs) gs)"

lemma group_states_append:
  "group_states kinds (a @ b) = Option.bind (group_states kinds a) (\<lambda>x. Option.bind (group_states kinds b) (\<lambda>y. Some (x @ y)))"
  by (simp add: group_states_def mapR_append ok_of_bindR)

lemma group_states_Cons:
  "group_states kinds ((k, rs) # b) = Option.bind (ok_of (reference_states kinds rs)) (\<lambda>x. Option.bind (group_states kinds b) (\<lambda>y. Some (x # y)))"
  by (simp add: group_states_def ok_of_bindR)

lemma group_states_Nil [simp]: "group_states kinds [] = Some []"
  by (simp add: group_states_def)

lemma group_states_length: "group_states kinds gs = Some sss \<Longrightarrow> length sss = length gs"
  by (auto simp: group_states_def ok_of_Some mapR_Ok_iff dest: list_all2_lengthD)

lemma reference_states_snoc:
  "ok_of (reference_states kinds (rs @ [r])) =
    Option.bind (ok_of (reference_states kinds rs)) (\<lambda>ss. ok_of (update_all (\<lambda>k s. update_value k s (kind_value k r)) kinds ss))"
  unfolding foldR_update_rows [symmetric] foldR_append ok_of_bindR by (simp add: ok_of_bindR)

lemma reference_states_single:
  "ok_of (reference_states kinds [r]) = ok_of (update_all (\<lambda>k s. update_value k s (kind_value k r)) kinds (map new_state kinds))"
  unfolding foldR_update_rows [symmetric] by simp

lemma add_to_group_cases:
  obtains (old) pre k rs post where "gs = pre @ (k, rs) # post" "\<forall>g \<in> set pre. \<not> row_eq (fst g) key" "row_eq k key"
      "add_to_group key r gs = pre @ (k, rs @ [r]) # post"
    | (new) "\<forall>g \<in> set gs. \<not> row_eq (fst g) key" "add_to_group key r gs = gs @ [(key, [r])]"
proof (induction gs arbitrary: thesis)
  case (Cons g gs)
  obtain k rs where g: "g = (k, rs)" by (cases g)
  show ?case
  proof (cases "row_eq k key")
    case True
    with g show ?thesis by (intro Cons.prems(1) [of "[]" k rs gs]) auto
  next
    case False
    show ?thesis
    proof (rule Cons.IH)
      fix pre k' rs' post
      assume "gs = pre @ (k', rs') # post" "\<forall>g \<in> set pre. \<not> row_eq (fst g) key" "row_eq k' key"
        "add_to_group key r gs = pre @ (k', rs' @ [r]) # post"
      with False g show thesis by (intro Cons.prems(1) [of "(k, rs) # pre" k' rs' post]) auto
    next
      assume "\<forall>g \<in> set gs. \<not> row_eq (fst g) key" "add_to_group key r gs = gs @ [(key, [r])]"
      with False g show thesis by (intro Cons.prems(2)) auto
    qed
  qed
qed auto

lemma position_at: "\<forall>x \<in> set pre. \<not> P x \<Longrightarrow> P y \<Longrightarrow> position P (pre @ y # post) = Some (length pre)"
  by (induction pre) auto

lemma position_append: "position P (xs @ ys) = (case position P xs of Some i \<Rightarrow> Some i | None \<Rightarrow> map_option (\<lambda>i. i + length xs) (position P ys))"
  by (induction xs) (auto simp: option.map_comp comp_def option.map_ident split: option.split)

definition good_key :: "nat list \<Rightarrow> row \<Rightarrow> bool" where
  "good_key gcols k \<longleftrightarrow> length k = length gcols \<and> (\<forall>v \<in> set k. key_value v)"

lemma good_key_encoding:
  "length gcols < 65536 \<Longrightarrow> good_key gcols a \<Longrightarrow> good_key gcols b \<Longrightarrow>
    encode_row (map normalize_key a) = encode_row (map normalize_key b) \<longleftrightarrow> row_eq a b"
  by (rule row_eq_encoding) (auto simp: good_key_def)

lemma map_zip_update:
  "length a = length pre \<Longrightarrow> (map f (zip (pre @ g # post) (a @ b # c)))[length pre := y] = map f (zip pre a) @ y # map f (zip post c)"
  by (simp add: list_update_append)

lemma group_step_table:
  assumes sss: "group_states kinds gs = Some sss" and wide: "length gcols < 65536"
    and gs: "\<forall>g \<in> set gs. snd g \<noteq> [] \<and> good_key gcols (fst g)"
    and key: "good_key gcols key" and r: "key = map ((!) r) gcols"
  shows "ok_of (group_step kinds gcols needed (group_table needed gs sss) r) =
    map_option (group_table needed (add_to_group key r gs)) (group_states kinds (add_to_group key r gs))"
proof -
  let ?upd = "update_all (\<lambda>k s. update_value k s (kind_value k r)) kinds"
  let ?enc = "encode_row (map normalize_key key)"
  note enc = good_key_encoding [OF wide _ key]
  show ?thesis
  proof (cases rule: add_to_group_cases [of gs key r])
    case (old pre k rs post)
    from sss obtain a b c where abc: "sss = a @ b # c" "group_states kinds pre = Some a" "ok_of (reference_states kinds rs) = Some b"
      "group_states kinds post = Some c"
      by (auto simp: old(1) group_states_append group_states_Cons bind_eq_Some_conv)
    have la: "length a = length pre" using abc(2) by (rule group_states_length)
    have "group_lookup gs ?enc = Some (length pre)"
      unfolding group_lookup_def old(1) using gs old enc by (intro position_at) auto
    moreover have "group_lookup (pre @ (k, rs @ [r]) # post) = group_lookup gs"
      by (rule ext) (simp add: group_lookup_def old(1) position_append split: option.split)
    moreover have "hd (rs @ [r]) = hd rs" using gs old(1) by simp
    ultimately show ?thesis using la abc(3)
      by (cases "?upd b") (auto simp: group_step_def r [symmetric] into_group_def group_table_def old(1) old(4) [unfolded old(1)] abc idx_def nth_append group_states_append
        group_states_Cons reference_states_snoc list_update_append)
  next
    case new
    have ls: "length sss = length gs" using sss by (rule group_states_length)
    have "group_lookup gs ?enc = None"
      unfolding group_lookup_def position_None using gs new enc by auto
    moreover have "group_lookup (gs @ [(key, [r])]) = (group_lookup gs)(?enc \<mapsto> length gs)"
      using \<open>group_lookup gs ?enc = None\<close> by (intro ext) (auto simp: group_lookup_def position_append split: option.split)
    ultimately show ?thesis using ls sss
      by (cases "?upd (map new_state kinds)") (auto simp: group_step_def r [symmetric] into_group_def group_table_def new idx_def nth_append group_states_append
        group_states_Cons reference_states_single list_update_append) 
  qed
qed

definition grouped :: "nat list \<Rightarrow> row list \<Rightarrow> (row \<times> row list) list" where
  "grouped gcols rows = foldl (\<lambda>gs r. add_to_group (map ((!) r) gcols) r gs) [] rows"

lemma add_to_group_all:
  "\<forall>g \<in> set gs. snd g \<noteq> [] \<and> P (fst g) \<and> (\<forall>r \<in> set (snd g). Q r) \<Longrightarrow> P key \<Longrightarrow> Q r \<Longrightarrow>
    \<forall>g \<in> set (add_to_group key r gs). snd g \<noteq> [] \<and> P (fst g) \<and> (\<forall>r \<in> set (snd g). Q r)"
  by (induction key r gs rule: add_to_group.induct) auto

lemma grouped_all:
  "\<forall>r \<in> set rows. P (map ((!) r) gcols) \<and> Q r \<Longrightarrow> \<forall>g \<in> set (grouped gcols rows). snd g \<noteq> [] \<and> P (fst g) \<and> (\<forall>r \<in> set (snd g). Q r)"
proof (induction rows rule: rev_induct)
  case (snoc r rows)
  have "grouped gcols (rows @ [r]) = add_to_group (map ((!) r) gcols) r (grouped gcols rows)" by (simp add: grouped_def)
  moreover have "P (map ((!) r) gcols)" "Q r" "\<forall>r \<in> set rows. P (map ((!) r) gcols) \<and> Q r" using snoc.prems by simp_all
  ultimately show ?case using add_to_group_all [OF snoc.IH, where key = "map ((!) r) gcols" and r = r] by simp
qed (simp add: grouped_def)

lemma foldR_group_step:
  assumes wide: "length gcols < 65536" and keys: "\<forall>r \<in> set rows. good_key gcols (map ((!) r) gcols)"
  shows "ok_of (foldR (group_step kinds gcols needed) ([], Map.empty) rows) =
    map_option (group_table needed (grouped gcols rows)) (group_states kinds (grouped gcols rows))"
  using keys
proof (induction rows rule: rev_induct)
  case Nil
  show ?case by (simp add: grouped_def group_table_def group_lookup_def fun_eq_iff)
next
  case (snoc r rows)
  let ?gs = "grouped gcols rows" and ?key = "map ((!) r) gcols"
  have snoc_gs: "grouped gcols (rows @ [r]) = add_to_group ?key r ?gs" by (simp add: grouped_def)
  have IH: "ok_of (foldR (group_step kinds gcols needed) ([], Map.empty) rows) = map_option (group_table needed ?gs) (group_states kinds ?gs)"
    using snoc by simp
  show ?case
  proof (cases "group_states kinds ?gs")
    case None
    have "group_states kinds (add_to_group ?key r ?gs) = None"
    proof (cases rule: add_to_group_cases [of ?gs ?key r])
      case (old pre k rs post)
      then show ?thesis using None by (auto simp: group_states_append group_states_Cons reference_states_snoc bind_eq_None_conv)
    qed (use None in \<open>simp add: group_states_append\<close>)
    with None IH show ?thesis by (simp add: snoc_gs foldR_append ok_of_bindR)
  next
    case (Some sss)
    have "\<forall>g \<in> set ?gs. snd g \<noteq> [] \<and> good_key gcols (fst g)"
      using grouped_all [of rows "good_key gcols" gcols "\<lambda>_. True"] snoc.prems by simp
    from group_step_table [OF Some wide this _ refl, of r needed] snoc.prems IH Some show ?thesis
      by (simp add: snoc_gs foldR_append ok_of_bindR)
  qed
qed

lemma foldR_nested: "foldR (\<lambda>s x. foldR f s (g x)) s xs = foldR f s (concat (map g xs))"
  by (induction xs arbitrary: s) (auto simp: foldR_append)

lemma chunk_cell:
  assumes "chunk_ok ck" "i < ck_len ck" "c < length (ck_columns ck)"
  shows "bindR (chunk_column_at ck c) (\<lambda>col. column_value col i) = Ok (chunk_rows ck ! i ! c)"
  using assms by (simp add: chunk_column_at_def idx_def column_value_nth chunk_ok_def chunk_rows_def)

lemma group_chunk_row_step:
  assumes "chunk_ok ck" "i < ck_len ck" "\<forall>c \<in> set gcols \<union> set needed. c < length (ck_columns ck)"
    "\<forall>k \<in> set kinds. \<forall>c. kind_column k = Some c \<longrightarrow> c < length (ck_columns ck)"
  shows "group_chunk_row kinds gcols needed ck tab i = group_step kinds gcols needed tab (chunk_rows ck ! i)"
proof -
  have cells: "mapR (\<lambda>c. bindR (chunk_column_at ck c) (\<lambda>col. column_value col i)) cs = Ok (map ((!) (chunk_rows ck ! i)) cs)"
    if "\<forall>c \<in> set cs. c < length (ck_columns ck)" for cs
    using that chunk_cell [OF assms(1,2)] by (simp add: mapR_Ok_iff list_all2_map2 list_all2_same)
  have "update_all (\<lambda>k s. update_row k s ck i) kinds ss = update_all (\<lambda>k s. update_value k s (kind_value k (chunk_rows ck ! i))) kinds ss" for ss
    using assms(4)
  proof (induction kinds arbitrary: ss)
    case (Cons k kinds)
    have "update_row k s ck i = update_value k s (kind_value k (chunk_rows ck ! i))" for s
      using Cons.prems assms(1,2) update_row_values [OF assms(1) _ _ assms(2)]
      by (cases "kind_column k") (auto simp: update_row_def kind_value_def chunk_rows_def)
    with Cons show ?case by (cases ss) simp_all
  qed simp
  then have "update_all (\<lambda>k s. update_row k s ck i) kinds = update_all (\<lambda>k s. update_value k s (kind_value k (chunk_rows ck ! i))) kinds"
    by (rule ext)
  with assms(3) cells show ?thesis by (simp add: group_chunk_row_def group_step_def)
qed

lemma group_projected_step:
  assumes slots: "list_all2 (\<lambda>c j. j < length needed \<and> needed ! j = c) gcols gslots"
    and agg: "list_all2 (\<lambda>k at. slot_value (map ((!) r) needed) at = Ok (kind_value k r)) kinds aslots"
  shows "group_projected kinds gslots aslots tab (map ((!) r) needed) = group_step kinds gcols needed tab r"
proof -
  have "mapR (idx (map ((!) r) needed)) gslots = Ok (map ((!) r) gcols)"
    using slots by (induction rule: list_all2_induct) (auto simp: idx_def)
  then show ?thesis by (simp add: group_projected_def group_step_def update_slots_values [OF agg])
qed

lemma needed_slots:
  assumes "\<forall>c \<in> set gcols. c \<in> set needed"
  obtains gslots where "mapR (slot_of needed) gcols = Ok gslots" "list_all2 (\<lambda>c j. j < length needed \<and> needed ! j = c) gcols gslots"
  using assms
proof (induction gcols arbitrary: thesis)
  case (Cons c gcols)
  from Cons.prems(2) have "\<forall>c \<in> set gcols. c \<in> set needed" by simp
  from Cons.IH [OF _ this] obtain gslots where g: "mapR (slot_of needed) gcols = Ok gslots"
    "list_all2 (\<lambda>c j. j < length needed \<and> needed ! j = c) gcols gslots" by blast
  from Cons.prems(2) have "c \<in> set needed" by simp
  then obtain j where "slot_of needed c = Ok j" "j < length needed" "needed ! j = c" by (rule slot_of_column)
  with g show ?case by (intro Cons.prems(1) [of "j # gslots"]) auto
qed simp

lemma group_tables_rows:
  assumes d: "delivers sc child rows err" and cols: "\<forall>c \<in> set needed. c < length sc" "set gcols \<subseteq> set needed"
    and kinds: "\<forall>k \<in> set kinds. \<forall>c. kind_column k = Some c \<longrightarrow> c \<in> set needed"
  shows "group_tables kinds gcols needed child = foldS (group_step kinds gcols needed) ([], Map.empty) (rows, err)"
proof -
  obtain gslots where g: "mapR (slot_of needed) gcols = Ok gslots" "list_all2 (\<lambda>c j. j < length needed \<and> needed ! j = c) gcols gslots"
    using needed_slots [of gcols needed] cols(2) by blast
  obtain aslots where a: "slots_of needed kinds = Ok aslots"
    "\<And>r. list_all2 (\<lambda>k at. slot_value (map ((!) r) needed) at = Ok (kind_value k r)) kinds aslots"
    using slots_of_kinds [OF kinds] by blast
  obtain cks where cks: "\<forall>ck \<in> set cks. chunk_ok ck \<and> length (ck_columns ck) = length sc"
    "chunk_path child = (cks, err)" "concat (map chunk_rows cks) = rows"
    using d by (cases "chunk_path child") (auto simp: delivers_def)
  have chunk: "foldR (group_chunk_row kinds gcols needed ck) tab [0..<ck_len ck] = foldR (group_step kinds gcols needed) tab (chunk_rows ck)"
    if ck: "ck \<in> set cks" for ck tab
  proof -
    have "length (ck_columns ck) = length sc" using cks(1) ck by simp
    then have "foldR (group_chunk_row kinds gcols needed ck) tab [0..<ck_len ck] =
        foldR (\<lambda>tab i. group_step kinds gcols needed tab (chunk_rows ck ! i)) tab [0..<ck_len ck]"
      using cks(1) ck cols kinds by (intro foldR_cong refl group_chunk_row_step) auto
    also have "\<dots> = foldR (group_step kinds gcols needed) tab (map ((!) (chunk_rows ck)) [0..<length (chunk_rows ck)])"
      by (simp only: foldR_map) (simp add: chunk_rows_def)
    finally show ?thesis by (simp only: map_nth)
  qed
  have "foldR (\<lambda>tab ck. foldR (group_chunk_row kinds gcols needed ck) tab [0..<ck_len ck]) ([], Map.empty) cks =
      foldR (\<lambda>tab ck. foldR (group_step kinds gcols needed) tab (chunk_rows ck)) ([], Map.empty) cks"
    by (rule foldR_cong) (auto simp: chunk)
  then have chunks: "foldR (\<lambda>tab ck. foldR (group_chunk_row kinds gcols needed ck) tab [0..<ck_len ck]) ([], Map.empty) cks =
      foldR (group_step kinds gcols needed) ([], Map.empty) rows"
    using cks(3) by (simp add: foldR_nested)
  have projected: "foldR (group_projected kinds gslots aslots) ([], Map.empty) (map (\<lambda>r. map ((!) r) needed) rows) =
      foldR (group_step kinds gcols needed) ([], Map.empty) rows"
    unfolding foldR_map by (rule foldR_cong) (auto intro: group_projected_step [OF g(2) a(2)])
  have "projected_path child needed = None \<or> projected_path child needed = Some (map (\<lambda>r. map ((!) r) needed) rows, err)"
    using d by (simp add: delivers_def)
  then show ?thesis
    by (elim disjE) (simp_all add: group_tables_def g(1) a(1) cks(2) foldS_def chunks projected)
qed

lemma project_group_eval:
  assumes "group_plan sc es = Some (ps, ks)" "\<forall>r \<in> set (r # rs). length r = length sc" "length (r # rs) < 2 ^ 63"
    and "\<forall>i. GFirst i \<in> set ps \<longrightarrow> i \<in> set needed"
  shows "bindR (reference_states ks (r # rs)) (project_group needed (map ((!) r) needed) ps) =
    mapR (\<lambda>e. eval_bound tx run e (Some (EvalCtx (GroupScope sc (r # rs)) outer))) es"
  using assms(1,4)
proof (induction es arbitrary: ps ks)
  case (Cons e es)
  let ?ev = "\<lambda>e. eval_bound tx run e (Some (EvalCtx (GroupScope sc (r # rs)) outer))"
  show ?case
  proof (cases "column_index sc e")
    case (Some i)
    with Cons.prems(1) obtain ps' where ps: "ps = GFirst i # ps'" "group_plan sc es = Some (ps', ks)" by auto
    have "?ev e = Ok (r ! i)" using column_index_eval [OF Some] assms(2) by (simp add: eval_bound_def)
    moreover obtain j where "slot_of needed i = Ok j" "j < length needed" "needed ! j = i"
      using Cons.prems(2) ps(1) slot_of_column [of i needed] by auto
    moreover have IH: "bindR (reference_states ks (r # rs)) (project_group needed (map ((!) r) needed) ps') = mapR ?ev es"
      using Cons.IH [OF ps(2)] Cons.prems(2) ps(1) by simp
    ultimately show ?thesis
      by (simp add: ps idx_def flip: IH)
  next
    case None
    with Cons.prems(1) obtain ps' k ks' where ps: "ps = GAgg # ps'" "ks = k # ks'" "agg_kind_of sc e = Some k" "group_plan sc es = Some (ps', ks')"
      by (auto split: option.splits)
    have IH: "bindR (reference_states ks' (r # rs)) (project_group needed (map ((!) r) needed) ps') = mapR ?ev es"
      using Cons.IH [OF ps(4)] Cons.prems(2) ps(1) by simp
    have "mapR ?ev [e] = bindR (reference_states [k] (r # rs)) (\<lambda>ss. Ok (map finish ss))"
      using assms(2,3) ps(3) by (intro reference_states_eval) auto
    then show ?thesis
      by (simp add: ps reference_states_def flip: IH) (cases "foldR (update_value k) (new_state k) (map (kind_value k) (r # rs))"; auto simp: bindR_case split: result.split)
  qed
qed (simp add: reference_states_def)

lemma those_columns_iff: "those_columns sc es = Some cs \<longleftrightarrow> list_all2 (\<lambda>e c. column_index sc e = Some c) es cs"
  by (induction sc es arbitrary: cs rule: those_columns.induct) (auto split: option.split simp: list_all2_Cons1)

lemma group_rows_grouped:
  assumes "list_all2 (\<lambda>e c. column_index sc e = Some c) es gcols" "\<forall>r \<in> set rows. length r = length sc"
  shows "group_rows tx run outer sc es rows = Ok (grouped gcols rows)"
proof -
  have "mapR (\<lambda>g. eval_bound tx run g (Some (EvalCtx (RowScope sc r) outer))) es = Ok (map ((!) r) gcols)" if "length r = length sc" for r
    unfolding mapR_Ok_iff list_all2_map2
    by (rule list_all2_mono [OF assms(1)]) (use column_index_eval(2,4) that in \<open>auto simp: eval_bound_def\<close>)
  then have "group_rows tx run outer sc es rows = foldR (\<lambda>gs r. Ok (add_to_group (map ((!) r) gcols) r gs)) [] rows"
    unfolding group_rows_def using assms(2) by (intro foldR_cong) auto
  then show ?thesis by (simp add: foldR_pure grouped_def)
qed

lemma add_to_group_length: "\<forall>g \<in> set gs. length (snd g) \<le> n \<Longrightarrow> g \<in> set (add_to_group key r gs) \<Longrightarrow> length (snd g) \<le> Suc n"
  by (induction key r gs rule: add_to_group.induct) (auto split: if_splits)

lemma grouped_length: "g \<in> set (grouped gcols rows) \<Longrightarrow> length (snd g) \<le> length rows"
proof (induction rows arbitrary: g rule: rev_induct)
  case (snoc r rows)
  then show ?case using add_to_group_length [of "grouped gcols rows" "length rows" g] by (simp add: grouped_def)
qed (simp add: grouped_def)

lemma group_plan_columns:
  assumes "group_plan sc es = Some (ps, ks)"
  shows "GFirst i \<in> set ps \<Longrightarrow> i < length sc" "k \<in> set ks \<Longrightarrow> kind_column k = Some c \<Longrightarrow> c < length sc"
  using assms
  by (induction es arbitrary: ps ks) (auto split: option.splits dest: column_index_eval(1) kind_column_bound)

lemma needed_columns_set:
  "set (needed_columns gcols ps ks) = set gcols \<union> {i. GFirst i \<in> set ps} \<union> {c. \<exists>k \<in> set ks. kind_column k = Some c}"
proof -
  have "set (List.map_filter f xs) = {y. \<exists>x \<in> set xs. f x = Some y}" for f :: "agg_kind \<Rightarrow> nat option" and xs
    by (induction xs) (auto simp: List.map_filter_simps split: option.split)
  note this [of kind_column]
  moreover have "set (List.map_filter (\<lambda>p. case p of GFirst i \<Rightarrow> Some i | GAgg \<Rightarrow> None) ps) = {i. GFirst i \<in> set ps}"
    by (induction ps) (auto simp: List.map_filter_simps split: group_proj.split option.split)
  ultimately show ?thesis by (simp add: needed_columns_def set_add_columns Un_assoc)
qed

lemma group_projection:
  assumes "group_plan sc es = Some (ps, ks)" "\<forall>i. GFirst i \<in> set ps \<longrightarrow> i \<in> set needed"
    and "\<forall>g \<in> set gs. snd g \<noteq> [] \<and> (\<forall>r \<in> set (snd g). length r = length sc) \<and> length (snd g) < 2 ^ 63"
  shows "Option.bind (map_option (group_table needed gs) (group_states ks gs))
      (\<lambda>(groups, _). ok_of (mapR (\<lambda>g. project_group needed (ag_first g) ps (ag_states g)) groups)) =
    ok_of (mapR (\<lambda>g. mapR (\<lambda>e. eval_bound tx run e (Some (EvalCtx (GroupScope sc g) outer))) es) (map snd gs))"
  using assms(3)
proof (induction gs)
  case (Cons g gs)
  obtain k r rs where g: "g = (k, r # rs)" using Cons.prems by (cases g; cases "snd g") auto
  have ev: "bindR (reference_states ks (r # rs)) (project_group needed (map ((!) r) needed) ps) =
      mapR (\<lambda>e. eval_bound tx run e (Some (EvalCtx (GroupScope sc (r # rs)) outer))) es"
    using project_group_eval [OF assms(1) _ _ assms(2)] Cons.prems g by simp
  show ?case
    using Cons.IH Cons.prems
    by (cases "reference_states ks (r # rs)"; cases "group_states ks gs")
      (auto simp: g ev [symmetric] group_states_Cons group_table_def ok_of_bindR bind_eq_None_conv)
qed (simp add: group_table_def)


definition sample_schema :: schema where
  "sample_schema = [plain_column None [97] TInt, plain_column None [98] TText]"

definition sample_rows :: "row list" where
  "sample_rows = [[VInt 1, VStr [120]], [VInt 4, VStr [121]], [VNull, VStr [120]]]"

definition sample_child :: child_paths where
  "sample_child = \<lparr> projected_path = \<lambda>_. None, fused_path = None,
     chunk_path = ([\<lparr> ck_columns = [CInt [Some 1, Some 4, None], CStr [Some [120], Some [121], Some [120]]], ck_len = 3 \<rparr>], None) \<rparr>"

definition sample_text :: text_ops where
  "sample_text = \<lparr> f64_to_string = \<lambda>_. [], f64_fixed1 = \<lambda>_. [], to_uppercase = id, to_lowercase = id \<rparr>"

lemma sample_delivers: "delivers sample_schema sample_child sample_rows None"
  by (auto simp: delivers_def sample_schema_def sample_child_def sample_rows_def chunk_rows_def chunk_ok_def opt_value_def upt_rec)

lemma sample_one_type: "one_type sample_child"
  by (auto simp: one_type_def sample_child_def column_fits_def intro!: exI [of _ "[CInt [], CStr []]"])

text \<open>A child that has only rows, such as a view: \<open>next_chunk\<close> makes a chunk of each row.\<close>

definition bridged_child :: "row list \<Rightarrow> child_paths" where
  "bridged_child rows = \<lparr> projected_path = \<lambda>_. None, fused_path = None,
     chunk_path = (case mapR chunk_from_row rows of Ok cks \<Rightarrow> (cks, None) | Err e \<Rightarrow> ([], Some e)) \<rparr>"

definition sum_query :: "rust_string \<Rightarrow> select_stmt" where
  "sum_query c = Select False [SExpr (EAggregate Sum (Some (EColumn c)) False)] [] [] [] None [] None [] None []"

lemma global_reference_rows:
  assumes "delivers sc child rows err" "length rows < 2 ^ 63" "items_of exprs (sel_items s)" "sel_group_by s = []" "plain_shape s"
    and kinds: "list_all2 (\<lambda>e k. agg_kind_of sc e = Some k) exprs kinds"
  shows "ok_of (grouped_select_rows tx run outer sc s rows exprs) = map_option (\<lambda>ss. [map finish ss]) (ok_of (reference_states kinds rows))"
proof -
  have wide: "\<forall>r \<in> set rows. length r = length sc" using assms(1) by (simp add: delivers_def)
  have "\<not> item_has_column it" if it: "it \<in> set (sel_items s)" for it
  proof -
    obtain j where j: "j < length (sel_items s)" "it = sel_items s ! j" using it by (auto simp: in_set_conv_nth)
    have "it = SExpr (exprs ! j) \<or> (\<exists>a. it = SAliased (exprs ! j) a)" "j < length exprs"
      using assms(3) j by (auto simp: items_of_def list_all2_conv_all_nth)
    moreover have "\<not> expr_has_column (exprs ! j)"
      by (rule agg_kind_shape [OF list_all2_nthD [OF kinds \<open>j < length exprs\<close>]]) simp
    ultimately show ?thesis by (auto simp: item_has_column_def)
  qed
  then show ?thesis
    using plain_grouped_select [OF assms(5), of tx run outer sc rows exprs] assms(4) reference_states_eval [OF kinds wide assms(2), of tx run outer]
    by (cases "reference_states kinds rows") (auto simp: list_ex_iff)
qed

lemma mixed_sum:
  "chunk_global_aggregate [plain_column q c TText] (bridged_child [[VInt n], [VFloat x]]) (sum_query c) [EAggregate Sum (Some (EColumn c)) False] = Err type_mismatch"
  "grouped_select_rows tx run outer [plain_column q c TText] (sum_query c) [[VInt n], [VFloat x]] [EAggregate Sum (Some (EColumn c)) False] =
    Ok [[VFloat (f64_add (f64_of_int (sint n)) x)]]"
proof -
  let ?sc = "[plain_column q c TText]"
  have r: "resolve ?sc None c = Ok 0" by (simp add: resolve_def matching_columns_def plain_column_def)
  have k: "those_kinds ?sc [EAggregate Sum (Some (EColumn c)) False] = Some [KSum 0]" using r by (simp add: agg_kind_of_def column_index_def)
  have "bridged_child [[VInt n], [VFloat x]] = \<lparr> projected_path = \<lambda>_. None, fused_path = None,
      chunk_path = ([\<lparr> ck_columns = [CInt [Some n]], ck_len = 1 \<rparr>, \<lparr> ck_columns = [CFloat [Some x]], ck_len = 1 \<rparr>], None) \<rparr>"
    by (simp add: bridged_child_def chunk_from_row_def chunk_from_rows_def column_from_values_def column_for_value_def idx_def)
  then show "chunk_global_aggregate ?sc (bridged_child [[VInt n], [VFloat x]]) (sum_query c) [EAggregate Sum (Some (EColumn c)) False] = Err type_mismatch"
    using k by (simp add: chunk_global_aggregate_def sum_query_def plain_shape_def global_states_def Let_def foldS_def after_def update_state_def
      kind_column_def chunk_column_at_def idx_def apply_int_def apply_float_def on_sum_def held_int_def held_float_def int_sum_step_def new_state_def flatten_def
      slots_of_def slot_of_def add_column_def aggregate_columns_def List.map_filter_def)
  show "grouped_select_rows tx run outer ?sc (sum_query c) [[VInt n], [VFloat x]] [EAggregate Sum (Some (EColumn c)) False] =
    Ok [[VFloat (f64_add (f64_of_int (sint n)) x)]]"
    using r by (simp add: grouped_select_rows_def sum_query_def item_has_column_def filterR_def having_holds_def eval_bound_def apply_limit_def ctx_row_def
      aggregate_values_def sum_step_def eval_binary_def float_arith_def resolve_column_def scope_lookup_def idx_def or_null_def)
qed

text \<open>
  C31: The columnar global aggregate agrees with the row path. Whenever the shape qualifies, folding the values into
  the accumulators - through the projected scan, the fused scan or the chunk kernels, whichever the child offers - and succeeding
  gives exactly the row the reference path computes from the same rows. It also fails exactly when the reference path fails,
  provided the rows are streamed or every chunk gives a column the same type. This covers any number of aggregates, null values, integer
  overflow and chunks whose column has no value at all. The proviso is needed: a view that delivers an integer and then a float,
  one chunk per row, makes the sum fail where the reference path adds the two.
\<close>

theorem global_aggregate_agrees:
  assumes "delivers sc child rows err" "length rows < 2 ^ 63" "items_of exprs (sel_items s)"
    and "chunk_global_aggregate sc child s exprs \<noteq> Ok None"
  shows "(\<forall>out. chunk_global_aggregate sc child s exprs = Ok (Some out) \<longrightarrow> after err (grouped_select_rows tx run outer sc s rows exprs) = Ok out) \<and>
    (one_type child \<or> fused_path child \<noteq> None \<or> (\<forall>cols. projected_path child cols \<noteq> None) \<longrightarrow>
       ok_of (chunk_global_aggregate sc child s exprs) = map_option Some (ok_of (after err (grouped_select_rows tx run outer sc s rows exprs)))) \<and>
    (\<forall>q c n x. chunk_global_aggregate [plain_column q c TText] (bridged_child [[VInt n], [VFloat x]]) (sum_query c) [EAggregate Sum (Some (EColumn c)) False] = Err type_mismatch \<and>
       grouped_select_rows tx run outer [plain_column q c TText] (sum_query c) [[VInt n], [VFloat x]] [EAggregate Sum (Some (EColumn c)) False] =
         Ok [[VFloat (f64_add (f64_of_int (sint n)) x)]])"
proof -
  from assms(4) obtain kinds where q: "sel_group_by s = []" "plain_shape s" "those_kinds sc exprs = Some kinds" "kinds \<noteq> []"
    by (auto simp: chunk_global_aggregate_def split: if_splits option.splits)
  have kinds: "list_all2 (\<lambda>e k. agg_kind_of sc e = Some k) exprs kinds" using q(3) by (simp add: those_kinds_iff)
  have cols: "i < length sc" if "k \<in> set kinds" "kind_column k = Some i" for k i
    using kinds that by (auto simp: list_all2_conv_all_nth in_set_conv_nth intro: kind_column_bound)
  have ref: "ok_of (grouped_select_rows tx run outer sc s rows exprs) = map_option (\<lambda>ss. [map finish ss]) (ok_of (reference_states kinds rows))"
    using global_reference_rows [OF assms(1-3) q(1,2) kinds] .
  have run: "ok_of (chunk_global_aggregate sc child s exprs) = map_option (\<lambda>ss. Some [map finish ss]) (ok_of (global_states kinds child))"
    using q by (cases "global_states kinds child") (auto simp: chunk_global_aggregate_def)
  have "after err (grouped_select_rows tx run outer sc s rows exprs) = Ok out" if "chunk_global_aggregate sc child s exprs = Ok (Some out)" for out
  proof -
    from that run obtain ss where ss: "global_states kinds child = Ok ss" "out = [map finish ss]" by (cases "global_states kinds child") auto
    from global_states_success [OF assms(1) cols ss(1)] ref ss(2) show ?thesis by (cases err) (auto simp: after_def ok_of_Some)
  qed
  moreover have "ok_of (chunk_global_aggregate sc child s exprs) = map_option Some (ok_of (after err (grouped_select_rows tx run outer sc s rows exprs)))"
    if "one_type child \<or> fused_path child \<noteq> None \<or> (\<forall>cols. projected_path child cols \<noteq> None)"
  proof -
    have "ok_of (global_states kinds child) = ok_of (after err (reference_states kinds rows))"
      by (rule global_states_reference [OF assms(1) cols]) (use that in auto)
    with run ref show ?thesis by (cases err) (auto simp: after_def option.map_comp comp_def)
  qed
  ultimately show ?thesis using mixed_sum by blast
qed

theorem global_aggregate_agrees_witness:
  "ok_of (chunk_global_aggregate sample_schema sample_child
      (Select False [SExpr (EAggregate Sum (Some (EColumn [97])) False), SExpr (EAggregate Count None False)] [] [] [] None [] None [] None [])
      [EAggregate Sum (Some (EColumn [97])) False, EAggregate Count None False]) = Some (Some [[VInt 5, VInt 3]])"
proof -
  let ?es = "[EAggregate Sum (Some (EColumn [97])) False, EAggregate Count None False]"
  let ?s = "Select False [SExpr (EAggregate Sum (Some (EColumn [97])) False), SExpr (EAggregate Count None False)] [] [] [] None [] None [] None []"
  have k: "those_kinds sample_schema ?es = Some [KSum 0, KCount None]"
    by (simp add: agg_kind_of_def column_index_def resolve_def matching_columns_def sample_schema_def plain_column_def)
  then have q: "chunk_global_aggregate sample_schema sample_child ?s ?es \<noteq> Ok None"
    by (auto simp: chunk_global_aggregate_def plain_shape_def bindR_Ok_iff)
  have "length sample_rows < 2 ^ 63" "items_of ?es (sel_items ?s)" by (simp_all add: sample_rows_def items_of_def)
  from global_aggregate_agrees [OF sample_delivers this q, of sample_text "\<lambda>_ _. Err Panic" None] sample_one_type
  have "ok_of (chunk_global_aggregate sample_schema sample_child ?s ?es) =
      map_option Some (ok_of (after None (grouped_select_rows sample_text (\<lambda>_ _. Err Panic) None sample_schema ?s sample_rows ?es)))"
    by blast
  moreover have "grouped_select_rows sample_text (\<lambda>_ _. Err Panic) None sample_schema ?s sample_rows ?es = Ok [[VInt 5, VInt 3]]"
    by (simp add: grouped_select_rows_def item_has_column_def filterR_def having_holds_def eval_bound_def apply_limit_def ctx_row_def
      aggregate_values_def sum_step_def eval_binary_def int_arith_def checked_i64_def sample_rows_def sample_schema_def plain_column_def
      resolve_column_def scope_lookup_def resolve_def matching_columns_def idx_def or_null_def)
  ultimately show ?thesis by (simp add: after_def)
qed

text \<open>
  C32: The columnar grouped aggregate agrees with the row path: when the shape qualifies, and the grouping values hold no NaN and
  no string beyond the codec's length field, the groups found through encoded keys are those found by value equality, in the
  same first-seen order, and each group's projected row is the one the reference path evaluates; it fails exactly when the
  reference path fails.
\<close>

theorem grouped_aggregate_agrees:
  assumes d: "delivers sc child rows err" and n: "length rows < 2 ^ 63" and wide: "length (sel_group_by s) < 65536"
    and gcols: "those_columns sc (sel_group_by s) = Some gcols" and keys: "\<forall>r \<in> set rows. \<forall>c \<in> set gcols. key_value (r ! c)"
    and some: "chunk_grouped_aggregate sc child s exprs \<noteq> Ok None"
  shows "ok_of (chunk_grouped_aggregate sc child s exprs) =
    map_option Some (ok_of (after err (grouped_select_rows tx run outer sc s rows exprs)))"
proof -
  from some gcols obtain ps ks where q: "sel_group_by s \<noteq> []" "plain_shape s" "group_plan sc exprs = Some (ps, ks)"
    by (auto simp: chunk_grouped_aggregate_def split: if_splits option.splits)
  let ?needed = "needed_columns gcols ps ks" and ?gs = "grouped gcols rows"
  have cols: "list_all2 (\<lambda>e c. column_index sc e = Some c) (sel_group_by s) gcols" using gcols by (simp add: those_columns_iff)
  have rows: "\<forall>r \<in> set rows. length r = length sc" using d by (simp add: delivers_def)
  have lg: "length gcols < 65536" using cols wide by (auto dest: list_all2_lengthD)
  have cb: "\<forall>c \<in> set gcols. c < length sc"
    using cols by (auto simp: list_all2_conv_all_nth in_set_conv_nth dest!: column_index_eval(1))
  have small: "length (snd g) < 2 ^ 63" if "g \<in> set ?gs" for g using grouped_length [OF that] n by linarith
  have gs: "\<forall>g \<in> set ?gs. snd g \<noteq> [] \<and> (\<forall>r \<in> set (snd g). length r = length sc) \<and> length (snd g) < 2 ^ 63"
    using grouped_all [of rows "\<lambda>_. True" gcols "\<lambda>r. length r = length sc"] rows small by blast
  have "group_tables ks gcols ?needed child = foldS (group_step ks gcols ?needed) ([], Map.empty) (rows, err)"
    by (rule group_tables_rows [OF d]) (use cb group_plan_columns [OF q(3)] in \<open>auto simp: needed_columns_set\<close>)
  moreover have "ok_of (foldR (group_step ks gcols ?needed) ([], Map.empty) rows) = map_option (group_table ?needed ?gs) (group_states ks ?gs)"
    by (rule foldR_group_step [OF lg]) (use keys in \<open>auto simp: good_key_def\<close>)
  ultimately have tables: "ok_of (group_tables ks gcols ?needed child) =
      (if err = None then map_option (group_table ?needed ?gs) (group_states ks ?gs) else None)"
    by (cases err) (simp_all add: ok_of_foldS after_def)
  have out: "ok_of (chunk_grouped_aggregate sc child s exprs) = map_option Some (Option.bind (ok_of (group_tables ks gcols ?needed child))
      (\<lambda>(groups, _). ok_of (mapR (\<lambda>g. project_group ?needed (ag_first g) ps (ag_states g)) groups)))"
    using q gcols by (cases "group_tables ks gcols ?needed child")
      (auto simp: chunk_grouped_aggregate_def Let_def ok_of_bindR map_conv_bind_option comp_def split: prod.split)
  have "\<not> list_ex expr_has_aggregate (sel_group_by s)"
    using cols by (induction rule: list_all2_induct) (auto dest: column_index_eval(3))
  then have ref: "grouped_select_rows tx run outer sc s rows exprs =
      mapR (\<lambda>g. mapR (\<lambda>e. eval_bound tx run e (Some (EvalCtx (GroupScope sc g) outer))) exprs) (map snd ?gs)"
    using plain_grouped_select [OF q(2), of tx run outer sc rows exprs] q(1) group_rows_grouped [OF cols rows, of tx run outer] by simp
  show ?thesis
    using group_projection [OF q(3) _ gs, of ?needed tx run outer] unfolding out tables ref after_def
    by (cases err) (auto simp: needed_columns_set)
qed

theorem grouped_aggregate_agrees_witness:
  "ok_of (chunk_grouped_aggregate sample_schema sample_child
      (Select False [SExpr (EColumn [98]), SExpr (EAggregate Count None False)] [] [] [] None [EColumn [98]] None [] None [])
      [EColumn [98], EAggregate Count None False]) = Some (Some [[VStr [120], VInt 2], [VStr [121], VInt 1]])"
proof -
  let ?es = "[EColumn [98], EAggregate Count None False]"
  let ?s = "Select False [SExpr (EColumn [98]), SExpr (EAggregate Count None False)] [] [] [] None [EColumn [98]] None [] None []"
  have cols: "those_columns sample_schema (sel_group_by ?s) = Some [1]"
    by (simp add: column_index_def resolve_def matching_columns_def sample_schema_def plain_column_def)
  have "group_plan sample_schema ?es = Some ([GFirst 1, GAgg], [KCount None])"
    by (simp add: agg_kind_of_def column_index_def resolve_def matching_columns_def sample_schema_def plain_column_def)
  with cols have q: "chunk_grouped_aggregate sample_schema sample_child ?s ?es \<noteq> Ok None"
    by (auto simp: chunk_grouped_aggregate_def plain_shape_def bindR_Ok_iff Let_def)
  have "ok_of (chunk_grouped_aggregate sample_schema sample_child ?s ?es) =
      map_option Some (ok_of (after None (grouped_select_rows sample_text (\<lambda>_ _. Err Panic) None sample_schema ?s sample_rows ?es)))"
    by (rule grouped_aggregate_agrees [OF sample_delivers _ _ cols _ q]) (simp_all add: sample_rows_def utf8_valid_def)
  moreover have "grouped_select_rows sample_text (\<lambda>_ _. Err Panic) None sample_schema ?s sample_rows ?es =
      Ok [[VStr [120], VInt 2], [VStr [121], VInt 1]]"
    by (simp add: grouped_select_rows_def item_has_column_def filterR_def having_holds_def eval_bound_def apply_limit_def ctx_row_def
      aggregate_values_def sample_rows_def sample_schema_def plain_column_def group_rows_def row_eq_def
      resolve_column_def scope_lookup_def resolve_def matching_columns_def idx_def)
  ultimately show ?thesis by (simp add: after_def)
qed

end
