(* ===== verification/Operators.thy ===== *)
theory Operators
  imports Aggregate
begin

section \<open>Row operators\<close>

text \<open>
  The streaming operators of \<open>src/src/exec/operator.rs\<close>. An operator is its state and its \<open>next\<close>: a row, the end or an
  error, with the state after the call; a \<open>next\<close> that loops over its child is a partial function, whose value \<open>None\<close> would
  mean that it never returns. The locale \<open>row_stream\<close> says what a caller relies on: the state stands for the rows still
  to come and the error after them, if any, and \<open>next\<close> delivers them one by one. Each operator keeps this contract when
  its child does; so a whole pipeline ends, and delivers what the list functions of the reference path compute.
\<close>

subsection \<open>The contract of \<open>next\<close>\<close>

text \<open>What a call of \<open>next\<close> gives for the rows and the error to come: \<open>rest\<close> reads off a state what is to come after it.\<close>

fun yields :: "('a option \<times> 's) result option \<Rightarrow> ('s \<Rightarrow> 'a source) \<Rightarrow> ('s \<Rightarrow> bool) \<Rightarrow> 'a source \<Rightarrow> bool" where
  "yields res rest good (r # rs, e) = (\<exists>t. res = Some (Ok (Some r, t)) \<and> good t \<and> rest t = (rs, e))"
| "yields res rest good ([], None) = (\<exists>t. res = Some (Ok (None, t)) \<and> good t \<and> rest t = ([], None))"
| "yields res rest good ([], Some x) = (res = Some (Err x))"

locale row_stream =
  fixes pull :: "'s \<Rightarrow> ('a option \<times> 's) result option"
    and remaining :: "'s \<Rightarrow> 'a source"
    and good :: "'s \<Rightarrow> bool"
  assumes pull: "good s \<Longrightarrow> yields (pull s) remaining good (remaining s)"

text \<open>The loop of \<open>drain\<close> and of every blocking operator: pull until the end.\<close>

partial_function (option) drain :: "('s \<Rightarrow> ('a option \<times> 's) result option) \<Rightarrow> 'a list \<Rightarrow> 's \<Rightarrow> 'a list result option" where
  "drain pull acc s =
     (case pull s of
        None \<Rightarrow> None
      | Some (Err e) \<Rightarrow> Some (Err e)
      | Some (Ok (None, _)) \<Rightarrow> Some (Ok acc)
      | Some (Ok (Some r, t)) \<Rightarrow> drain pull (acc @ [r]) t)"

definition collected :: "'a source \<Rightarrow> 'a list result" where
  "collected src = after (snd src) (Ok (fst src))"

lemma apfst_Cons_eq [simp]: "apfst ((#) x) p = ([], e) \<longleftrightarrow> False" "apfst ((#) x) p = (y # ys, e) \<longleftrightarrow> x = y \<and> p = (ys, e)"
  by (cases p; auto)+

context row_stream
begin

lemma drain_remaining: "good s \<Longrightarrow> remaining s = (rs, e) \<Longrightarrow> drain pull acc s = Some (after e (Ok (acc @ rs)))"
proof (induction rs arbitrary: s acc)
  case Nil
  then show ?case using pull [of s] by (cases e) (auto simp: drain.simps [of pull acc s] after_def)
next
  case (Cons r rs)
  then obtain t where "pull s = Some (Ok (Some r, t))" "good t" "remaining t = (rs, e)" using pull [of s] by auto
  with Cons.IH [of t "acc @ [r]"] show ?case by (simp add: drain.simps [of pull acc s])
qed

lemma drain_returns: "good s \<Longrightarrow> drain pull [] s = Some (collected (remaining s))"
  using drain_remaining [of s "fst (remaining s)" "snd (remaining s)" "[]"] by (simp add: collected_def)

end

subsection \<open>Materialized rows\<close>

text \<open>The buffer and position that the view scan, the sort, the grouping, the nested loop join and the union stream from.\<close>

record buffered =
  bf_rows :: "row list"
  bf_pos :: nat

definition buffer_of :: "row list \<Rightarrow> buffered" where
  "buffer_of rs = \<lparr> bf_rows = rs, bf_pos = 0 \<rparr>"

definition buffered_next :: "buffered \<Rightarrow> (row option \<times> buffered) result option" where
  "buffered_next b =
     (if length (bf_rows b) \<le> bf_pos b then Some (Ok (None, b))
      else Some (bindR (idx (bf_rows b) (bf_pos b)) (\<lambda>r. Ok (Some r, b\<lparr> bf_pos := bf_pos b + 1 \<rparr>))))"

interpretation buf: row_stream buffered_next "\<lambda>b. (drop (bf_pos b) (bf_rows b), None)" "\<lambda>_. True"
proof
  fix b :: buffered
  show "yields (buffered_next b) (\<lambda>b. (drop (bf_pos b) (bf_rows b), None)) (\<lambda>_. True) (drop (bf_pos b) (bf_rows b), None)"
    by (cases "bf_pos b < length (bf_rows b)") (auto simp: buffered_next_def idx_def Cons_nth_drop_Suc [symmetric])
qed

text \<open>\<open>ConstantScan\<close>: one empty row, for a select without a from clause.\<close>

definition constant_next :: "bool \<Rightarrow> (row option \<times> bool) result option" where
  "constant_next done_before = (if done_before then Some (Ok (None, True)) else Some (Ok (Some [], True)))"

interpretation const_scan: row_stream constant_next "\<lambda>d. (if d then [] else [[]], None)" "\<lambda>_. True"
  by unfold_locales (auto simp: constant_next_def split: if_splits)

subsection \<open>Filter and Project\<close>

partial_function (option) filter_next ::
  "('s \<Rightarrow> ('a option \<times> 's) result option) \<Rightarrow> ('a \<Rightarrow> bool result) \<Rightarrow> 's \<Rightarrow> ('a option \<times> 's) result option" where
  "filter_next pull p s =
     (case pull s of
        None \<Rightarrow> None
      | Some (Err e) \<Rightarrow> Some (Err e)
      | Some (Ok (None, t)) \<Rightarrow> Some (Ok (None, t))
      | Some (Ok (Some r, t)) \<Rightarrow>
          (case p r of
             Err e \<Rightarrow> Some (Err e)
           | Ok b \<Rightarrow> if b then Some (Ok (Some r, t)) else filter_next pull p t))"

fun filter_source :: "('a \<Rightarrow> bool result) \<Rightarrow> 'a list \<Rightarrow> error option \<Rightarrow> 'a source" where
  "filter_source p [] e = ([], e)"
| "filter_source p (r # rs) e =
     (case p r of
        Err x \<Rightarrow> ([], Some x)
      | Ok b \<Rightarrow> (if b then apfst ((#) r) (filter_source p rs e) else filter_source p rs e))"

lemma filter_stream:
  assumes "row_stream pull remaining good"
  shows "row_stream (filter_next pull p) (\<lambda>s. filter_source p (fst (remaining s)) (snd (remaining s))) good"
proof
  fix s
  assume "good s"
  then have "yields (filter_next pull p s) (\<lambda>s. filter_source p (fst (remaining s)) (snd (remaining s))) good (filter_source p rs e)"
    if "remaining s = (rs, e)" for rs e
    using that
  proof (induction rs arbitrary: s)
    case Nil
    then show ?case using row_stream.pull [OF assms, of s] by (cases e) (auto simp: filter_next.simps [of pull p s])
  next
    case (Cons r rs)
    then obtain t where t: "pull s = Some (Ok (Some r, t))" "good t" "remaining t = (rs, e)" using row_stream.pull [OF assms, of s] by auto
    note step = filter_next.simps [of pull p s]
    show ?case
    proof (cases "p r")
      case (Ok b)
      with t Cons.IH [OF t(2,3)] show ?thesis by (cases b; cases "filter_source p rs e") (simp_all add: step)
    qed (simp add: step t)
  qed
  then show "yields (filter_next pull p s) (\<lambda>s. filter_source p (fst (remaining s)) (snd (remaining s))) good
      (filter_source p (fst (remaining s)) (snd (remaining s)))" by simp
qed

text \<open>\<open>Project\<close> evaluates its expressions over each row.\<close>

definition project_next ::
  "('s \<Rightarrow> ('a option \<times> 's) result option) \<Rightarrow> ('a \<Rightarrow> 'b result) \<Rightarrow> 's \<Rightarrow> ('b option \<times> 's) result option" where
  "project_next pull f s =
     (case pull s of
        None \<Rightarrow> None
      | Some (Err e) \<Rightarrow> Some (Err e)
      | Some (Ok (None, t)) \<Rightarrow> Some (Ok (None, t))
      | Some (Ok (Some r, t)) \<Rightarrow> Some (bindR (f r) (\<lambda>out. Ok (Some out, t))))"

fun project_source :: "('a \<Rightarrow> 'b result) \<Rightarrow> 'a list \<Rightarrow> error option \<Rightarrow> 'b source" where
  "project_source f [] e = ([], e)"
| "project_source f (r # rs) e = (case f r of Err x \<Rightarrow> ([], Some x) | Ok out \<Rightarrow> apfst ((#) out) (project_source f rs e))"

lemma project_stream:
  assumes "row_stream pull remaining good"
  shows "row_stream (project_next pull f) (\<lambda>s. project_source f (fst (remaining s)) (snd (remaining s))) good"
proof
  fix s
  assume s: "good s"
  show "yields (project_next pull f s) (\<lambda>s. project_source f (fst (remaining s)) (snd (remaining s))) good
      (project_source f (fst (remaining s)) (snd (remaining s)))"
  proof (cases "fst (remaining s)")
    case Nil
    with row_stream.pull [OF assms s] show ?thesis by (cases "remaining s"; cases "snd (remaining s)") (auto simp: project_next_def)
  next
    case (Cons r rs)
    with row_stream.pull [OF assms s] obtain t where "pull s = Some (Ok (Some r, t))" "good t" "remaining t = (rs, snd (remaining s))"
      by (cases "remaining s") auto
    with Cons show ?thesis
      by (cases "f r"; cases "project_source f rs (snd (remaining s))") (auto simp: project_next_def)
  qed
qed

subsection \<open>Limit and Distinct\<close>

record 's limit_op =
  lim_child :: 's
  lim_offset :: nat
  lim_count :: "nat option"
  lim_skipped :: nat
  lim_emitted :: nat

definition limit_open :: "'s \<Rightarrow> nat \<Rightarrow> nat option \<Rightarrow> 's limit_op" where
  "limit_open child offset count =
     \<lparr> lim_child = child, lim_offset = offset, lim_count = count, lim_skipped = 0, lim_emitted = 0 \<rparr>"

definition limit_emit :: "('s \<Rightarrow> ('a option \<times> 's) result option) \<Rightarrow> 's limit_op \<Rightarrow> ('a option \<times> 's limit_op) result option" where
  "limit_emit pull l =
     (if pred_option (\<lambda>count. count \<le> lim_emitted l) (lim_count l) \<and> lim_count l \<noteq> None then Some (Ok (None, l))
      else
        (case pull (lim_child l) of
           None \<Rightarrow> None
         | Some (Err e) \<Rightarrow> Some (Err e)
         | Some (Ok (None, t)) \<Rightarrow> Some (Ok (None, l\<lparr> lim_child := t \<rparr>))
         | Some (Ok (Some r, t)) \<Rightarrow> Some (Ok (Some r, l\<lparr> lim_child := t, lim_emitted := lim_emitted l + 1 \<rparr>))))"

function limit_next :: "('s \<Rightarrow> ('a option \<times> 's) result option) \<Rightarrow> 's limit_op \<Rightarrow> ('a option \<times> 's limit_op) result option" where
  "limit_next pull l =
     (if lim_skipped l < lim_offset l
      then
        (case pull (lim_child l) of
           None \<Rightarrow> None
         | Some (Err e) \<Rightarrow> Some (Err e)
         | Some (Ok (None, t)) \<Rightarrow> Some (Ok (None, l\<lparr> lim_child := t \<rparr>))
         | Some (Ok (Some r, t)) \<Rightarrow> limit_next pull (l\<lparr> lim_child := t, lim_skipped := lim_skipped l + 1 \<rparr>))
      else limit_emit pull l)"
  by pat_completeness auto

termination
  by (relation "measure (\<lambda>(_, l). lim_offset l - lim_skipped l)") auto

declare limit_next.simps [simp del]

text \<open>An error after the last row the limit lets through is never pulled.\<close>

definition limit_source :: "nat \<Rightarrow> nat option \<Rightarrow> 'a source \<Rightarrow> 'a source" where
  "limit_source offset count src =
     (let rs = drop offset (fst src) in
      case count of
        None \<Rightarrow> (rs, snd src)
      | Some n \<Rightarrow> (take n rs, if length (fst src) < offset \<or> length rs < n then snd src else None))"

definition limit_remaining :: "('s \<Rightarrow> 'a source) \<Rightarrow> 's limit_op \<Rightarrow> 'a source" where
  "limit_remaining remaining l =
     limit_source (lim_offset l - lim_skipped l) (map_option (\<lambda>n. n - lim_emitted l) (lim_count l)) (remaining (lim_child l))"

lemma limit_stream:
  fixes pull :: "'s \<Rightarrow> ('a option \<times> 's) result option"
  assumes "row_stream pull remaining good"
  shows "row_stream (limit_next pull) (limit_remaining remaining) (\<lambda>l. good (lim_child l))"
proof
  fix l :: "'s limit_op"
  assume "good (lim_child l)"
  then show "yields (limit_next pull l) (limit_remaining remaining) (\<lambda>l. good (lim_child l)) (limit_remaining remaining l)"
  proof (induction "lim_offset l - lim_skipped l" arbitrary: l)
    case 0
    obtain rs e where rem: "remaining (lim_child l) = (rs, e)" by fastforce
    have step: "limit_next pull l = limit_emit pull l" using 0(1) by (simp add: limit_next.simps)
    have src: "limit_remaining remaining l = limit_source 0 (map_option (\<lambda>n. n - lim_emitted l) (lim_count l)) (rs, e)"
      using 0(1) rem by (simp add: limit_remaining_def)
    note pulled = row_stream.pull [OF assms 0(2), unfolded rem]
    show ?case
    proof (cases "\<exists>n. lim_count l = Some n \<and> n \<le> lim_emitted l")
      case True
      then show ?thesis unfolding step src using rem 0
        by (auto simp: limit_emit_def limit_source_def limit_remaining_def)
    next
      case False
      then have count: "\<not> (pred_option (\<lambda>count. count \<le> lim_emitted l) (lim_count l) \<and> lim_count l \<noteq> None)" by (cases "lim_count l") auto
      show ?thesis
      proof (cases rs)
        case Nil
        with pulled count rem False 0 show ?thesis unfolding step src
          by (cases e; cases "lim_count l") (auto simp: limit_emit_def limit_source_def limit_remaining_def)
      next
        case (Cons r rs')
        with pulled obtain t where t: "pull (lim_child l) = Some (Ok (Some r, t))" "good t" "remaining t = (rs', e)" by auto
        with count False 0(1) Cons show ?thesis unfolding step src
          by (cases "lim_count l") (auto simp: limit_emit_def limit_source_def limit_remaining_def take_Cons' Let_def)
      qed
    qed
  next
    case (Suc n)
    obtain rs e where rem: "remaining (lim_child l) = (rs, e)" by fastforce
    note pulled = row_stream.pull [OF assms Suc.prems, unfolded rem]
    have less: "lim_skipped l < lim_offset l" using Suc.hyps(2) by simp
    show ?case
    proof (cases rs)
      case Nil
      with pulled rem less show ?thesis
        by (cases e; cases "lim_count l") (auto simp: limit_next.simps [of pull l] limit_source_def limit_remaining_def)
    next
      case (Cons r rs')
      with pulled obtain t where t: "pull (lim_child l) = Some (Ok (Some r, t))" "good t" "remaining t = (rs', e)" by auto
      let ?l = "l\<lparr> lim_child := t, lim_skipped := lim_skipped l + 1 \<rparr>"
      have "limit_next pull l = limit_next pull ?l" using t less by (simp add: limit_next.simps [of pull l])
      moreover have "limit_remaining remaining l = limit_remaining remaining ?l"
        using rem t(3) Cons less by (cases "lim_count l") (auto simp: limit_remaining_def limit_source_def drop_Cons' Let_def)
      moreover have "n = lim_offset ?l - lim_skipped ?l" using Suc.hyps(2) by simp
      ultimately show ?thesis using Suc.hyps(1) [of ?l] t(2) by simp
    qed
  qed
qed

text \<open>\<open>Distinct\<close> keeps the rows it has not seen.\<close>

record 's distinct_op =
  dis_child :: 's
  dis_seen :: "row list"

partial_function (option) distinct_next ::
  "('s \<Rightarrow> (row option \<times> 's) result option) \<Rightarrow> 's distinct_op \<Rightarrow> (row option \<times> 's distinct_op) result option" where
  "distinct_next pull d =
     (case pull (dis_child d) of
        None \<Rightarrow> None
      | Some (Err e) \<Rightarrow> Some (Err e)
      | Some (Ok (None, t)) \<Rightarrow> Some (Ok (None, d\<lparr> dis_child := t \<rparr>))
      | Some (Ok (Some r, t)) \<Rightarrow>
          if \<not> list_ex (\<lambda>seen. row_eq seen r) (dis_seen d)
          then Some (Ok (Some r, d\<lparr> dis_child := t, dis_seen := dis_seen d @ [r] \<rparr>))
          else distinct_next pull (d\<lparr> dis_child := t \<rparr>))"

definition distinct_remaining :: "('s \<Rightarrow> row source) \<Rightarrow> 's distinct_op \<Rightarrow> row source" where
  "distinct_remaining remaining d = apfst (retain_distinct row_eq (dis_seen d)) (remaining (dis_child d))"

lemma distinct_stream:
  fixes pull :: "'s \<Rightarrow> (row option \<times> 's) result option"
  assumes "row_stream pull remaining good"
  shows "row_stream (distinct_next pull) (distinct_remaining remaining) (\<lambda>d. good (dis_child d))"
proof
  fix d :: "'s distinct_op"
  assume "good (dis_child d)"
  then have "yields (distinct_next pull d) (distinct_remaining remaining) (\<lambda>d. good (dis_child d)) (retain_distinct row_eq (dis_seen d) rs, e)"
    if "remaining (dis_child d) = (rs, e)" for rs e
    using that
  proof (induction rs arbitrary: d)
    case Nil
    then show ?case using row_stream.pull [OF assms, of "dis_child d"]
      by (cases e) (auto simp: distinct_next.simps [of pull d] distinct_remaining_def)
  next
    case (Cons r rs)
    then obtain t where t: "pull (dis_child d) = Some (Ok (Some r, t))" "good t" "remaining t = (rs, e)"
      using row_stream.pull [OF assms, of "dis_child d"] by auto
    note step = distinct_next.simps [of pull d]
    show ?case
    proof (cases "list_ex (\<lambda>seen. row_eq seen r) (dis_seen d)")
      case True
      with t have "distinct_next pull d = distinct_next pull (d\<lparr> dis_child := t \<rparr>)" by (simp add: step)
      with Cons.IH [of "d\<lparr> dis_child := t \<rparr>"] t True show ?thesis by simp
    next
      case False
      with t show ?thesis by (simp add: step distinct_remaining_def)
    qed
  qed
  then show "yields (distinct_next pull d) (distinct_remaining remaining) (\<lambda>d. good (dis_child d)) (distinct_remaining remaining d)"
    by (cases "remaining (dis_child d)") (simp add: distinct_remaining_def)
qed

subsection \<open>Blocking operators\<close>

text \<open>Their \<open>open\<close> drains the child, computes all rows and leaves them in the buffer.\<close>

definition blocking_open ::
  "('s \<Rightarrow> (row option \<times> 's) result option) \<Rightarrow> (row list \<Rightarrow> row list result) \<Rightarrow> 's \<Rightarrow> buffered result option" where
  "blocking_open pull f child =
     map_option (\<lambda>res. bindR res (\<lambda>rs. bindR (f rs) (\<lambda>out. Ok (buffer_of out)))) (drain pull [] child)"

definition sort_open ::
  "text_ops \<Rightarrow> subquery_runner \<Rightarrow> eval_ctx option \<Rightarrow> schema \<Rightarrow> ('s \<Rightarrow> (row option \<times> 's) result option) \<Rightarrow> 's \<Rightarrow>
    (expr \<times> bool) list \<Rightarrow> select_item list \<Rightarrow> buffered result option" where
  "sort_open tx run outer sc pull child order_by items =
     blocking_open pull (\<lambda>rs. sort_rows tx run outer sc rs order_by items) child"

text \<open>
  \<open>GroupBy::open\<close>: in chunk mode the columnar path is tried first; it leaves the child untouched when the shape does
  not qualify. \<open>paths\<close> is what the opened child offers to that path.
\<close>

definition group_open ::
  "text_ops \<Rightarrow> subquery_runner \<Rightarrow> eval_ctx option \<Rightarrow> execution_mode \<Rightarrow> schema \<Rightarrow> child_paths \<Rightarrow> ('s \<Rightarrow> (row option \<times> 's) result option) \<Rightarrow> 's \<Rightarrow>
    select_stmt \<Rightarrow> expr list \<Rightarrow> buffered result option" where
  "group_open tx run outer mode sc paths pull child s exprs =
     (case (if mode = Chunked
            then (if sel_group_by s = [] then chunk_global_aggregate sc paths s exprs else chunk_grouped_aggregate sc paths s exprs)
            else Ok None) of
        Err e \<Rightarrow> Some (Err e)
      | Ok (Some rs) \<Rightarrow> Some (Ok (buffer_of rs))
      | Ok None \<Rightarrow> blocking_open pull (\<lambda>rs. grouped_select_rows tx run outer sc s rs exprs) child)"

definition project_row :: "text_ops \<Rightarrow> subquery_runner \<Rightarrow> eval_ctx option \<Rightarrow> schema \<Rightarrow> expr list \<Rightarrow> row \<Rightarrow> row result" where
  "project_row tx run outer sc exprs r = mapR (\<lambda>e. eval_bound tx run e (Some (EvalCtx (RowScope sc r) outer))) exprs"

definition filter_row :: "text_ops \<Rightarrow> subquery_runner \<Rightarrow> eval_ctx option \<Rightarrow> schema \<Rightarrow> expr \<Rightarrow> row \<Rightarrow> bool result" where
  "filter_row tx run outer sc e r = eval_predicate_bound tx run e sc r outer"

text \<open>The pipeline \<open>build_select\<close> puts over a single source: filter, project, distinct, limit.\<close>

definition select_next ::
  "text_ops \<Rightarrow> subquery_runner \<Rightarrow> eval_ctx option \<Rightarrow> schema \<Rightarrow> expr \<Rightarrow> expr list \<Rightarrow> ('s \<Rightarrow> (row option \<times> 's) result option) \<Rightarrow>
    's distinct_op limit_op \<Rightarrow> (row option \<times> 's distinct_op limit_op) result option" where
  "select_next tx run outer sc e exprs pull =
     limit_next (distinct_next (project_next (filter_next pull (filter_row tx run outer sc e)) (project_row tx run outer sc exprs)))"

lemma filter_source_all: "(\<And>r. r \<in> set rs \<Longrightarrow> p r = Ok (P r)) \<Longrightarrow> filter_source p rs e = (filter P rs, e)"
  by (induction rs) auto

lemma project_source_all: "(\<And>r. r \<in> set rs \<Longrightarrow> f r = Ok (F r)) \<Longrightarrow> project_source f rs e = (map F rs, e)"
  by (induction rs) auto

definition select_source ::
  "text_ops \<Rightarrow> subquery_runner \<Rightarrow> eval_ctx option \<Rightarrow> schema \<Rightarrow> expr \<Rightarrow> expr list \<Rightarrow> nat \<Rightarrow> nat option \<Rightarrow> row source \<Rightarrow> row source" where
  "select_source tx run outer sc e exprs offset count src =
     (let kept = filter_source (filter_row tx run outer sc e) (fst src) (snd src)
      in limit_source offset count (apfst dedup_rows (project_source (project_row tx run outer sc exprs) (fst kept) (snd kept))))"

text \<open>
  C33: A query pipeline ends and computes the query. Over any child that delivers its rows one by one, pulling limit, distinct,
  project and filter to the end returns after finitely many steps: the rows of the reference path - filtered, projected, without
  duplicates, cut to the window - or the error met on the way. An error behind the window of the limit is never reached.
\<close>

theorem select_pipeline_returns:
  assumes "row_stream pull remaining good" "good s"
  shows "drain (select_next tx run outer sc e exprs pull) [] (limit_open \<lparr> dis_child = s, dis_seen = [] \<rparr> offset count) =
      Some (collected (select_source tx run outer sc e exprs offset count (remaining s))) \<and>
    ((\<forall>r \<in> set (fst (remaining s)). filter_row tx run outer sc e r = Ok (P r) \<and> (P r \<longrightarrow> project_row tx run outer sc exprs r = Ok (F r))) \<and>
       snd (remaining s) = None \<longrightarrow>
     drain (select_next tx run outer sc e exprs pull) [] (limit_open \<lparr> dis_child = s, dis_seen = [] \<rparr> offset (Some n)) =
       Some (Ok (take n (drop offset (dedup_rows (map F (filter P (fst (remaining s)))))))))"
proof -
  let ?p = "filter_row tx run outer sc e" and ?f = "project_row tx run outer sc exprs"
  note stream = limit_stream [OF distinct_stream [OF project_stream [OF filter_stream [OF assms(1), of ?p], of ?f]]]
  have main: "drain (select_next tx run outer sc e exprs pull) [] (limit_open \<lparr> dis_child = s, dis_seen = [] \<rparr> offset c) =
      Some (collected (select_source tx run outer sc e exprs offset c (remaining s)))" for c
    unfolding select_next_def using row_stream.drain_returns [OF stream, of "limit_open \<lparr> dis_child = s, dis_seen = [] \<rparr> offset c"] assms(2)
    by (simp add: limit_open_def limit_remaining_def distinct_remaining_def dedup_rows_def [abs_def] select_source_def Let_def option.map_ident)
  moreover have "select_source tx run outer sc e exprs offset (Some n) (remaining s) =
      limit_source offset (Some n) (dedup_rows (map F (filter P (fst (remaining s)))), None)"
    if "\<forall>r \<in> set (fst (remaining s)). ?p r = Ok (P r) \<and> (P r \<longrightarrow> ?f r = Ok (F r))" "snd (remaining s) = None"
    using that filter_source_all [of "fst (remaining s)" ?p P None] project_source_all [of "filter P (fst (remaining s))" ?f F None]
    by (simp add: select_source_def)
  ultimately show ?thesis by (simp add: limit_source_def collected_def after_def Let_def)
qed

theorem select_pipeline_returns_witness:
  "drain (select_next sample_text (\<lambda>_ _. Err Panic) None sample_schema (EIsNull (EColumn [97]) True) [EColumn [98]] buffered_next) []
     (limit_open \<lparr> dis_child = buffer_of sample_rows, dis_seen = [] \<rparr> 1 (Some 5)) = Some (Ok [[VStr [121]]])"
proof -
  let ?e = "EIsNull (EColumn [97]) True"
  have "drain (select_next sample_text (\<lambda>_ _. Err Panic) None sample_schema ?e [EColumn [98]] buffered_next) []
      (limit_open \<lparr> dis_child = buffer_of sample_rows, dis_seen = [] \<rparr> 1 (Some 5)) =
    Some (Ok (take 5 (drop 1 (dedup_rows (map (\<lambda>r. [r ! 1]) (filter (\<lambda>r. r ! 0 \<noteq> VNull) sample_rows))))))"
    using conjunct2 [OF select_pipeline_returns [OF buf.row_stream_axioms, where s = "buffer_of sample_rows" and tx = sample_text and
      run = "\<lambda>_ _. Err Panic" and outer = None and sc = sample_schema and e = ?e and exprs = "[EColumn [98]]" and offset = 1 and
      P = "\<lambda>r. r ! 0 \<noteq> VNull" and F = "\<lambda>r. [r ! 1]" and n = 5]]
    by (simp add: buffer_of_def sample_rows_def filter_row_def eval_predicate_bound_def project_row_def eval_bound_def sample_schema_def
      plain_column_def resolve_column_def scope_lookup_def resolve_def matching_columns_def idx_def)
  then show ?thesis by (simp add: dedup_rows_def sample_rows_def row_eq_def)
qed

end
