(* ===== verification/Columnar.thy ===== *)
theory Columnar
  imports Operators
begin

section \<open>Columnar filter and projection\<close>

text \<open>
  The chunk paths of \<open>Filter\<close> and \<open>Project\<close> in \<open>src/src/exec/operator.rs\<close>. A predicate made of comparisons, null tests and
  their conjunctions and disjunctions is evaluated as a mask over the columns of the chunk; other predicates, and other
  projections than bare columns, are evaluated row by row. The lemmas show that both agree with the row path.
\<close>

text \<open>The default \<open>next_chunk\<close>: a chunk of one row per pull.\<close>

definition default_next_chunk :: "('s \<Rightarrow> (row option \<times> 's) result option) \<Rightarrow> 's \<Rightarrow> (chunk option \<times> 's) result option" where
  "default_next_chunk pull = project_next pull chunk_from_row"

definition simple_column :: "schema \<Rightarrow> expr \<Rightarrow> nat option" where
  "simple_column sc e =
     (let found = (\<lambda>r. case r of Ok i \<Rightarrow> Some i | Err _ \<Rightarrow> None) in
      case e of
        EColumn name \<Rightarrow> found (resolve sc None name)
      | EQualified owner name \<Rightarrow> found (resolve sc (Some owner) name)
      | _ \<Rightarrow> None)"

definition is_comparison :: "bin_op \<Rightarrow> bool" where
  "is_comparison op \<longleftrightarrow> op \<in> {Eq, NotEq, Lt, Le, Gt, Ge}"

datatype operand = OColumn chunk_column | OConst sql_value

definition operand_value :: "operand \<Rightarrow> nat \<Rightarrow> sql_value result" where
  "operand_value x i = (case x of OColumn c \<Rightarrow> column_value c i | OConst v \<Rightarrow> Ok v)"

definition operand_of :: "text_ops \<Rightarrow> expr \<Rightarrow> schema \<Rightarrow> chunk \<Rightarrow> operand option result" where
  "operand_of tx e sc ck =
     (case simple_column sc e of
        Some i \<Rightarrow> bindR (chunk_column_at ck i) (\<lambda>c. Ok (Some (OColumn c)))
      | None \<Rightarrow> (case eval_const tx e of Ok v \<Rightarrow> Ok (Some (OConst v)) | Err _ \<Rightarrow> Ok None))"

definition both_masks :: "(bool \<Rightarrow> bool \<Rightarrow> bool) \<Rightarrow> bool list option \<Rightarrow> bool list option \<Rightarrow> bool list option" where
  "both_masks f a b = (case (a, b) of (Some a, Some b) \<Rightarrow> Some (map2 f a b) | _ \<Rightarrow> None)"

definition compare_mask :: "text_ops \<Rightarrow> bin_op \<Rightarrow> expr \<Rightarrow> expr \<Rightarrow> chunk \<Rightarrow> schema \<Rightarrow> bool list option result" where
  "compare_mask tx op l r ck sc =
     bindR (operand_of tx l sc ck) (\<lambda>left. bindR (operand_of tx r sc ck) (\<lambda>right.
       case (left, right) of
         (Some left, Some right) \<Rightarrow>
           bindR (mapR (\<lambda>i. bindR (operand_value left i) (\<lambda>lv. bindR (operand_value right i) (\<lambda>rv.
               bindR (eval_binary op lv rv) (\<lambda>passed. Ok (passed = VBool True))))) [0..<ck_len ck])
             (\<lambda>mask. Ok (Some mask))
       | _ \<Rightarrow> Ok None))"

fun predicate_mask :: "text_ops \<Rightarrow> expr \<Rightarrow> chunk \<Rightarrow> schema \<Rightarrow> bool list option result" where
  "predicate_mask tx (EBinary op l r) ck sc =
     (if op = And then bindR (predicate_mask tx l ck sc) (\<lambda>a. bindR (predicate_mask tx r ck sc) (\<lambda>b. Ok (both_masks (\<and>) a b)))
      else if op = Or then bindR (predicate_mask tx l ck sc) (\<lambda>a. bindR (predicate_mask tx r ck sc) (\<lambda>b. Ok (both_masks (\<or>) a b)))
      else if is_comparison op then compare_mask tx op l r ck sc
      else Ok None)"
| "predicate_mask tx (EIsNull inner negated) ck sc =
     (case simple_column sc inner of
        Some i \<Rightarrow> bindR (chunk_column_at ck i) (\<lambda>c.
          bindR (mapR (\<lambda>i. bindR (column_is_null c i) (\<lambda>n. Ok (n \<noteq> negated))) [0..<ck_len ck]) (\<lambda>mask. Ok (Some mask)))
      | None \<Rightarrow> Ok None)"
| "predicate_mask tx _ ck sc = Ok None"

definition mask_indices :: "bool list \<Rightarrow> nat list" where
  "mask_indices bits = map fst (filter snd (enumerate 0 bits))"

definition filter_keep ::
  "text_ops \<Rightarrow> subquery_runner \<Rightarrow> eval_ctx option \<Rightarrow> schema \<Rightarrow> expr \<Rightarrow> chunk \<Rightarrow> nat list result" where
  "filter_keep tx run outer sc e ck =
     bindR (predicate_mask tx e ck sc) (\<lambda>m. case m of
         Some bits \<Rightarrow> Ok (mask_indices bits)
       | None \<Rightarrow> filterR (\<lambda>i. bindR (chunk_row ck i) (filter_row tx run outer sc e)) [0..<ck_len ck])"

partial_function (option) filter_next_chunk ::
  "text_ops \<Rightarrow> subquery_runner \<Rightarrow> eval_ctx option \<Rightarrow> schema \<Rightarrow> expr \<Rightarrow> ('s \<Rightarrow> (chunk option \<times> 's) result option) \<Rightarrow> 's \<Rightarrow>
    (chunk option \<times> 's) result option" where
  "filter_next_chunk tx run outer sc e pull s =
     (case pull s of
        None \<Rightarrow> None
      | Some (Err x) \<Rightarrow> Some (Err x)
      | Some (Ok (None, t)) \<Rightarrow> Some (Ok (None, t))
      | Some (Ok (Some ck, t)) \<Rightarrow>
          (case filter_keep tx run outer sc e ck of
             Err x \<Rightarrow> Some (Err x)
           | Ok keep \<Rightarrow>
               if keep \<noteq> [] then Some (bindR (chunk_take ck keep) (\<lambda>ck. Ok (Some ck, t)))
               else filter_next_chunk tx run outer sc e pull t))"

definition project_column ::
  "text_ops \<Rightarrow> subquery_runner \<Rightarrow> eval_ctx option \<Rightarrow> schema \<Rightarrow> chunk \<Rightarrow> expr \<Rightarrow> chunk_column result" where
  "project_column tx run outer sc ck e =
     (case simple_column sc e of
        Some i \<Rightarrow> chunk_column_at ck i
      | None \<Rightarrow>
          bindR (mapR (\<lambda>i. bindR (chunk_row ck i) (\<lambda>r. eval_bound tx run e (Some (EvalCtx (RowScope sc r) outer)))) [0..<ck_len ck])
            column_from_values)"

definition project_chunk ::
  "text_ops \<Rightarrow> subquery_runner \<Rightarrow> eval_ctx option \<Rightarrow> schema \<Rightarrow> expr list \<Rightarrow> chunk \<Rightarrow> chunk result" where
  "project_chunk tx run outer sc exprs ck =
     bindR (mapR (project_column tx run outer sc ck) exprs) (\<lambda>cs. Ok (chunk_from_columns cs))"

subsection \<open>A constant is the same in every context\<close>

lemma simple_column_index: "simple_column sc e = column_index sc e"
  by (simp add: simple_column_def column_index_def)

lemma mapR_Ok_mono:
  assumes "mapR f xs = Ok vs" "\<And>x v. x \<in> set xs \<Longrightarrow> f x = Ok v \<Longrightarrow> g x = Ok v"
  shows "mapR g xs = Ok vs"
  using assms(1) list.rel_mono_strong [of "\<lambda>x y. f x = Ok y" xs vs "\<lambda>x y. g x = Ok y"] assms(2) by (simp add: mapR_Ok_iff)

lemma mapR_Ok_elem: "mapR f xs = Ok vs \<Longrightarrow> x \<in> set xs \<Longrightarrow> \<exists>v. f x = Ok v"
  by (induction xs arbitrary: vs) (auto simp: bindR_Ok_iff)

lemma eval_const_any:
  assumes "eval tx e None = Ok v"
  shows "eval tx e c = Ok v" "\<not> expr_has_subquery e"
proof -
  have all: "ctx = None \<longrightarrow> (\<forall>v. eval tx e ctx = Ok v \<longrightarrow> eval tx e c = Ok v \<and> \<not> expr_has_subquery e)"
    "ctx = None \<longrightarrow> (\<forall>v. eval_function tx name args ctx = Ok v \<longrightarrow> eval_function tx name args c = Ok v \<and> \<not> list_ex expr_has_subquery args)"
    "eval_aggregate tx func arg dist sc rows = eval_aggregate tx func arg dist sc rows" for ctx name args func arg dist sc rows
  proof (induction tx e ctx and tx name args ctx and tx func arg dist sc rows rule: eval_eval_function_eval_aggregate.induct)
    case (15 tx name args ctx)
    show ?case
    proof (intro impI allI)
      fix v
      assume ctx: "ctx = None" and "eval_function tx name args ctx = Ok v"
      then obtain vs where vs: "mapR (\<lambda>a. eval tx a ctx) args = Ok vs" "apply_function tx name vs = Ok v" by (auto simp: bindR_Ok_iff)
      have "mapR (\<lambda>a. eval tx a c) args = Ok vs"
        using vs(1) by (rule mapR_Ok_mono) (use 15 ctx in auto)
      moreover have "\<not> expr_has_subquery a" if "a \<in> set args" for a
        using mapR_Ok_elem [OF vs(1) that] 15 [OF that] ctx by auto
      ultimately show "eval_function tx name args c = Ok v \<and> \<not> list_ex expr_has_subquery args" using vs(2) by (auto simp: list_ex_iff)
    qed
  next
    case (9 tx op l r ctx)
    then show ?case by (auto simp: bindR_Ok_iff)
  next
    case (11 tx e p negated escape ctx)
    show ?case
    proof (intro impI allI)
      fix v
      assume ctx: "ctx = None" and v: "eval tx (ELike e p negated escape) ctx = Ok v"
      then obtain a b where ab: "eval tx e ctx = Ok a" "eval tx p ctx = Ok b" by (auto simp: bindR_Ok_iff)
      with 11 ctx have "eval tx e c = Ok a" "eval tx p c = Ok b" "\<not> expr_has_subquery e" "\<not> expr_has_subquery p" by auto
      with ab v show "eval tx (ELike e p negated escape) c = Ok v \<and> \<not> expr_has_subquery (ELike e p negated escape)" by simp
    qed
  qed (auto simp: bindR_Ok_iff resolve_column_def simp del: eval_function.simps eval_aggregate.simps)
  show "eval tx e c = Ok v" "\<not> expr_has_subquery e" using all(1) [where ctx = None] assms by simp_all
qed

lemma bind_expr_id: "\<not> expr_has_subquery e \<Longrightarrow> bind_expr run e c = Ok e"
proof (induction run e c rule: bind_expr.induct)
  case (8 run name args outer)
  then have "mapR (\<lambda>a. bind_expr run a outer) args = Ok args" by (auto simp: mapR_Ok_iff list_all2_same list_ex_iff)
  then show ?case by simp
qed simp_all

lemma eval_bound_bind: "eval_bound tx run e c = bindR (bind_expr run e c) (\<lambda>b. eval tx b c)"
  by (simp add: eval_bound_def bind_expr_id)

lemma eval_bound_binary:
  "ok_of (eval_bound tx run (EBinary op l r) c) =
    Option.bind (ok_of (eval_bound tx run l c)) (\<lambda>lv. Option.bind (ok_of (eval_bound tx run r c)) (\<lambda>rv. ok_of (eval_binary op lv rv)))"
proof (cases "bind_expr run l c")
  case (Ok l')
  show ?thesis
  proof (cases "bind_expr run r c")
    case (Err x)
    with \<open>bind_expr run l c = Ok l'\<close> show ?thesis by (cases "eval tx l' c") (simp_all add: eval_bound_bind)
  qed (simp add: eval_bound_bind \<open>bind_expr run l c = Ok l'\<close> ok_of_bindR)
qed (simp add: eval_bound_bind)

subsection \<open>The mask is the predicate, row by row\<close>

lemma operand_value_eval:
  assumes ck: "chunk_ok ck" "length (ck_columns ck) = length sc" "i < ck_len ck" and x: "operand_of tx e sc ck = Ok (Some x)"
  shows "\<exists>v. operand_value x i = Ok v \<and> eval tx e (Some (EvalCtx (RowScope sc (chunk_rows ck ! i)) outer)) = Ok v \<and> \<not> expr_has_subquery e"
proof (cases "simple_column sc e")
  case (Some c)
  then have c: "column_index sc e = Some c" by (simp add: simple_column_index)
  with column_index_eval(1) [OF c] ck(2) have "c < length (ck_columns ck)" by simp
  with Some x have "x = OColumn (ck_columns ck ! c)" by (simp add: operand_of_def chunk_column_at_def idx_def)
  moreover have "length (chunk_rows ck ! i) = length sc" using ck by (simp add: chunk_rows_def)
  moreover have "column_value (ck_columns ck ! c) i = Ok (chunk_rows ck ! i ! c)"
    using chunk_cell [OF ck(1,3) \<open>c < length (ck_columns ck)\<close>] \<open>c < length (ck_columns ck)\<close> by (simp add: chunk_column_at_def idx_def)
  ultimately show ?thesis using column_index_eval(2,4) [OF c] by (simp add: operand_value_def)
next
  case None
  with x obtain v where "eval tx e None = Ok v" "x = OConst v" by (auto simp: operand_of_def eval_const_def split: result.splits)
  with eval_const_any [OF this(1)] show ?thesis by (auto simp: operand_value_def)
qed

lemma operand_no_subquery: "operand_of tx e sc ck = Ok (Some x) \<Longrightarrow> \<not> expr_has_subquery e"
  by (auto simp: operand_of_def eval_const_def simple_column_index dest: eval_const_any(2) column_index_eval(2) split: option.splits result.splits)

lemma operand_of_no_error: "length (ck_columns ck) = length sc \<Longrightarrow> operand_of tx e sc ck \<noteq> Err x"
  by (auto simp: operand_of_def simple_column_index chunk_column_at_def idx_def dest: column_index_eval(1) split: option.splits result.splits)

lemma comparison_tri:
  assumes "is_comparison op" "eval_binary op l r = Ok v"
  shows "\<exists>t. v = tri t"
proof -
  have "compare op l r = Ok v" using assms by (auto simp: is_comparison_def eval_binary_def)
  then have "v = tri None \<or> (\<exists>b. v = tri (Some b))" by (auto simp: compare_def bindR_Ok_iff split: if_splits)
  then show ?thesis by blast
qed

text \<open>The value of the predicate on each row, in terms of three-valued logic.\<close>

abbreviation row_eval :: "text_ops \<Rightarrow> eval_ctx option \<Rightarrow> schema \<Rightarrow> chunk \<Rightarrow> expr \<Rightarrow> nat \<Rightarrow> sql_value result" where
  "row_eval tx outer sc ck e i \<equiv> eval tx e (Some (EvalCtx (RowScope sc (chunk_rows ck ! i)) outer))"

abbreviation row_bound :: "text_ops \<Rightarrow> subquery_runner \<Rightarrow> eval_ctx option \<Rightarrow> schema \<Rightarrow> chunk \<Rightarrow> expr \<Rightarrow> nat \<Rightarrow> sql_value result" where
  "row_bound tx run outer sc ck e i \<equiv> eval_bound tx run e (Some (EvalCtx (RowScope sc (chunk_rows ck ! i)) outer))"

definition mask_of :: "text_ops \<Rightarrow> eval_ctx option \<Rightarrow> schema \<Rightarrow> chunk \<Rightarrow> expr \<Rightarrow> bool list \<Rightarrow> bool" where
  "mask_of tx outer sc ck e bits \<longleftrightarrow>
     \<not> expr_has_subquery e \<and> length bits = ck_len ck \<and>
     (\<forall>i < ck_len ck. \<exists>t. row_eval tx outer sc ck e i = Ok (tri t) \<and> bits ! i = (t = Some True))"

lemma mask_ofD:
  assumes "mask_of tx outer sc ck e bits" "i < ck_len ck"
  obtains t where "row_eval tx outer sc ck e i = Ok (tri t)" "bits ! i = (t = Some True)"
  using assms unfolding mask_of_def by blast

lemma compare_mask_rows:
  assumes ck: "chunk_ok ck" "length (ck_columns ck) = length sc" and op: "is_comparison op"
  shows "compare_mask tx op l r ck sc = Ok (Some bits) \<Longrightarrow> mask_of tx outer sc ck (EBinary op l r) bits"
    and "compare_mask tx op l r ck sc = Err x \<Longrightarrow> \<exists>i < ck_len ck. \<exists>x. row_bound tx run outer sc ck (EBinary op l r) i = Err x"
proof -
  have cell: "\<exists>lv rv. operand_value a i = Ok lv \<and> operand_value b i = Ok rv \<and> row_eval tx outer sc ck (EBinary op l r) i = eval_binary op lv rv"
    if "operand_of tx l sc ck = Ok (Some a)" "operand_of tx r sc ck = Ok (Some b)" "i < ck_len ck" for a b i
    using operand_value_eval [OF ck that(3,1), of outer] operand_value_eval [OF ck that(3,2), of outer] by auto
  let ?G = "\<lambda>a b i. bindR (operand_value a i) (\<lambda>lv. bindR (operand_value b i) (\<lambda>rv. bindR (eval_binary op lv rv) (\<lambda>passed. Ok (passed = VBool True))))"
  show "mask_of tx outer sc ck (EBinary op l r) bits" if m: "compare_mask tx op l r ck sc = Ok (Some bits)"
  proof -
    obtain a b where ab: "operand_of tx l sc ck = Ok (Some a)" "operand_of tx r sc ck = Ok (Some b)" "mapR (?G a b) [0..<ck_len ck] = Ok bits"
      using m by (auto simp: compare_mask_def bindR_Ok_iff split: option.splits)
    have len: "length bits = ck_len ck" and g: "\<And>i. i < ck_len ck \<Longrightarrow> ?G a b i = Ok (bits ! i)"
      using ab(3) by (auto simp: mapR_Ok_iff list_all2_conv_all_nth)
    have "\<exists>t. row_eval tx outer sc ck (EBinary op l r) i = Ok (tri t) \<and> bits ! i = (t = Some True)" if i: "i < ck_len ck" for i
    proof -
      obtain lv rv v where v: "eval_binary op lv rv = Ok v" "row_eval tx outer sc ck (EBinary op l r) i = Ok v" "bits ! i = (v = VBool True)"
        using cell [OF ab(1,2) i] g [OF i] by (auto simp: bindR_Ok_iff)
      obtain t where "v = tri t" using comparison_tri [OF op v(1)] by auto
      with v show ?thesis by (intro exI [of _ t]) (cases t; simp)
    qed
    with len ab show ?thesis by (simp add: mask_of_def operand_no_subquery)
  qed
  show "\<exists>i < ck_len ck. \<exists>x. row_bound tx run outer sc ck (EBinary op l r) i = Err x" if m: "compare_mask tx op l r ck sc = Err x"
  proof -
    obtain a b where ab: "operand_of tx l sc ck = Ok (Some a)" "operand_of tx r sc ck = Ok (Some b)" "mapR (?G a b) [0..<ck_len ck] = Err x"
      using m ck(2) by (auto simp: compare_mask_def bindR_Err_iff operand_of_no_error split: option.splits)
    from mapR_Err [OF ab(3)] obtain i where i: "i < ck_len ck" "?G a b i = Err x" by auto
    obtain lv rv where "operand_value a i = Ok lv" "operand_value b i = Ok rv" "row_eval tx outer sc ck (EBinary op l r) i = eval_binary op lv rv"
      using cell [OF ab(1,2) i(1)] by blast
    with i(2) have "row_bound tx run outer sc ck (EBinary op l r) i = Err x"
      using operand_no_subquery [OF ab(1)] operand_no_subquery [OF ab(2)] by (simp add: eval_bound_def bindR_Err_iff del: eval.simps)
    with i(1) show ?thesis by blast
  qed
qed

lemma column_is_null_value: "column_is_null c i = bindR (column_value c i) (\<lambda>v. Ok (v = VNull))"
  by (cases c) (auto simp: idx_def opt_value_def split: option.split)

lemma null_mask_rows:
  assumes ck: "chunk_ok ck" "length (ck_columns ck) = length sc" and c: "simple_column sc e = Some c"
  shows "predicate_mask tx (EIsNull e negated) ck sc = Ok (Some (map (\<lambda>i. (chunk_rows ck ! i ! c = VNull) \<noteq> negated) [0..<ck_len ck]))"
    and "i < ck_len ck \<Longrightarrow> row_eval tx outer sc ck (EIsNull e negated) i = Ok (VBool ((chunk_rows ck ! i ! c = VNull) \<noteq> negated))"
    and "\<not> expr_has_subquery e"
proof -
  have c': "column_index sc e = Some c" using c by (simp add: simple_column_index)
  with column_index_eval(1) [OF c'] ck(2) have lc: "c < length (ck_columns ck)" by simp
  have "column_is_null (ck_columns ck ! c) i = Ok (chunk_rows ck ! i ! c = VNull)" if "i < ck_len ck" for i
    using chunk_cell [OF ck(1) that lc] lc by (simp add: column_is_null_value chunk_column_at_def idx_def)
  then have "mapR (\<lambda>i. bindR (column_is_null (ck_columns ck ! c) i) (\<lambda>n. Ok (n \<noteq> negated))) [0..<ck_len ck] =
      Ok (map (\<lambda>i. (chunk_rows ck ! i ! c = VNull) \<noteq> negated) [0..<ck_len ck])"
    by (auto simp: mapR_Ok_iff list_all2_map2 list_all2_same)
  with c lc show "predicate_mask tx (EIsNull e negated) ck sc = Ok (Some (map (\<lambda>i. (chunk_rows ck ! i ! c = VNull) \<noteq> negated) [0..<ck_len ck]))"
    by (simp add: chunk_column_at_def idx_def)
  show "row_eval tx outer sc ck (EIsNull e negated) i = Ok (VBool ((chunk_rows ck ! i ! c = VNull) \<noteq> negated))" if "i < ck_len ck"
    using column_index_eval(4) [OF c', of "chunk_rows ck ! i"] that ck(2) by (simp add: chunk_rows_def)
  show "\<not> expr_has_subquery e" using column_index_eval(2) [OF c'] .
qed

lemma mask_connective:
  assumes op: "op = And \<and> f = (\<and>) \<or> op = Or \<and> f = (\<or>)"
    and ab: "mask_of tx outer sc ck l a" "mask_of tx outer sc ck r b"
  shows "mask_of tx outer sc ck (EBinary op l r) (map2 f a b)"
proof -
  have "\<exists>t. row_eval tx outer sc ck (EBinary op l r) i = Ok (tri t) \<and> map2 f a b ! i = (t = Some True)" if i: "i < ck_len ck" for i
  proof -
    obtain s where s: "row_eval tx outer sc ck l i = Ok (tri s)" "a ! i = (s = Some True)" by (rule mask_ofD [OF ab(1) i])
    obtain t where t: "row_eval tx outer sc ck r i = Ok (tri t)" "b ! i = (t = Some True)" by (rule mask_ofD [OF ab(2) i])
    have "eval_binary op (tri s) (tri t) = Ok (tri (kleene f s t)) \<and> (kleene f s t = Some True) = f (s = Some True) (t = Some True)"
      using op by (cases s; cases t) (auto simp: kleene_cases eval_binary_def)
    with s t i ab show ?thesis by (intro exI [of _ "kleene f s t"]) (simp add: mask_of_def)
  qed
  with ab show ?thesis by (simp add: mask_of_def)
qed

lemma predicate_mask_rows:
  assumes ck: "chunk_ok ck" "length (ck_columns ck) = length sc"
  shows "(\<forall>bits. predicate_mask tx e ck sc = Ok (Some bits) \<longrightarrow> mask_of tx outer sc ck e bits) \<and>
    (\<forall>x. predicate_mask tx e ck sc = Err x \<longrightarrow> (\<exists>i < ck_len ck. \<exists>x. row_bound tx run outer sc ck e i = Err x))"
  using ck
proof (induction tx e ck sc rule: predicate_mask.induct)
  case (1 tx op l r ck sc)
  consider (conn) f where "op = And \<and> f = (\<and>) \<or> op = Or \<and> f = (\<or>)" | (cmp) "op \<noteq> And" "op \<noteq> Or" "is_comparison op" | (none) "op \<noteq> And" "op \<noteq> Or" "\<not> is_comparison op"
    by blast
  then show ?case
  proof cases
    case conn
    then have mask_eq: "predicate_mask tx (EBinary op l r) ck sc =
        bindR (predicate_mask tx l ck sc) (\<lambda>a. bindR (predicate_mask tx r ck sc) (\<lambda>b. Ok (both_masks f a b)))" by auto
    have IHl: "\<And>bits. predicate_mask tx l ck sc = Ok (Some bits) \<Longrightarrow> mask_of tx outer sc ck l bits"
      "\<And>x. predicate_mask tx l ck sc = Err x \<Longrightarrow> \<exists>i < ck_len ck. \<exists>x. row_bound tx run outer sc ck l i = Err x"
      using conn "1.IH"(1,3) "1.prems" by blast+
    have IHr: "\<And>bits. predicate_mask tx r ck sc = Ok (Some bits) \<Longrightarrow> mask_of tx outer sc ck r bits"
      "\<And>x. predicate_mask tx r ck sc = Err x \<Longrightarrow> \<exists>i < ck_len ck. \<exists>x. row_bound tx run outer sc ck r i = Err x"
      if "predicate_mask tx l ck sc = Ok a" for a
      using conn "1.IH"(2,4) "1.prems" that by blast+
    show ?thesis
    proof (intro conjI allI impI)
      fix bits
      assume "predicate_mask tx (EBinary op l r) ck sc = Ok (Some bits)"
      then obtain a b where "predicate_mask tx l ck sc = Ok (Some a)" "predicate_mask tx r ck sc = Ok (Some b)" "bits = map2 f a b"
        unfolding mask_eq by (auto simp: bindR_Ok_iff both_masks_def split: option.splits)
      with IHl(1) IHr(1) show "mask_of tx outer sc ck (EBinary op l r) bits" using mask_connective [OF conn] by simp
    next
      fix x
      assume "predicate_mask tx (EBinary op l r) ck sc = Err x"
      then have "predicate_mask tx l ck sc = Err x \<or> (\<exists>a. predicate_mask tx l ck sc = Ok a \<and> predicate_mask tx r ck sc = Err x)"
        unfolding mask_eq by (auto simp: bindR_Err_iff)
      with IHl(2) IHr(2) obtain i x where i: "i < ck_len ck" "row_bound tx run outer sc ck l i = Err x \<or> row_bound tx run outer sc ck r i = Err x" by blast
      then have "ok_of (row_bound tx run outer sc ck (EBinary op l r) i) = None"
        unfolding eval_bound_binary by (cases "row_bound tx run outer sc ck l i") auto
      with i(1) show "\<exists>i < ck_len ck. \<exists>x. row_bound tx run outer sc ck (EBinary op l r) i = Err x" unfolding ok_of_None by blast
    qed
  next
    case cmp
    then show ?thesis using compare_mask_rows(1) [OF "1.prems" cmp(3), of tx l r _ outer] compare_mask_rows(2) [OF "1.prems" cmp(3), of tx l r _ run outer] by auto
  qed simp
next
  case (2 tx e negated ck sc)
  show ?case
  proof (cases "simple_column sc e")
    case (Some c)
    note nm = null_mask_rows [OF "2.prems" Some]
    show ?thesis using nm(3) 
      by (auto simp: nm(1) nm(2) mask_of_def simp del: predicate_mask.simps eval.simps intro!: exI [of _ "Some b" for b])
  qed simp
qed simp_all

subsection \<open>The filter keeps the same rows\<close>

lemma ok_of_filterR: "ok_of (filterR p xs) = (if \<forall>x \<in> set xs. \<exists>b. p x = Ok b then Some (filter (\<lambda>x. p x = Ok True) xs) else None)"
proof (induction xs)
  case (Cons x xs)
  have step: "filterR p (x # xs) = bindR (p x) (\<lambda>b. bindR (filterR p xs) (\<lambda>ys. Ok (if b then x # ys else ys)))"
    by (simp add: filterR_def) (cases "p x"; cases "mapR (\<lambda>x. bindR (p x) (\<lambda>b. Ok (x, b))) xs"; simp)
  show ?case using Cons.IH by (cases "p x"; cases "filterR p xs") (auto simp: step split: if_splits)
qed (simp add: filterR_def)

lemma ok_of_filter_source:
  "ok_of (collected (filter_source p rs e)) = (if e = None \<and> (\<forall>x \<in> set rs. \<exists>b. p x = Ok b) then Some (filter (\<lambda>x. p x = Ok True) rs) else None)"
proof (induction rs)
  case (Cons r rs)
  then show ?case by (cases "p r"; cases "filter_source p rs e") (auto simp: collected_def after_def split: if_splits option.splits)
qed (auto simp: collected_def after_def split: option.splits)

lemma filter_source_append:
  "ok_of (collected (filter_source p (a @ b) e)) =
    (if \<forall>x \<in> set a. \<exists>y. p x = Ok y then map_option ((@) (filter (\<lambda>x. p x = Ok True) a)) (ok_of (collected (filter_source p b e))) else None)"
  unfolding ok_of_filter_source by auto

lemma mask_indices_filter: "mask_indices bits = filter (\<lambda>i. bits ! i) [0..<length bits]"
proof (induction bits rule: rev_induct)
  case (snoc b bits)
  have "filter (\<lambda>i. (bits @ [b]) ! i) [0..<length bits] = filter (\<lambda>i. bits ! i) [0..<length bits]"
    by (rule filter_cong) (auto simp: nth_append)
  with snoc show ?case by (simp add: mask_indices_def enumerate_append_eq)
qed (simp add: mask_indices_def)

lemma filter_row_tri:
  assumes "\<not> expr_has_subquery e" "eval tx e (Some (EvalCtx (RowScope sc r) outer)) = Ok (tri t)"
  shows "filter_row tx run outer sc e r = Ok (t = Some True)"
  using assms by (cases t) (auto simp: filter_row_def eval_predicate_bound_def eval_bound_def)

lemma filter_keep_rows:
  assumes ck: "chunk_ok ck" "length (ck_columns ck) = length sc"
  shows "ok_of (filter_keep tx run outer sc e ck) =
    (if \<forall>i < ck_len ck. \<exists>b. filter_row tx run outer sc e (chunk_rows ck ! i) = Ok b
     then Some (filter (\<lambda>i. filter_row tx run outer sc e (chunk_rows ck ! i) = Ok True) [0..<ck_len ck]) else None)"
proof (cases "predicate_mask tx e ck sc")
  case (Err x)
  then obtain i y where i: "i < ck_len ck" "row_bound tx run outer sc ck e i = Err y" using predicate_mask_rows [OF ck, of tx e outer run] by blast
  then have "filter_row tx run outer sc e (chunk_rows ck ! i) = Err y" by (simp add: filter_row_def eval_predicate_bound_def)
  with Err i(1) show ?thesis by (auto simp: filter_keep_def)
next
  case (Ok m)
  show ?thesis
  proof (cases m)
    case None
    have row: "chunk_row ck i = Ok (chunk_rows ck ! i)" if "i < ck_len ck" for i
      using chunk_row_ok [OF ck(1) that] that by (simp add: chunk_rows_def)
    then have "filterR (\<lambda>i. bindR (chunk_row ck i) (filter_row tx run outer sc e)) [0..<ck_len ck] =
        filterR (\<lambda>i. filter_row tx run outer sc e (chunk_rows ck ! i)) [0..<ck_len ck]"
      unfolding filterR_def by (intro arg_cong2 [where f = bindR] mapR_cong) auto
    with Ok None show ?thesis by (simp add: filter_keep_def ok_of_filterR)
  next
    case (Some bits)
    with Ok have bits: "mask_of tx outer sc ck e bits" using predicate_mask_rows [OF ck, of tx e outer run] by blast
    have p: "filter_row tx run outer sc e (chunk_rows ck ! i) = Ok (bits ! i)" if i: "i < ck_len ck" for i
    proof -
      obtain t where "row_eval tx outer sc ck e i = Ok (tri t)" "bits ! i = (t = Some True)" by (rule mask_ofD [OF bits i])
      with bits show ?thesis using filter_row_tri [of e tx sc "chunk_rows ck ! i" outer t] by (simp add: mask_of_def)
    qed
    have "filter (\<lambda>i. bits ! i) [0..<ck_len ck] = filter (\<lambda>i. filter_row tx run outer sc e (chunk_rows ck ! i) = Ok True) [0..<ck_len ck]"
      by (rule filter_cong) (auto simp: p)
    with Ok Some p bits show ?thesis by (auto simp: filter_keep_def mask_indices_filter mask_of_def)
  qed
qed

fun filter_chunks ::
  "text_ops \<Rightarrow> subquery_runner \<Rightarrow> eval_ctx option \<Rightarrow> schema \<Rightarrow> expr \<Rightarrow> chunk list \<Rightarrow> error option \<Rightarrow> chunk source" where
  "filter_chunks tx run outer sc e [] err = ([], err)"
| "filter_chunks tx run outer sc e (ck # cks) err =
     (case filter_keep tx run outer sc e ck of
        Err x \<Rightarrow> ([], Some x)
      | Ok keep \<Rightarrow>
          if keep = [] then filter_chunks tx run outer sc e cks err
          else (case chunk_take ck keep of Err x \<Rightarrow> ([], Some x) | Ok c \<Rightarrow> apfst ((#) c) (filter_chunks tx run outer sc e cks err)))"

lemma filter_chunk_stream:
  assumes "row_stream pull remaining good"
  shows "row_stream (filter_next_chunk tx run outer sc e pull) (\<lambda>s. filter_chunks tx run outer sc e (fst (remaining s)) (snd (remaining s))) good"
proof
  let ?next = "filter_next_chunk tx run outer sc e pull" and ?src = "filter_chunks tx run outer sc e"
  fix s
  assume "good s"
  then have "yields (?next s) (\<lambda>s. ?src (fst (remaining s)) (snd (remaining s))) good (?src cks err)" if "remaining s = (cks, err)" for cks err
    using that
  proof (induction cks arbitrary: s)
    case Nil
    then show ?case using row_stream.pull [OF assms, of s] by (cases err) (auto simp: filter_next_chunk.simps [of tx run outer sc e pull s])
  next
    case (Cons ck cks)
    then obtain t where t: "pull s = Some (Ok (Some ck, t))" "good t" "remaining t = (cks, err)" using row_stream.pull [OF assms, of s] by auto
    note step = filter_next_chunk.simps [of tx run outer sc e pull s]
    show ?case
    proof (cases "filter_keep tx run outer sc e ck")
      case (Ok keep)
      show ?thesis
      proof (cases "keep = []")
        case True
        with Ok t Cons.IH [OF t(2,3)] show ?thesis by (simp add: step)
      next
        case False
        with Ok t show ?thesis by (cases "chunk_take ck keep"; cases "?src cks err") (simp_all add: step)
      qed
    qed (simp add: step t)
  qed
  then show "yields (?next s) (\<lambda>s. ?src (fst (remaining s)) (snd (remaining s))) good (?src (fst (remaining s)) (snd (remaining s)))" by simp
qed

definition chunks_ok :: "schema \<Rightarrow> chunk list \<Rightarrow> bool" where
  "chunks_ok sc cks \<longleftrightarrow> (\<forall>ck \<in> set cks. chunk_ok ck \<and> length (ck_columns ck) = length sc)"

definition rows_of :: "chunk list \<Rightarrow> row list" where
  "rows_of cks = concat (map chunk_rows cks)"

lemma filter_chunks_rows:
  assumes "chunks_ok sc cks"
  shows "map_option rows_of (ok_of (collected (filter_chunks tx run outer sc e cks err))) =
    ok_of (collected (filter_source (filter_row tx run outer sc e) (rows_of cks) err))"
  using assms
proof (induction cks)
  case (Cons ck cks)
  let ?p = "filter_row tx run outer sc e" and ?src = "filter_chunks tx run outer sc e cks err"
  have ck: "chunk_ok ck" "length (ck_columns ck) = length sc" and cks: "chunks_ok sc cks" using Cons.prems by (auto simp: chunks_ok_def)
  have len: "length (chunk_rows ck) = ck_len ck" by (simp add: chunk_rows_def)
  then have all: "(\<forall>x \<in> set (chunk_rows ck). \<exists>b. ?p x = Ok b) \<longleftrightarrow> (\<forall>i < ck_len ck. \<exists>b. ?p (chunk_rows ck ! i) = Ok b)"
    by (auto simp: all_set_conv_all_nth)
  have rows: "rows_of (ck # cks) = chunk_rows ck @ rows_of cks" by (simp add: rows_of_def)
  show ?case
  proof (cases "filter_keep tx run outer sc e ck")
    case (Err x)
    then have "\<not> (\<forall>x \<in> set (chunk_rows ck). \<exists>b. ?p x = Ok b)" using filter_keep_rows [OF ck, of tx run outer e] all by (auto split: if_splits)
    with Err show ?thesis by (simp only: rows filter_source_append if_False) (simp add: collected_def after_def)
  next
    case (Ok keep)
    then have ok: "\<forall>x \<in> set (chunk_rows ck). \<exists>b. ?p x = Ok b" and keep: "keep = filter (\<lambda>i. ?p (chunk_rows ck ! i) = Ok True) [0..<ck_len ck]"
      using filter_keep_rows [OF ck, of tx run outer e] all by (auto split: if_splits)
    have kept: "map ((!) (chunk_rows ck)) keep = filter (\<lambda>x. ?p x = Ok True) (chunk_rows ck)"
    proof -
      have "map ((!) (chunk_rows ck)) [0..<ck_len ck] = chunk_rows ck" using map_nth [of "chunk_rows ck"] len by simp
      with filter_map [of "\<lambda>x. ?p x = Ok True" "(!) (chunk_rows ck)" "[0..<ck_len ck]"] show ?thesis by (simp add: keep comp_def)
    qed
    have IH: "map_option rows_of (ok_of (collected ?src)) = ok_of (collected (filter_source ?p (rows_of cks) err))" using Cons.IH cks by simp
    have bound: "\<forall>i \<in> set keep. i < ck_len ck" by (simp add: keep)
    obtain c where c: "chunk_take ck keep = Ok c" using chunk_take_total [OF ck(1) bound] by blast
    have c_rows: "chunk_rows c = map ((!) (chunk_rows ck)) keep" using chunk_take_rows [OF ck(1) c bound] by simp
    show ?thesis
    proof (cases "keep = []")
      case True
      have "(if \<forall>x \<in> set (chunk_rows ck). \<exists>b. ?p x = Ok b then m else None) = m" for m :: "row list option" by (rule if_P [OF ok])
      moreover have "filter (\<lambda>x. ?p x = Ok True) (chunk_rows ck) = []" using kept True by simp
      moreover have "(@) [] = (id :: row list \<Rightarrow> row list)" by (rule ext) simp
      ultimately show ?thesis using Ok True by (simp only: rows filter_source_append IH [symmetric]) (simp add: option.map_id)
    next
      case False
      obtain out err' where src: "?src = (out, err')" by fastforce
      have "collected (apfst ((#) c) ?src) = bindR (collected ?src) (\<lambda>cs. Ok (c # cs))" by (simp add: src collected_def after_def split: option.split)
      with Ok False c have lhs: "map_option rows_of (ok_of (collected (filter_chunks tx run outer sc e (ck # cks) err))) =
          map_option ((@) (chunk_rows c)) (map_option rows_of (ok_of (collected ?src)))"
        by (cases "collected ?src") (simp_all add: rows_of_def)
      have "(if \<forall>x \<in> set (chunk_rows ck). \<exists>b. ?p x = Ok b then m else None) = m" for m :: "row list option" by (rule if_P [OF ok])
      then show ?thesis unfolding lhs by (simp only: rows filter_source_append IH [symmetric] c_rows kept)
    qed
  qed
qed (simp add: rows_of_def collected_def after_def split: option.split)

subsection \<open>The projection computes the same rows\<close>

lemma project_column_values:
  assumes ck: "chunk_ok ck" "length (ck_columns ck) = length sc" and c: "project_column tx run outer sc ck e = Ok c"
  shows "length (column_values c) = ck_len ck"
    and "i < ck_len ck \<Longrightarrow> row_bound tx run outer sc ck e i = Ok (column_values c ! i)"
proof -
  have row: "chunk_row ck i = Ok (chunk_rows ck ! i)" if "i < ck_len ck" for i
    using chunk_row_ok [OF ck(1) that] that by (simp add: chunk_rows_def)
  have "length (column_values c) = ck_len ck \<and> (\<forall>i < ck_len ck. row_bound tx run outer sc ck e i = Ok (column_values c ! i))"
  proof (cases "simple_column sc e")
    case (Some j)
    then have j: "column_index sc e = Some j" by (simp add: simple_column_index)
    with column_index_eval(1) [OF j] ck(2) have lj: "j < length (ck_columns ck)" by simp
    with c Some have "c = ck_columns ck ! j" by (simp add: project_column_def chunk_column_at_def idx_def)
    moreover have "length (chunk_rows ck ! i) = length sc" if "i < ck_len ck" for i using that ck(2) by (simp add: chunk_rows_def)
    ultimately show ?thesis using ck(1) lj column_index_eval(2,4) [OF j] by (auto simp: eval_bound_def chunk_ok_def chunk_rows_def)
  next
    case None
    with c obtain vs where vs: "mapR (\<lambda>i. bindR (chunk_row ck i) (\<lambda>r. eval_bound tx run e (Some (EvalCtx (RowScope sc r) outer)))) [0..<ck_len ck] = Ok vs"
      "column_from_values vs = Ok c" by (auto simp: project_column_def bindR_Ok_iff)
    with column_from_values_values [OF vs(2)] row show ?thesis by (auto simp: mapR_Ok_iff list_all2_conv_all_nth)
  qed
  then show "length (column_values c) = ck_len ck" "i < ck_len ck \<Longrightarrow> row_bound tx run outer sc ck e i = Ok (column_values c ! i)" by auto
qed

lemma project_chunk_rows:
  assumes ck: "chunk_ok ck" "length (ck_columns ck) = length sc" and p: "project_chunk tx run outer sc exprs ck = Ok out" "exprs \<noteq> []"
  shows "chunk_ok out" "mapR (project_row tx run outer sc exprs) (chunk_rows ck) = Ok (chunk_rows out)"
proof -
  obtain cs where cs: "list_all2 (\<lambda>e c. project_column tx run outer sc ck e = Ok c) exprs cs" "out = chunk_from_columns cs"
    using p(1) by (auto simp: project_chunk_def bindR_Ok_iff mapR_Ok_iff)
  then have len: "length cs = length exprs" and col: "\<And>j. j < length cs \<Longrightarrow> project_column tx run outer sc ck (exprs ! j) = Ok (cs ! j)"
    by (auto simp: list_all2_conv_all_nth)
  note vals = project_column_values [OF ck col]
  obtain c cs' where "cs = c # cs'" using len p(2) by (cases cs) auto
  with cs(2) vals(1) [of 0] have n: "ck_len out = ck_len ck" by (simp add: chunk_from_columns_def column_len_values)
  have out: "ck_columns out = cs" using cs(2) by (simp add: chunk_from_columns_def)
  show "chunk_ok out" using vals(1) n out by (auto simp: chunk_ok_def in_set_conv_nth)
  have "project_row tx run outer sc exprs (chunk_rows ck ! i) = Ok (chunk_rows out ! i)" if "i < ck_len ck" for i
    using vals(2) [OF _ that] that len n by (auto simp: project_row_def mapR_Ok_iff list_all2_conv_all_nth chunk_rows_def out)
  then show "mapR (project_row tx run outer sc exprs) (chunk_rows ck) = Ok (chunk_rows out)"
    by (auto simp: mapR_Ok_iff list_all2_conv_all_nth chunk_rows_def n)
qed

text \<open>
  C34: The columnar operators agree with the row operators. Pulling chunks through the filter ends and keeps exactly the rows
  for which the predicate holds row by row, whether it ran as a mask or by evaluating rows, and fails exactly when
  some row fails; a projected chunk holds the rows the row path projects.
\<close>

theorem columnar_operators_agree:
  assumes "row_stream pull remaining good" "good s" "remaining s = (cks, err)" "chunks_ok sc cks"
  shows "\<exists>res. drain (filter_next_chunk tx run outer sc e pull) [] s = Some res \<and>
    map_option rows_of (ok_of res) = ok_of (collected (filter_source (filter_row tx run outer sc e) (rows_of cks) err)) \<and>
    (\<forall>ck \<in> set cks. \<forall>out. exprs \<noteq> [] \<and> project_chunk tx run outer sc exprs ck = Ok out \<longrightarrow>
       mapR (project_row tx run outer sc exprs) (chunk_rows ck) = Ok (chunk_rows out))"
proof -
  have "drain (filter_next_chunk tx run outer sc e pull) [] s = Some (collected (filter_chunks tx run outer sc e cks err))"
    using row_stream.drain_returns [OF filter_chunk_stream [OF assms(1)] assms(2), of tx run outer sc e] assms(3) by simp
  moreover have "mapR (project_row tx run outer sc exprs) (chunk_rows ck) = Ok (chunk_rows out)"
    if "ck \<in> set cks" "exprs \<noteq> []" "project_chunk tx run outer sc exprs ck = Ok out" for ck out
    using that assms(4) project_chunk_rows(2) by (simp add: chunks_ok_def)
  ultimately show ?thesis using filter_chunks_rows [OF assms(4)] by blast
qed

theorem columnar_operators_agree_witness:
  "\<exists>res. drain (filter_next_chunk sample_text (\<lambda>_ _. Err Panic) None sample_schema (EBinary Gt (EColumn [97]) (EInt 2)) (default_next_chunk buffered_next)) []
      (buffer_of sample_rows) = Some res \<and> map_option rows_of (ok_of res) = Some [[VInt 4, VStr [121]]]"
proof -
  let ?e = "EBinary Gt (EColumn [97]) (EInt 2)" and ?run = "\<lambda>_ _. Err Panic"
  let ?cks = "[\<lparr> ck_columns = [CInt [Some 1], CStr [Some [120]]], ck_len = 1 \<rparr>, \<lparr> ck_columns = [CInt [Some 4], CStr [Some [121]]], ck_len = 1 \<rparr>,
    \<lparr> ck_columns = [CStr [None], CStr [Some [120]]], ck_len = 1 \<rparr>]"
  have stream: "row_stream (default_next_chunk buffered_next) (\<lambda>b. project_source chunk_from_row (drop (bf_pos b) (bf_rows b)) None) (\<lambda>_. True)"
    using project_stream [OF buf.row_stream_axioms, of chunk_from_row] by (simp add: default_next_chunk_def)
  have "project_source chunk_from_row (drop (bf_pos (buffer_of sample_rows)) (bf_rows (buffer_of sample_rows))) None = (?cks, None)"
    by (simp add: buffer_of_def sample_rows_def chunk_from_row_def chunk_from_rows_def column_from_values_def column_for_value_def idx_def upt_rec)
  from columnar_operators_agree [OF stream _ this, of sample_schema sample_text ?run None ?e "[]"]
  obtain res where res: "drain (filter_next_chunk sample_text ?run None sample_schema ?e (default_next_chunk buffered_next)) [] (buffer_of sample_rows) = Some res"
    "map_option rows_of (ok_of res) = ok_of (collected (filter_source (filter_row sample_text ?run None sample_schema ?e) (rows_of ?cks) None))"
    by (auto simp: chunks_ok_def chunk_ok_def sample_schema_def)
  have rows: "rows_of ?cks = sample_rows" by (simp add: rows_of_def chunk_rows_def sample_rows_def opt_value_def)
  have "collected (filter_source (filter_row sample_text ?run None sample_schema ?e) sample_rows None) = Ok [[VInt 4, VStr [121]]]"
    by (simp add: sample_rows_def filter_row_def eval_predicate_bound_def eval_bound_def sample_schema_def plain_column_def resolve_column_def
      scope_lookup_def resolve_def matching_columns_def idx_def eval_binary_def compare_def cmp_by_def collected_def after_def)
  with res show ?thesis unfolding rows by simp
qed

end
