(* ===== verification/Joins.thy ===== *)
theory Joins
  imports Columnar Index_Key
begin

text \<open>
  The join operators of \<open>exec/operator.rs\<close>: the nested loop, the analysis that turns a condition into hash keys, the hash
  join, and the loop of \<open>build_select\<close> that chooses between them and takes equalities out of the where clause. The hash
  join delivers the rows of the nested loop in the same order. The hash join's own \<open>for_each_row\<close>, which repeats the probe loop with a sink, is not modelled.
\<close>

subsection \<open>Nested loop\<close>

definition concatR :: "('a \<Rightarrow> 'b list result) \<Rightarrow> 'a list \<Rightarrow> 'b list result" where
  "concatR f xs = bindR (mapR f xs) (\<lambda>ys. Ok (concat ys))"

definition nested_new :: "join_kind \<Rightarrow> expr option \<Rightarrow> unit result" where
  "nested_new kind cond =
     (if kind \<in> {LeftJoin, RightJoin} \<and> cond = None then Err (Runtime ''outer join requires an on clause'') else Ok ())"

definition join_matches :: "text_ops \<Rightarrow> subquery_runner \<Rightarrow> eval_ctx option \<Rightarrow> schema \<Rightarrow> expr option \<Rightarrow> row \<Rightarrow> bool result" where
  "join_matches tx run outer sc cond r =
     (case cond of None \<Rightarrow> Ok True | Some e \<Rightarrow> eval_predicate_bound tx run e sc r outer)"

definition or_else :: "row \<Rightarrow> row list \<Rightarrow> row list" where
  "or_else r rs = (if rs = [] then [r] else rs)"

definition nested_rows ::
  "text_ops \<Rightarrow> subquery_runner \<Rightarrow> eval_ctx option \<Rightarrow> join_kind \<Rightarrow> expr option \<Rightarrow> schema \<Rightarrow> schema \<Rightarrow> row list \<Rightarrow> row list \<Rightarrow> row list result" where
  "nested_rows tx run outer kind cond left right left_rows right_rows =
     (let matching = filterR (join_matches tx run outer (left @ right) cond) in
      case kind of
        LeftJoin \<Rightarrow> concatR (\<lambda>l. bindR (matching (map (\<lambda>r. l @ r) right_rows)) (\<lambda>rs.
          Ok (or_else (l @ replicate (length right) VNull) rs))) left_rows
      | RightJoin \<Rightarrow> concatR (\<lambda>r. bindR (matching (map (\<lambda>l. l @ r) left_rows)) (\<lambda>rs.
          Ok (or_else (replicate (length left) VNull @ r) rs))) right_rows
      | _ \<Rightarrow> concatR (\<lambda>l. matching (map (\<lambda>r. l @ r) right_rows)) left_rows)"

definition nested_open ::
  "text_ops \<Rightarrow> subquery_runner \<Rightarrow> eval_ctx option \<Rightarrow> join_kind \<Rightarrow> expr option \<Rightarrow> schema \<Rightarrow> schema \<Rightarrow>
    ('s \<Rightarrow> (row option \<times> 's) result option) \<Rightarrow> 's \<Rightarrow> ('t \<Rightarrow> (row option \<times> 't) result option) \<Rightarrow> 't \<Rightarrow> buffered result option" where
  "nested_open tx run outer kind cond left right pull_left l pull_right r =
     (case drain pull_left [] l of
        None \<Rightarrow> None
      | Some (Err e) \<Rightarrow> Some (Err e)
      | Some (Ok left_rows) \<Rightarrow>
          blocking_open pull_right (\<lambda>right_rows. nested_rows tx run outer kind cond left right left_rows right_rows) r)"

subsection \<open>Hash keys of a condition\<close>

fun names_column :: "expr \<Rightarrow> column_desc \<Rightarrow> bool" where
  "names_column (EColumn name) c = (col_name c = name)"
| "names_column (EQualified owner name) c = (col_owner c = Some owner \<and> col_name c = name)"
| "names_column _ c = False"

definition column_dtype :: "schema \<Rightarrow> expr \<Rightarrow> data_type option" where
  "column_dtype sc e = map_option col_dtype (find (names_column e) sc)"

fun compatible :: "data_type \<Rightarrow> data_type \<Rightarrow> bool" where
  "compatible TInt TInt = True"
| "compatible TFloat TFloat = True"
| "compatible TDate TDate = True"
| "compatible TText TText = True"
| "compatible (TChar _) (TChar _) = True"
| "compatible _ _ = False"

fun split_conjuncts :: "expr \<Rightarrow> expr list" where
  "split_conjuncts (EBinary And l r) = split_conjuncts l @ split_conjuncts r"
| "split_conjuncts e = [e]"

definition combine_and :: "expr list \<Rightarrow> expr option" where
  "combine_and parts =
     (case rev parts of [] \<Rightarrow> None | e # es \<Rightarrow> Some (foldl (\<lambda>acc e. EBinary And e acc) e es))"

record hash_keys =
  hk_left :: "expr list"
  hk_right :: "expr list"
  hk_residual :: "expr option"

definition compatible_columns :: "schema \<Rightarrow> expr \<Rightarrow> schema \<Rightarrow> expr \<Rightarrow> bool" where
  "compatible_columns left a right b =
     (case (column_dtype left a, column_dtype right b) of (Some ld, Some rd) \<Rightarrow> compatible ld rd | _ \<Rightarrow> False)"

fun hash_key_pair :: "schema \<Rightarrow> schema \<Rightarrow> expr \<Rightarrow> (expr \<times> expr) option" where
  "hash_key_pair left right (EBinary Eq a b) =
     (if compatible_columns left a right b then Some (a, b)
      else if compatible_columns left b right a then Some (b, a)
      else None)"
| "hash_key_pair left right _ = None"

fun extract_hash_keys :: "expr list \<Rightarrow> schema \<Rightarrow> schema \<Rightarrow> expr list \<times> expr list \<times> expr list" where
  "extract_hash_keys [] left right = ([], [], [])"
| "extract_hash_keys (c # cs) left right =
     (let (ls, rs, kept) = extract_hash_keys cs left right in
      case hash_key_pair left right c of
        Some (a, b) \<Rightarrow> (a # ls, b # rs, kept)
      | None \<Rightarrow> (ls, rs, c # kept))"

definition analyze_hash_join :: "join_kind \<Rightarrow> expr option \<Rightarrow> schema \<Rightarrow> schema \<Rightarrow> hash_keys option" where
  "analyze_hash_join kind cond left right =
     (if kind = Cross then None
      else (case cond of
        None \<Rightarrow> None
      | Some e \<Rightarrow>
          (let (ls, rs, residual) = extract_hash_keys (split_conjuncts e) left right in
           if ls = [] then None
           else Some \<lparr> hk_left = ls, hk_right = rs, hk_residual = combine_and residual \<rparr>)))"

fun join_clauses_from :: "nat list \<Rightarrow> nat \<Rightarrow> select_stmt \<Rightarrow> (join_kind \<times> expr option) list" where
  "join_clauses_from [] on_index s = []"
| "join_clauses_from (i # is) on_index s =
     (let kind = (if i < length (sel_joins s) then sel_joins s ! i else Cross) in
      if kind = Cross then (kind, None) # join_clauses_from is on_index s
      else (kind, if on_index < length (sel_on s) then Some (sel_on s ! on_index) else None) #
        join_clauses_from is (on_index + 1) s)"

definition join_clauses :: "select_stmt \<Rightarrow> (join_kind \<times> expr option) list" where
  "join_clauses s = join_clauses_from [1..<length (sel_from s)] 0 s"

subsection \<open>Encoded keys\<close>

definition push_key_component :: "byte list \<Rightarrow> sql_value \<Rightarrow> byte list option result" where
  "push_key_component out v =
     (if v = VNull then Ok None
      else bindR (encode_key_into (out @ [0, 0, 0, 0]) v) (\<lambda>buf.
        let start = length out; len = (word_of_nat (length buf - start - 4) :: u32)
        in Ok (Some (take start buf @ le_enc 4 (unat len) @ drop (start + 4) buf))))"

fun key_into :: "('a \<Rightarrow> sql_value result) \<Rightarrow> 'a list \<Rightarrow> byte list \<Rightarrow> byte list option result" where
  "key_into cell [] out = Ok (Some out)"
| "key_into cell (i # is) out =
     bindR (cell i) (\<lambda>v. bindR (push_key_component out v) (\<lambda>pushed.
       case pushed of None \<Rightarrow> Ok None | Some out' \<Rightarrow> key_into cell is out'))"

definition indices_key_into :: "nat list \<Rightarrow> row \<Rightarrow> byte list option result" where
  "indices_key_into indices r = key_into (idx r) indices []"

definition expr_key_into :: "text_ops \<Rightarrow> subquery_runner \<Rightarrow> expr list \<Rightarrow> schema \<Rightarrow> row \<Rightarrow> byte list option result" where
  "expr_key_into tx run keys sc r = key_into (\<lambda>key. eval_bound tx run key (Some (ctx_row sc r))) keys []"

fun key_indices :: "expr list \<Rightarrow> schema \<Rightarrow> nat list option" where
  "key_indices [] sc = Some []"
| "key_indices (e # es) sc =
     (case position (names_column e) sc of
        None \<Rightarrow> None
      | Some i \<Rightarrow> map_option ((#) i) (key_indices es sc))"

subsection \<open>Hash join\<close>

datatype match_list = One nat | Many "nat list"

fun ml_push :: "match_list \<Rightarrow> nat \<Rightarrow> match_list" where
  "ml_push (One first) i = Many [first, i]"
| "ml_push (Many rows) i = Many (rows @ [i])"

fun ml_rows :: "match_list \<Rightarrow> nat list" where
  "ml_rows (One i) = [i]"
| "ml_rows (Many rows) = rows"

record hash_join =
  hj_kind :: join_kind
  hj_keys :: hash_keys
  hj_left :: schema
  hj_right :: schema

record hash_table =
  ht_map :: "byte list \<Rightarrow> match_list option"
  ht_values :: "sql_value list"
  ht_cols :: nat

definition hj_schema :: "hash_join \<Rightarrow> schema" where
  "hj_schema h = hj_left h @ hj_right h"

definition probe_is_right :: "hash_join \<Rightarrow> bool" where
  "probe_is_right h = (hj_kind h = RightJoin)"

definition build_side :: "hash_join \<Rightarrow> schema \<times> expr list" where
  "build_side h = (if probe_is_right h then (hj_left h, hk_left (hj_keys h)) else (hj_right h, hk_right (hj_keys h)))"

definition probe_side :: "hash_join \<Rightarrow> schema \<times> expr list" where
  "probe_side h = (if probe_is_right h then (hj_right h, hk_right (hj_keys h)) else (hj_left h, hk_left (hj_keys h)))"

definition row_key :: "text_ops \<Rightarrow> subquery_runner \<Rightarrow> schema \<times> expr list \<Rightarrow> row \<Rightarrow> byte list option result" where
  "row_key tx run side r =
     (case key_indices (snd side) (fst side) of
        Some indices \<Rightarrow> indices_key_into indices r
      | None \<Rightarrow> expr_key_into tx run (snd side) (fst side) r)"

definition flat_row :: "sql_value list \<Rightarrow> nat \<Rightarrow> nat \<Rightarrow> row result" where
  "flat_row values cols i =
     (if (i + 1) * cols \<le> length values then Ok (take cols (drop (i * cols) values)) else Err Panic)"

definition add_match :: "(byte list \<Rightarrow> match_list option) \<Rightarrow> byte list option \<Rightarrow> nat \<Rightarrow> byte list \<Rightarrow> match_list option" where
  "add_match tab key i =
     (case key of
        None \<Rightarrow> tab
      | Some k \<Rightarrow> tab(k \<mapsto> (case tab k of Some ms \<Rightarrow> ml_push ms i | None \<Rightarrow> One i)))"

definition hash_build :: "text_ops \<Rightarrow> subquery_runner \<Rightarrow> hash_join \<Rightarrow> sql_value list \<Rightarrow> hash_table result" where
  "hash_build tx run h values =
     (let side = build_side h; cols = length (fst side); rows = (if cols = 0 then 0 else length values div cols) in
      bindR (foldR (\<lambda>tab i. bindR (flat_row values cols i) (\<lambda>r. bindR (row_key tx run side r) (\<lambda>key.
          Ok (add_match tab key i)))) Map.empty [0..<rows]) (\<lambda>tab.
        Ok \<lparr> ht_map = tab, ht_values = values, ht_cols = cols \<rparr>))"

definition matches_of :: "hash_table \<Rightarrow> byte list option \<Rightarrow> nat list" where
  "matches_of t key = (case Option.bind key (ht_map t) of None \<Rightarrow> [] | Some ms \<Rightarrow> ml_rows ms)"

definition combine_rows :: "hash_join \<Rightarrow> row \<Rightarrow> row \<Rightarrow> row" where
  "combine_rows h build probe = (if probe_is_right h then build @ probe else probe @ build)"

definition outer_probe :: "hash_join \<Rightarrow> bool" where
  "outer_probe h = (if probe_is_right h then hj_kind h = RightJoin else hj_kind h = LeftJoin)"

definition null_extended :: "hash_join \<Rightarrow> row \<Rightarrow> row" where
  "null_extended h r =
     (if probe_is_right h then replicate (length (hj_left h)) VNull @ r else r @ replicate (length (hj_right h)) VNull)"

definition join_probe_row ::
  "text_ops \<Rightarrow> subquery_runner \<Rightarrow> eval_ctx option \<Rightarrow> hash_join \<Rightarrow> hash_table \<Rightarrow> nat list \<Rightarrow> row \<Rightarrow> row list result" where
  "join_probe_row tx run outer h t ms r =
     bindR (mapR (flat_row (ht_values t) (ht_cols t)) ms) (\<lambda>builds.
     bindR (filterR (join_matches tx run outer (hj_schema h) (hk_residual (hj_keys h))) (map (\<lambda>b. combine_rows h b r) builds)) (\<lambda>rs.
       Ok (if outer_probe h then or_else (null_extended h r) rs else rs)))"

definition probe_key_into :: "text_ops \<Rightarrow> subquery_runner \<Rightarrow> schema \<times> expr list \<Rightarrow> chunk \<Rightarrow> nat \<Rightarrow> byte list option result" where
  "probe_key_into tx run side ck i =
     (case key_indices (snd side) (fst side) of
        Some indices \<Rightarrow> key_into (\<lambda>index. bindR (chunk_column_at ck index) (\<lambda>col. column_value col i)) indices []
      | None \<Rightarrow> bindR (chunk_row ck i) (expr_key_into tx run (snd side) (fst side)))"

definition probe_chunk ::
  "text_ops \<Rightarrow> subquery_runner \<Rightarrow> eval_ctx option \<Rightarrow> hash_join \<Rightarrow> hash_table \<Rightarrow> chunk \<Rightarrow> row list result" where
  "probe_chunk tx run outer h t ck =
     concatR (\<lambda>i. bindR (probe_key_into tx run (probe_side h) ck i) (\<lambda>key.
       let ms = matches_of t key in
       if ms = [] \<and> \<not> outer_probe h then Ok []
       else bindR (chunk_row ck i) (join_probe_row tx run outer h t ms))) [0..<ck_len ck]"

record 's hash_join_op =
  ho_probe :: 's
  ho_done :: bool
  ho_pending :: "row list"

text \<open>Collects the rows of an operator, which streams them if it has a fused path and is pulled otherwise.\<close>

definition drain_into :: "row source option \<Rightarrow> ('t \<Rightarrow> (row option \<times> 't) result option) \<Rightarrow> 't \<Rightarrow> row list result option" where
  "drain_into fused pull s = (case fused of Some src \<Rightarrow> Some (collected src) | None \<Rightarrow> drain pull [] s)"

definition hash_open ::
  "text_ops \<Rightarrow> subquery_runner \<Rightarrow> hash_join \<Rightarrow> row source option \<Rightarrow> ('t \<Rightarrow> (row option \<times> 't) result option) \<Rightarrow> 't \<Rightarrow> 's \<Rightarrow> (hash_table \<times> 's hash_join_op) result option" where
  "hash_open tx run h fused_build pull_build build probe =
     map_option (\<lambda>res. bindR res (\<lambda>rows. bindR (hash_build tx run h (concat rows)) (\<lambda>t.
       Ok (t, \<lparr> ho_probe = probe, ho_done = False, ho_pending = [] \<rparr>)))) (drain_into fused_build pull_build build)"

definition fill_output ::
  "text_ops \<Rightarrow> subquery_runner \<Rightarrow> eval_ctx option \<Rightarrow> hash_join \<Rightarrow> hash_table \<Rightarrow> ('s \<Rightarrow> (chunk option \<times> 's) result option) \<Rightarrow>
    's hash_join_op \<Rightarrow> (bool \<times> 's hash_join_op) result option" where
  "fill_output tx run outer h t pull j =
     (if ho_done j then Some (Ok (False, j))
      else case pull (ho_probe j) of
        None \<Rightarrow> None
      | Some (Err e) \<Rightarrow> Some (Err e)
      | Some (Ok (None, s)) \<Rightarrow> Some (Ok (False, j\<lparr> ho_probe := s, ho_done := True \<rparr>))
      | Some (Ok (Some ck, s)) \<Rightarrow> Some (bindR (probe_chunk tx run outer h t ck) (\<lambda>rs.
          Ok (True, j\<lparr> ho_probe := s, ho_pending := ho_pending j @ rs \<rparr>))))"

partial_function (option) hash_next ::
  "('s hash_join_op \<Rightarrow> (bool \<times> 's hash_join_op) result option) \<Rightarrow> 's hash_join_op \<Rightarrow> (row option \<times> 's hash_join_op) result option" where
  "hash_next fill j =
     (case ho_pending j of
        r # rs \<Rightarrow> Some (Ok (Some r, j\<lparr> ho_pending := rs \<rparr>))
      | [] \<Rightarrow>
          (case fill j of
             None \<Rightarrow> None
           | Some (Err e) \<Rightarrow> Some (Err e)
           | Some (Ok (pulled, k)) \<Rightarrow> if pulled then hash_next fill k else Some (Ok (None, k))))"

subsection \<open>The joins of a select\<close>

datatype join_step = HashStep hash_join | NestedStep join_kind "expr option" schema schema

fun plan_joins :: "schema \<Rightarrow> ((join_kind \<times> expr option) \<times> schema) list \<Rightarrow> expr list \<Rightarrow> bool \<Rightarrow> (join_step list \<times> expr list \<times> bool) result" where
  "plan_joins left [] wh reduced = Ok ([], wh, reduced)"
| "plan_joins left (((kind, on), right) # rest) wh reduced =
     (let (keys, wh', reduced') =
        (case on of
           Some e \<Rightarrow> (analyze_hash_join kind (Some e) left right, wh, reduced)
         | None \<Rightarrow>
             if kind = Cross
             then (let (ls, rs, kept) = extract_hash_keys wh left right in
                   if ls = [] then (None, wh, reduced)
                   else (Some \<lparr> hk_left = ls, hk_right = rs, hk_residual = None \<rparr>, kept, True))
             else (None, wh, reduced))
      in bindR (case keys of
             Some k \<Rightarrow> Ok (HashStep \<lparr> hj_kind = kind, hj_keys = k, hj_left = left, hj_right = right \<rparr>)
           | None \<Rightarrow> bindR (nested_new kind on) (\<lambda>_. Ok (NestedStep kind on left right))) (\<lambda>step.
         bindR (plan_joins (left @ right) rest wh' reduced') (\<lambda>(steps, wh'', reduced''). Ok (step # steps, wh'', reduced''))))"

definition post_filter :: "expr option \<Rightarrow> expr list \<Rightarrow> bool \<Rightarrow> expr option" where
  "post_filter selection wh reduced = (if reduced then combine_and wh else selection)"

text \<open>The rows an opened join delivers, from the rows of its two sides.\<close>

definition hash_rows ::
  "text_ops \<Rightarrow> subquery_runner \<Rightarrow> eval_ctx option \<Rightarrow> hash_join \<Rightarrow> row list \<Rightarrow> row list \<Rightarrow> row list result" where
  "hash_rows tx run outer h left_rows right_rows =
     (let (build, probe) = (if probe_is_right h then (left_rows, right_rows) else (right_rows, left_rows)) in
      bindR (hash_build tx run h (concat build)) (\<lambda>t.
        concatR (\<lambda>r. bindR (row_key tx run (probe_side h) r) (\<lambda>key. join_probe_row tx run outer h t (matches_of t key) r)) probe))"

fun run_join :: "text_ops \<Rightarrow> subquery_runner \<Rightarrow> eval_ctx option \<Rightarrow> join_step \<Rightarrow> row list \<Rightarrow> row list \<Rightarrow> row list result" where
  "run_join tx run outer (HashStep h) left_rows right_rows = hash_rows tx run outer h left_rows right_rows"
| "run_join tx run outer (NestedStep kind on left right) left_rows right_rows = nested_rows tx run outer kind on left right left_rows right_rows"

subsection \<open>Conjunctions\<close>

lemma eval_bound_and:
  assumes "eval_bound tx run l c = Ok (tri s)" "eval_bound tx run r c = Ok (tri t)"
  shows "\<exists>u. eval_bound tx run (EBinary And l r) c = Ok (tri u) \<and> (u = Some True \<longleftrightarrow> s = Some True \<and> t = Some True)"
proof -
  have "\<exists>u. eval_binary And (tri s) (tri t) = Ok (tri u) \<and> (u = Some True \<longleftrightarrow> s = Some True \<and> t = Some True)"
  proof (cases s; cases t)
    assume "s = None" "t = None"
    then show ?thesis by (intro exI [of _ None]) (simp add: eval_binary_def)
  next
    fix b assume "s = None" "t = Some b"
    then show ?thesis by (intro exI [of _ "if b then None else Some False"]) (simp add: eval_binary_def)
  next
    fix a assume "s = Some a" "t = None"
    then show ?thesis by (intro exI [of _ "if a then None else Some False"]) (simp add: eval_binary_def)
  next
    fix a b assume "s = Some a" "t = Some b"
    then show ?thesis by (intro exI [of _ "Some (a \<and> b)"]) (simp add: eval_binary_def)
  qed
  moreover have "ok_of (eval_bound tx run (EBinary And l r) c) = ok_of (eval_binary And (tri s) (tri t))"
    using assms by (simp add: eval_bound_binary)
  ultimately show ?thesis by (metis ok_of.simps ok_of_Some)
qed

definition truth :: "text_ops \<Rightarrow> subquery_runner \<Rightarrow> eval_ctx option \<Rightarrow> expr \<Rightarrow> bool" where
  "truth tx run c e = (\<exists>t. eval_bound tx run e c = Ok (tri t))"

definition holds :: "text_ops \<Rightarrow> subquery_runner \<Rightarrow> eval_ctx option \<Rightarrow> expr \<Rightarrow> bool" where
  "holds tx run c e = (eval_bound tx run e c = Ok (VBool True))"

lemma truth_and:
  assumes "truth tx run c l" "truth tx run c r"
  shows "truth tx run c (EBinary And l r)" "holds tx run c (EBinary And l r) \<longleftrightarrow> holds tx run c l \<and> holds tx run c r"
proof -
  have tri: "(VBool True = tri u) = (u = Some True)" "(tri u = VBool True) = (u = Some True)" for u by (cases u; auto)+
  from assms obtain s t where st: "eval_bound tx run l c = Ok (tri s)" "eval_bound tx run r c = Ok (tri t)" by (auto simp: truth_def)
  with eval_bound_and [OF st] show "truth tx run c (EBinary And l r)"
      "holds tx run c (EBinary And l r) \<longleftrightarrow> holds tx run c l \<and> holds tx run c r"
    by (auto simp: truth_def holds_def tri)
qed

lemma split_conjuncts_truth:
  "\<forall>p \<in> set (split_conjuncts e). truth tx run c p \<Longrightarrow>
    truth tx run c e \<and> (holds tx run c e \<longleftrightarrow> (\<forall>p \<in> set (split_conjuncts e). holds tx run c p))"
proof (induction e rule: split_conjuncts.induct)
  case (1 l r)
  then show ?case using truth_and [of tx run c l r] by auto
qed simp_all

lemma foldl_and_truth:
  "truth tx run c e \<Longrightarrow> \<forall>p \<in> set es. truth tx run c p \<Longrightarrow>
    truth tx run c (foldl (\<lambda>acc e. EBinary And e acc) e es) \<and>
    (holds tx run c (foldl (\<lambda>acc e. EBinary And e acc) e es) \<longleftrightarrow> holds tx run c e \<and> (\<forall>p \<in> set es. holds tx run c p))"
proof (induction es arbitrary: e)
  case (Cons p es)
  then have "truth tx run c (EBinary And p e)" "holds tx run c (EBinary And p e) \<longleftrightarrow> holds tx run c p \<and> holds tx run c e"
    using truth_and [of tx run c p e] by simp_all
  with Cons.IH [of "EBinary And p e"] Cons.prems show ?case by auto
qed simp

lemma predicate_truth: "truth tx run (Some (EvalCtx (RowScope sc r) outer)) e \<Longrightarrow>
    eval_predicate_bound tx run e sc r outer = Ok (holds tx run (Some (EvalCtx (RowScope sc r) outer)) e)"
proof -
  assume "truth tx run (Some (EvalCtx (RowScope sc r) outer)) e"
  then obtain t where "eval_bound tx run e (Some (EvalCtx (RowScope sc r) outer)) = Ok (tri t)" by (auto simp: truth_def)
  then show ?thesis by (cases t) (simp_all add: eval_predicate_bound_def holds_def)
qed

lemma combine_and_truth:
  assumes "\<forall>p \<in> set ps. truth tx run (Some (EvalCtx (RowScope sc r) outer)) p"
  shows "join_matches tx run outer sc (combine_and ps) r = Ok (\<forall>p \<in> set ps. holds tx run (Some (EvalCtx (RowScope sc r) outer)) p)"
proof (cases ps rule: rev_cases)
  case (snoc es e)
  with assms foldl_and_truth [of tx run "Some (EvalCtx (RowScope sc r) outer)" e "rev es"]
  show ?thesis by (auto simp: join_matches_def combine_and_def predicate_truth)
qed (simp add: join_matches_def combine_and_def)

lemma condition_truth:
  assumes "\<forall>p \<in> set (split_conjuncts e). truth tx run (Some (EvalCtx (RowScope sc r) outer)) p"
  shows "join_matches tx run outer sc (Some e) r =
    Ok (\<forall>p \<in> set (split_conjuncts e). holds tx run (Some (EvalCtx (RowScope sc r) outer)) p)"
  using split_conjuncts_truth [OF assms] by (simp add: join_matches_def predicate_truth)

subsection \<open>Columns of the two sides\<close>

definition separate :: "schema \<Rightarrow> schema \<Rightarrow> bool" where
  "separate left right =
     (\<forall>c \<in> set left. \<forall>d \<in> set right. col_owner c = None \<or> col_owner c \<noteq> col_owner d \<or> col_name c \<noteq> col_name d)"

lemma resolve_joined:
  assumes "resolve (left @ right) q n = Ok k"
  shows "position (\<lambda>c. (q = None \<or> col_owner c = q) \<and> col_name c = n) left = Some i \<Longrightarrow> k = i"
    "separate left right \<Longrightarrow> position (\<lambda>c. (q = None \<or> col_owner c = q) \<and> col_name c = n) right = Some j \<Longrightarrow> k = length left + j"
proof -
  have unique: "k = m" if "q = None" "m < length (left @ right)" "col_name ((left @ right) ! m) = n" for m
  proof -
    have "matching_columns (left @ right) n = [k]" using assms that(1) by (auto simp: resolve_def split: list.splits)
    moreover have "m \<in> set (matching_columns (left @ right) n)" using that(2,3) by (simp add: matching_columns_def)
    ultimately show ?thesis by simp
  qed
  have owned: "position (\<lambda>c. col_owner c = q \<and> col_name c = n) (left @ right) = Some k" if "q \<noteq> None"
    using assms that by (auto simp: resolve_def split: option.splits)
  show "k = i" if "position (\<lambda>c. (q = None \<or> col_owner c = q) \<and> col_name c = n) left = Some i"
  proof (cases "q = None")
    case True
    with position_bound [OF that] unique [of i] show ?thesis by (simp add: nth_append)
  next
    case False
    with that owned show ?thesis by (simp add: position_append)
  qed
  show "k = length left + j" if "separate left right" "position (\<lambda>c. (q = None \<or> col_owner c = q) \<and> col_name c = n) right = Some j"
  proof (cases "q = None")
    case True
    with position_bound [OF that(2)] unique [of "length left + j"] show ?thesis by (simp add: nth_append)
  next
    case False
    from position_bound [OF that(2)] False have j: "right ! j \<in> set right" "col_owner (right ! j) = q" "col_name (right ! j) = n" by simp_all
    with that(1) False have "\<forall>c \<in> set left. \<not> (col_owner c = q \<and> col_name c = n)" unfolding separate_def by metis
    then have "position (\<lambda>c. col_owner c = q \<and> col_name c = n) left = None" by (simp add: position_None)
    with owned False that(2) show ?thesis by (auto simp: position_append)
  qed
qed

lemma names_column_cases:
  assumes "position (names_column e) sc = Some i"
  obtains q n where "names_column e = (\<lambda>c. (q = None \<or> col_owner c = q) \<and> col_name c = n)" "\<not> expr_has_subquery e"
    "\<And>tx c. eval tx e c = resolve_column c q n"
proof (cases e)
  case (EColumn n)
  then show ?thesis by (intro that [of None n]) (auto simp: fun_eq_iff)
next
  case (EQualified t n)
  then show ?thesis by (intro that [of "Some t" n]) (auto simp: fun_eq_iff)
qed (use position_bound [OF assms] in simp_all)

lemma column_resolves:
  assumes e: "position (names_column e) sc \<noteq> None" and v: "eval_bound tx run e (Some (EvalCtx (RowScope sc r) outer)) = Ok v"
    and len: "length r = length sc"
  shows "\<exists>q n k. names_column e = (\<lambda>c. (q = None \<or> col_owner c = q) \<and> col_name c = n) \<and> resolve sc q n = Ok k \<and> v = r ! k"
proof -
  from e obtain i where i: "position (names_column e) sc = Some i" by auto
  then obtain q n where qn: "names_column e = (\<lambda>c. (q = None \<or> col_owner c = q) \<and> col_name c = n)" "\<not> expr_has_subquery e"
    "\<And>tx c. eval tx e c = resolve_column c q n" by (rule names_column_cases) blast
  with v have found: "resolve_from (EvalCtx (RowScope sc r) outer) q n = Ok v" by (simp add: eval_bound_def resolve_column_def)
  from i qn(1) have at: "i < length sc" "q = None \<or> col_owner (sc ! i) = q" "col_name (sc ! i) = n" by (auto dest: position_bound)
  have "\<exists>k. resolve sc q n = Ok k"
  proof (cases "resolve sc q n")
    case (Err x)
    have "q = None"
    proof (rule ccontr)
      assume "q \<noteq> None"
      then show False using Err i qn(1) by (auto simp: resolve_def)
    qed
    moreover have "i \<in> set (matching_columns sc n)" using at by (simp add: matching_columns_def)
    ultimately have "x = Runtime (''ambiguous column: '' @ text_of n)" using Err by (auto simp: resolve_def split: list.splits)
    with Err found show ?thesis by (simp add: scope_lookup_def)
  qed simp
  then obtain k where k: "resolve sc q n = Ok k" by blast
  moreover from found k len have "v = r ! k" using resolve_in_range [OF k] by (simp add: scope_lookup_def idx_def)
  ultimately show ?thesis using qn(1) by blast
qed

lemma joined_column:
  assumes "eval_bound tx run e (Some (EvalCtx (RowScope (left @ right) (l @ r)) outer)) = Ok v"
    and len: "length l = length left" "length r = length right"
  shows "position (names_column e) left = Some i \<Longrightarrow> v = l ! i"
    "separate left right \<Longrightarrow> position (names_column e) right = Some j \<Longrightarrow> v = r ! j"
proof -
  have at: "\<exists>q n k. names_column e = (\<lambda>c. (q = None \<or> col_owner c = q) \<and> col_name c = n) \<and> resolve (left @ right) q n = Ok k \<and> v = (l @ r) ! k"
    if named: "position (names_column e) (left @ right) \<noteq> None"
  proof -
    have "length (l @ r) = length (left @ right)" using len by simp
    from column_resolves [OF named assms(1) this] show ?thesis .
  qed
  show "v = l ! i" if "position (names_column e) left = Some i"
  proof -
    from that have "position (names_column e) (left @ right) \<noteq> None" by (simp add: position_append)
    from at [OF this] obtain q n k where q: "names_column e = (\<lambda>c. (q = None \<or> col_owner c = q) \<and> col_name c = n)"
      "resolve (left @ right) q n = Ok k" "v = (l @ r) ! k" by blast
    with that resolve_joined(1) [OF q(2), of i] position_bound [OF that] len show ?thesis by (simp add: nth_append)
  qed
  show "v = r ! j" if "separate left right" "position (names_column e) right = Some j"
  proof -
    from that have "position (names_column e) (left @ right) \<noteq> None" by (auto simp: position_append split: option.split)
    from at [OF this] obtain q n k where q: "names_column e = (\<lambda>c. (q = None \<or> col_owner c = q) \<and> col_name c = n)"
      "resolve (left @ right) q n = Ok k" "v = (l @ r) ! k" by blast
    with that resolve_joined(2) [OF q(2), of j] len show ?thesis by (simp add: nth_append)
  qed
qed

subsection \<open>Equal keys are equal values\<close>

text \<open>What a column of a type holds: no NaN, and a text short enough for the length prefix of a key component.\<close>

fun value_fits :: "data_type \<Rightarrow> sql_value \<Rightarrow> bool" where
  "value_fits d VNull = True"
| "value_fits d (VInt _) = (d = TInt)"
| "value_fits d (VFloat x) = (d = TFloat \<and> \<not> f64_is_nan x)"
| "value_fits d (VDate _) = (d = TDate)"
| "value_fits d (VStr s) = ((d = TText \<or> (\<exists>n. d = TChar n)) \<and> length s + 2 < 2 ^ 32)"
| "value_fits d (VBool _) = False"

definition row_fits :: "schema \<Rightarrow> row \<Rightarrow> bool" where
  "row_fits sc r = list_all2 (\<lambda>c v. value_fits (col_dtype c) v) sc r"

definition same_key :: "sql_value \<Rightarrow> sql_value \<Rightarrow> bool" where
  "same_key v w = (v \<noteq> VNull \<and> w \<noteq> VNull \<and> encode_key v = encode_key w)"

lemma row_fits_nth: "row_fits sc r \<Longrightarrow> i < length sc \<Longrightarrow> value_fits (col_dtype (sc ! i)) (r ! i)"
  by (simp add: row_fits_def list_all2_conv_all_nth)

lemma row_fits_length: "row_fits sc r \<Longrightarrow> length r = length sc"
  by (simp add: row_fits_def list_all2_lengthD)

lemma compatible_sym: "compatible a b = compatible b a"
  by (cases a; cases b) simp_all

lemma compare_same_key:
  assumes "value_fits a v" "value_fits b w" "compatible a b"
  shows "(compare Eq v w = Ok (VBool True)) = same_key v w"
  using assms
  by (cases v; cases w)
    (auto simp: same_key_def compare_def encode_key_simps key_tag_defs be8_eq be4_eq flip64 flip32 ordered_order
      cmp_by_def f64_partial_cmp_def signed_word_eqI split: if_splits)

definition component :: "sql_value \<Rightarrow> byte list" where
  "component v = (case encode_key v of Ok bs \<Rightarrow> le_enc 4 (length bs) @ bs | Err _ \<Rightarrow> [])"

lemma encode_key_fits: "value_fits d v \<Longrightarrow> \<exists>bs. encode_key v = Ok bs \<and> (\<forall>buf. encode_key_into buf v = Ok (buf @ bs)) \<and> length bs < 2 ^ 32"
  by (cases v) (auto simp: encode_key_simps ordered_bits_def Let_def)

lemma push_key_component_fits:
  assumes "value_fits d v"
  shows "push_key_component out v = Ok (if v = VNull then None else Some (out @ component v))"
proof -
  obtain bs where bs: "encode_key v = Ok bs" "\<And>buf. encode_key_into buf v = Ok (buf @ bs)" "length bs < 2 ^ 32"
    using encode_key_fits [OF assms] by blast
  then have "unat (word_of_nat (length bs) :: u32) = length bs" by (simp add: unat_of_nat take_bit_nat_eq_self)
  with bs show ?thesis by (simp add: push_key_component_def component_def)
qed

lemma component_append:
  assumes "value_fits d v" "value_fits d' w"
  shows "component v @ xs = component w @ ys \<longleftrightarrow> encode_key v = encode_key w \<and> xs = ys"
proof -
  obtain a b where ab: "encode_key v = Ok a" "encode_key w = Ok b" "length a < 2 ^ 32" "length b < 2 ^ 32"
    using encode_key_fits [OF assms(1)] encode_key_fits [OF assms(2)] by blast
  show ?thesis
  proof
    assume "component v @ xs = component w @ ys"
    then have "le_enc 4 (length a) @ a @ xs = le_enc 4 (length b) @ b @ ys" using ab by (simp add: component_def)
    then have "le_enc 4 (length a) = le_enc 4 (length b)" "a @ xs = b @ ys" by (simp_all add: append_eq_append_conv)
    moreover from this(1) ab(3,4) have "length a = length b" by (simp add: le_enc_inject)
    ultimately show "encode_key v = encode_key w \<and> xs = ys" using ab by (simp add: append_eq_append_conv)
  qed (simp add: component_def)
qed

lemma key_into_fits:
  assumes "\<forall>i \<in> set is. cell i = Ok (f i) \<and> (\<exists>d. value_fits d (f i))"
  shows "key_into cell is out = Ok (if \<exists>i \<in> set is. f i = VNull then None else Some (out @ concat (map (\<lambda>i. component (f i)) is)))"
  using assms
proof (induction "is" arbitrary: out)
  case (Cons i "is")
  then obtain d where "value_fits d (f i)" by auto
  with Cons show ?case by (auto simp: push_key_component_fits)
qed simp

lemma components_equal:
  assumes "\<forall>p \<in> set ps. (\<exists>d. value_fits d (f (fst p))) \<and> (\<exists>d. value_fits d (g (snd p)))"
  shows "concat (map (\<lambda>i. component (f i)) (map fst ps)) = concat (map (\<lambda>i. component (g i)) (map snd ps)) \<longleftrightarrow>
    (\<forall>p \<in> set ps. encode_key (f (fst p)) = encode_key (g (snd p)))"
  using assms
proof (induction ps)
  case (Cons p ps)
  then obtain d d' where "value_fits d (f (fst p))" "value_fits d' (g (snd p))" by auto
  from component_append [OF this] Cons show ?case by simp
qed simp

definition side_key :: "row \<Rightarrow> nat list \<Rightarrow> byte list option" where
  "side_key r is = (if \<exists>i \<in> set is. r ! i = VNull then None else Some (concat (map (\<lambda>i. component (r ! i)) is)))"

lemma indices_key_fits:
  assumes "row_fits sc r" "\<forall>i \<in> set is. i < length sc"
  shows "indices_key_into is r = Ok (side_key r is)"
proof -
  have "\<forall>i \<in> set is. idx r i = Ok (r ! i) \<and> (\<exists>d. value_fits d (r ! i))"
    using assms row_fits_nth [OF assms(1)] row_fits_length [OF assms(1)] by (auto simp: idx_def)
  from key_into_fits [OF this] show ?thesis by (simp add: indices_key_into_def side_key_def)
qed

lemma side_keys_equal:
  assumes "row_fits left l" "row_fits right r" "\<forall>p \<in> set ps. fst p < length left \<and> snd p < length right"
  shows "(\<exists>k. side_key l (map fst ps) = Some k \<and> side_key r (map snd ps) = Some k) \<longleftrightarrow> (\<forall>p \<in> set ps. same_key (l ! fst p) (r ! snd p))"
proof -
  have "\<forall>p \<in> set ps. (\<exists>d. value_fits d (l ! fst p)) \<and> (\<exists>d. value_fits d (r ! snd p))"
    using assms row_fits_nth [OF assms(1)] row_fits_nth [OF assms(2)] by blast
  from components_equal [OF this] show ?thesis by (auto simp: side_key_def same_key_def)
qed

subsection \<open>What the extracted keys mean\<close>

lemma column_dtype_position:
  "column_dtype sc e = Some d \<Longrightarrow> \<exists>i. position (names_column e) sc = Some i \<and> col_dtype (sc ! i) = d"
  unfolding column_dtype_def by (induction sc) (fastforce split: if_splits)+

lemma compatible_columns_position:
  assumes "compatible_columns left a right b"
  shows "\<exists>i j. position (names_column a) left = Some i \<and> position (names_column b) right = Some j \<and>
    compatible (col_dtype (left ! i)) (col_dtype (right ! j))"
  using assms column_dtype_position [of left a] column_dtype_position [of right b]
  by (fastforce simp: compatible_columns_def split: option.splits)

lemma equality_holds:
  assumes "truth tx run c (EBinary Eq x y)"
  obtains v w where "eval_bound tx run x c = Ok v" "eval_bound tx run y c = Ok w"
    "holds tx run c (EBinary Eq x y) \<longleftrightarrow> compare Eq v w = Ok (VBool True)"
proof -
  from assms obtain t where t: "ok_of (eval_bound tx run (EBinary Eq x y) c) = Some (tri t)" by (auto simp: truth_def)
  then obtain v w where vw: "ok_of (eval_bound tx run x c) = Some v" "ok_of (eval_bound tx run y c) = Some w" "ok_of (eval_binary Eq v w) = Some (tri t)"
    unfolding eval_bound_binary by (auto simp: bind_eq_Some_conv)
  then have "eval_binary Eq v w = Ok (tri t)" "eval_bound tx run (EBinary Eq x y) c = Ok (tri t)" using t by (simp_all add: ok_of_Some)
  with vw that [of v w] show ?thesis by (simp add: ok_of_Some holds_def eval_binary_def)
qed

lemma key_pair_meaning:
  assumes pair: "hash_key_pair left right c = Some (a, b)"
  shows "\<exists>i j. position (names_column a) left = Some i \<and> position (names_column b) right = Some j \<and>
    (\<forall>l r. row_fits left l \<and> row_fits right r \<and> separate left right \<and> truth tx run (Some (EvalCtx (RowScope (left @ right) (l @ r)) outer)) c \<longrightarrow>
      (holds tx run (Some (EvalCtx (RowScope (left @ right) (l @ r)) outer)) c \<longleftrightarrow> same_key (l ! i) (r ! j)))"
proof -
  from pair obtain x y where c: "c = EBinary Eq x y" and cc: "compatible_columns left a right b" and ab: "(a, b) = (x, y) \<or> (a, b) = (y, x)"
    by (cases "(left, right, c)" rule: hash_key_pair.cases) (auto split: if_splits)
  from compatible_columns_position [OF cc] obtain i j where ij: "position (names_column a) left = Some i" "position (names_column b) right = Some j"
    "compatible (col_dtype (left ! i)) (col_dtype (right ! j))" by blast
  have "holds tx run (Some (EvalCtx (RowScope (left @ right) (l @ r)) outer)) c \<longleftrightarrow> same_key (l ! i) (r ! j)"
    if fits: "row_fits left l" "row_fits right r" and sep: "separate left right"
      and t: "truth tx run (Some (EvalCtx (RowScope (left @ right) (l @ r)) outer)) c" for l r
  proof -
    have v: "value_fits (col_dtype (left ! i)) (l ! i)" "value_fits (col_dtype (right ! j)) (r ! j)"
      using fits row_fits_nth position_bound [OF ij(1)] position_bound [OF ij(2)] by auto
    have ks: "same_key (r ! j) (l ! i) = same_key (l ! i) (r ! j)" by (auto simp: same_key_def)
    have cmp: "(compare Eq (l ! i) (r ! j) = Ok (VBool True)) = same_key (l ! i) (r ! j)" "(compare Eq (r ! j) (l ! i) = Ok (VBool True)) = same_key (l ! i) (r ! j)"
      using compare_same_key [OF v ij(3)] compare_same_key [OF v(2,1)] ij(3) ks by (simp_all add: compatible_sym)
    note joined = joined_column [OF _ row_fits_length [OF fits(1)] row_fits_length [OF fits(2)]]
    from t [unfolded c] obtain p q where pq: "eval_bound tx run x (Some (EvalCtx (RowScope (left @ right) (l @ r)) outer)) = Ok p"
      "eval_bound tx run y (Some (EvalCtx (RowScope (left @ right) (l @ r)) outer)) = Ok q"
      "holds tx run (Some (EvalCtx (RowScope (left @ right) (l @ r)) outer)) (EBinary Eq x y) \<longleftrightarrow> compare Eq p q = Ok (VBool True)"
      by (rule equality_holds)
    from ab show ?thesis
    proof
      assume "(a, b) = (x, y)"
      with joined(1) [OF pq(1), of i] joined(2) [OF pq(2) sep, of j] ij(1,2) have "p = l ! i" "q = r ! j" by simp_all
      with pq(3) cmp show ?thesis by (simp add: c)
    next
      assume "(a, b) = (y, x)"
      with joined(1) [OF pq(2), of i] joined(2) [OF pq(1) sep, of j] ij(1,2) have "q = l ! i" "p = r ! j" by simp_all
      with pq(3) cmp show ?thesis by (simp add: c)
    qed
  qed
  with ij(1,2) show ?thesis by blast
qed

lemma extract_meaning:
  assumes "extract_hash_keys cs left right = (ls, rs, kept)"
  shows "\<exists>ps. key_indices ls left = Some (map fst ps) \<and> key_indices rs right = Some (map snd ps) \<and>
    (\<forall>p \<in> set ps. fst p < length left \<and> snd p < length right) \<and> set kept \<subseteq> set cs \<and>
    (\<forall>l r. row_fits left l \<and> row_fits right r \<and> separate left right \<and>
        (\<forall>c \<in> set cs. truth tx run (Some (EvalCtx (RowScope (left @ right) (l @ r)) outer)) c) \<longrightarrow>
      ((\<forall>c \<in> set cs. holds tx run (Some (EvalCtx (RowScope (left @ right) (l @ r)) outer)) c) \<longleftrightarrow>
       (\<forall>c \<in> set kept. holds tx run (Some (EvalCtx (RowScope (left @ right) (l @ r)) outer)) c) \<and> (\<forall>p \<in> set ps. same_key (l ! fst p) (r ! snd p))))"
  using assms
proof (induction cs arbitrary: ls rs kept)
  case Nil
  then show ?case by (intro exI [of _ "[]"]) simp
next
  case (Cons c cs)
  obtain ls' rs' kept' where ex: "extract_hash_keys cs left right = (ls', rs', kept')" by (cases "extract_hash_keys cs left right") auto
  from Cons.IH [OF this] obtain ps where ps: "key_indices ls' left = Some (map fst ps)" "key_indices rs' right = Some (map snd ps)"
    "\<forall>p \<in> set ps. fst p < length left \<and> snd p < length right" "set kept' \<subseteq> set cs"
    "\<And>l r. row_fits left l \<and> row_fits right r \<and> separate left right \<and>
        (\<forall>c \<in> set cs. truth tx run (Some (EvalCtx (RowScope (left @ right) (l @ r)) outer)) c) \<Longrightarrow>
      (\<forall>c \<in> set cs. holds tx run (Some (EvalCtx (RowScope (left @ right) (l @ r)) outer)) c) \<longleftrightarrow>
       (\<forall>c \<in> set kept'. holds tx run (Some (EvalCtx (RowScope (left @ right) (l @ r)) outer)) c) \<and> (\<forall>p \<in> set ps. same_key (l ! fst p) (r ! snd p))"
    by blast
  show ?case
  proof (cases "hash_key_pair left right c")
    case None
    with Cons.prems ex have "ls = ls'" "rs = rs'" "kept = c # kept'" by simp_all
    with ps show ?thesis by (intro exI [of _ ps]) auto
  next
    case (Some ab)
    then obtain a b where "hash_key_pair left right c = Some (a, b)" by (cases ab) auto
    with key_pair_meaning [OF this, of tx run outer] Cons.prems ex obtain i j where
      ij: "ls = a # ls'" "rs = b # rs'" "kept = kept'" "position (names_column a) left = Some i" "position (names_column b) right = Some j"
      "\<And>l r. row_fits left l \<and> row_fits right r \<and> separate left right \<and> truth tx run (Some (EvalCtx (RowScope (left @ right) (l @ r)) outer)) c \<Longrightarrow>
        holds tx run (Some (EvalCtx (RowScope (left @ right) (l @ r)) outer)) c \<longleftrightarrow> same_key (l ! i) (r ! j)"
      by auto
    with ps position_bound [OF ij(4)] position_bound [OF ij(5)] show ?thesis by (intro exI [of _ "(i, j) # ps"]) auto
  qed
qed

subsection \<open>The table\<close>

lemma filterR_Ok: "(\<And>x. x \<in> set xs \<Longrightarrow> p x = Ok (P x)) \<Longrightarrow> filterR p xs = Ok (filter P xs)"
  by (induction xs) (auto simp: filterR_def bindR_Ok_iff)

lemma mapR_total: "(\<And>x. x \<in> set xs \<Longrightarrow> f x = Ok (g x)) \<Longrightarrow> mapR f xs = Ok (map g xs)"
  by (simp add: mapR_Ok_iff list_all2_map2 list_all2_same)

lemma concatR_Ok: "(\<And>x. x \<in> set xs \<Longrightarrow> f x = Ok (g x)) \<Longrightarrow> concatR f xs = Ok (concat (map g xs))"
  by (simp add: concatR_def mapR_total)

lemma flat_row_concat:
  "\<forall>r \<in> set R. length r = n \<Longrightarrow> i < length R \<Longrightarrow> flat_row (concat R) n i = Ok (R ! i)"
proof (induction R arbitrary: i)
  case (Cons r R)
  show ?case
  proof (cases i)
    case 0
    with Cons.prems show ?thesis by (simp add: flat_row_def)
  next
    case (Suc j)
    have "flat_row (concat R) n j = Ok (R ! j)" using Cons Suc by simp
    with Cons.prems Suc show ?thesis by (auto simp: flat_row_def split: if_splits)
  qed
qed simp

lemma length_concat_rows: "\<forall>r \<in> set R. length r = n \<Longrightarrow> length (concat R) = length R * n"
  by (induction R) auto

lemma ml_rows_push: "ml_rows (ml_push ms i) = ml_rows ms @ [i]" "ml_rows ms = [] \<Longrightarrow> ml_push ms i = Many [i]"
  by (cases ms; simp)+

lemma add_match_rows:
  assumes "\<And>k. (case tab k of None \<Rightarrow> [] | Some ms \<Rightarrow> ml_rows ms) = filter (\<lambda>i. key i = Some k) [0..<m]"
  shows "(case add_match tab (key m) m k of None \<Rightarrow> [] | Some ms \<Rightarrow> ml_rows ms) = filter (\<lambda>i. key i = Some k) [0..<Suc m]"
  using assms [of k] by (auto simp: add_match_def ml_rows_push split: option.splits)

lemma build_table:
  assumes "\<And>i. i < m \<Longrightarrow> g i = Ok (key i)"
  shows "\<exists>tab. foldR (\<lambda>tab i. bindR (g i) (\<lambda>k. Ok (add_match tab k i))) Map.empty [0..<m] = Ok tab \<and>
    (\<forall>k. (case tab k of None \<Rightarrow> [] | Some ms \<Rightarrow> ml_rows ms) = filter (\<lambda>i. key i = Some k) [0..<m])"
  using assms
proof (induction m)
  case (Suc m)
  then obtain tab where "foldR (\<lambda>tab i. bindR (g i) (\<lambda>k. Ok (add_match tab k i))) Map.empty [0..<m] = Ok tab"
    "\<And>k. (case tab k of None \<Rightarrow> [] | Some ms \<Rightarrow> ml_rows ms) = filter (\<lambda>i. key i = Some k) [0..<m]" by auto
  with Suc.prems [of m] add_match_rows [of tab key m] show ?case by (intro exI [of _ "add_match tab (key m) m"]) (simp add: foldR_append)
qed simp

lemma hash_build_spec:
  assumes "key_indices (snd (build_side h)) (fst (build_side h)) = Some is" "is \<noteq> []" "\<forall>i \<in> set is. i < length (fst (build_side h))"
    "\<forall>r \<in> set B. row_fits (fst (build_side h)) r"
  shows "\<exists>t. hash_build tx run h (concat B) = Ok t \<and> ht_values t = concat B \<and> ht_cols t = length (fst (build_side h)) \<and>
    (\<forall>key. matches_of t key = filter (\<lambda>i. key \<noteq> None \<and> side_key (B ! i) is = key) [0..<length B])"
proof -
  let ?sc = "fst (build_side h)"
  have cols: "length ?sc \<noteq> 0" using assms(2,3) by (cases "is") auto
  have lens: "\<forall>r \<in> set B. length r = length ?sc" using assms(4) row_fits_length by blast
  have "bindR (flat_row (concat B) (length ?sc) i) (row_key tx run (build_side h)) = Ok (side_key (B ! i) is)" if "i < length B" for i
    using flat_row_concat [OF lens that] assms(1,3,4) indices_key_fits [of ?sc "B ! i" "is"] that by (simp add: row_key_def)
  from build_table [of "length B" "\<lambda>i. bindR (flat_row (concat B) (length ?sc) i) (row_key tx run (build_side h))" "\<lambda>i. side_key (B ! i) is", OF this]
  obtain tab where tab:
    "foldR (\<lambda>tab i. bindR (bindR (flat_row (concat B) (length ?sc) i) (row_key tx run (build_side h))) (\<lambda>k. Ok (add_match tab k i))) Map.empty [0..<length B] = Ok tab"
    "\<And>k. (case tab k of None \<Rightarrow> [] | Some ms \<Rightarrow> ml_rows ms) = filter (\<lambda>i. side_key (B ! i) is = Some k) [0..<length B]" by blast
  let ?t = "\<lparr> ht_map = tab, ht_values = concat B, ht_cols = length ?sc \<rparr>"
  have "hash_build tx run h (concat B) = Ok ?t"
    using tab(1) cols length_concat_rows [OF lens] by (simp add: hash_build_def Let_def bindR_assoc)
  moreover have "matches_of ?t key = filter (\<lambda>i. key \<noteq> None \<and> side_key (B ! i) is = key) [0..<length B]" for key
    using tab(2) by (cases key) (simp_all add: matches_of_def)
  ultimately show ?thesis by (intro exI [of _ ?t]) simp
qed

lemma map_nth_filter: "map ((!) xs) (filter (\<lambda>i. P (xs ! i)) [0..<length xs]) = filter P xs"
proof -
  have "filter P (map ((!) xs) [0..<length xs]) = map ((!) xs) (filter (P \<circ> (!) xs) [0..<length xs])" by (rule filter_map)
  then show ?thesis by (simp add: map_nth comp_def)
qed

lemma join_probe_row_spec:
  assumes t: "ht_values t = concat B" "ht_cols t = n" "\<forall>r \<in> set B. length r = n"
    "matches_of t key = filter (\<lambda>i. key \<noteq> None \<and> side_key (B ! i) is = key) [0..<length B]"
    and res: "\<And>b. b \<in> set B \<Longrightarrow> join_matches tx run outer (hj_schema h) (hk_residual (hj_keys h)) (combine_rows h b p) = Ok (res (combine_rows h b p))"
  shows "join_probe_row tx run outer h t (matches_of t key) p =
    Ok (let rs = filter res (map (\<lambda>b. combine_rows h b p) (filter (\<lambda>b. key \<noteq> None \<and> side_key b is = key) B))
        in if outer_probe h then or_else (null_extended h p) rs else rs)"
proof -
  let ?ms = "filter (\<lambda>i. key \<noteq> None \<and> side_key (B ! i) is = key) [0..<length B]"
  have "mapR (flat_row (ht_values t) (ht_cols t)) ?ms = Ok (map ((!) B) ?ms)"
    using t(1,2) flat_row_concat [OF t(3)] by (intro mapR_total) auto
  also have "map ((!) B) ?ms = filter (\<lambda>b. key \<noteq> None \<and> side_key b is = key) B" by (rule map_nth_filter)
  finally have builds: "mapR (flat_row (ht_values t) (ht_cols t)) ?ms = Ok (filter (\<lambda>b. key \<noteq> None \<and> side_key b is = key) B)" .
  have "filterR (join_matches tx run outer (hj_schema h) (hk_residual (hj_keys h))) (map (\<lambda>b. combine_rows h b p) (filter (\<lambda>b. key \<noteq> None \<and> side_key b is = key) B)) =
      Ok (filter res (map (\<lambda>b. combine_rows h b p) (filter (\<lambda>b. key \<noteq> None \<and> side_key b is = key) B)))"
    by (rule filterR_Ok) (auto simp: res)
  with builds show ?thesis by (simp add: join_probe_row_def t(4) Let_def)
qed

subsection \<open>The hash join is the nested loop\<close>

definition joinable ::
  "text_ops \<Rightarrow> subquery_runner \<Rightarrow> eval_ctx option \<Rightarrow> schema \<Rightarrow> schema \<Rightarrow> expr list \<Rightarrow> row list \<Rightarrow> row list \<Rightarrow> bool" where
  "joinable tx run outer left right cs left_rows right_rows =
     (separate left right \<and> (\<forall>l \<in> set left_rows. row_fits left l) \<and> (\<forall>r \<in> set right_rows. row_fits right r) \<and>
      (\<forall>l \<in> set left_rows. \<forall>r \<in> set right_rows. \<forall>c \<in> set cs. truth tx run (Some (EvalCtx (RowScope (left @ right) (l @ r)) outer)) c))"

definition row_holds :: "text_ops \<Rightarrow> subquery_runner \<Rightarrow> eval_ctx option \<Rightarrow> schema \<Rightarrow> expr list \<Rightarrow> row \<Rightarrow> bool" where
  "row_holds tx run outer sc cs x = (\<forall>c \<in> set cs. holds tx run (Some (EvalCtx (RowScope sc x) outer)) c)"

definition side_rows :: "bool \<Rightarrow> row list \<Rightarrow> row list \<Rightarrow> row list \<times> row list" where
  "side_rows flipped left_rows right_rows = (if flipped then (left_rows, right_rows) else (right_rows, left_rows))"

text \<open>A probe row and a build row with equal keys, in terms of the left and the right row.\<close>

definition side_match :: "bool \<Rightarrow> (nat \<times> nat) list \<Rightarrow> row \<Rightarrow> row \<Rightarrow> bool" where
  "side_match flipped ps b p =
     (let key = side_key p (if flipped then map snd ps else map fst ps) in
      key \<noteq> None \<and> side_key b (if flipped then map fst ps else map snd ps) = key)"

lemma side_match_pair:
  assumes sides: "side_rows (probe_is_right h) left_rows right_rows = (B, P)" and ok: "joinable tx run outer left right cs left_rows right_rows"
    and ps: "\<forall>p \<in> set ps. fst p < length left \<and> snd p < length right" and "b \<in> set B" "p \<in> set P"
  shows "\<exists>l r. combine_rows h b p = l @ r \<and> l \<in> set left_rows \<and> r \<in> set right_rows \<and>
    (side_match (probe_is_right h) ps b p \<longleftrightarrow> (\<forall>q \<in> set ps. same_key (l ! fst q) (r ! snd q)))"
proof (cases "probe_is_right h")
  case True
  then have lr: "b \<in> set left_rows" "p \<in> set right_rows" using assms(4,5) sides by (auto simp: side_rows_def)
  moreover have "side_match True ps b p \<longleftrightarrow> (\<forall>q \<in> set ps. same_key (b ! fst q) (p ! snd q))"
    using side_keys_equal [of left b right p ps] lr ok ps by (auto simp: side_match_def joinable_def Let_def)
  ultimately show ?thesis using True by (intro exI [of _ b] exI [of _ p]) (simp add: combine_rows_def)
next
  case False
  then have lr: "p \<in> set left_rows" "b \<in> set right_rows" using assms(4,5) sides by (auto simp: side_rows_def)
  moreover have "side_match False ps b p \<longleftrightarrow> (\<forall>q \<in> set ps. same_key (p ! fst q) (b ! snd q))"
    using side_keys_equal [of left p right b ps] lr ok ps by (auto simp: side_match_def joinable_def Let_def)
  ultimately show ?thesis using False by (intro exI [of _ p] exI [of _ b]) (simp add: combine_rows_def)
qed

text \<open>The rows of a hash join whose keys come from the conjuncts \<open>cs\<close> and whose residual is what is left of them.\<close>

lemma hash_rows_spec:
  assumes ex: "extract_hash_keys cs left right = (ls, rs, kept)" and ls: "ls \<noteq> []" and ok: "joinable tx run outer left right cs left_rows right_rows"
    and residual: "residual = combine_and kept' " "set kept' \<subseteq> set kept"
    and h: "h = \<lparr> hj_kind = kind, hj_keys = \<lparr> hk_left = ls, hk_right = rs, hk_residual = residual \<rparr>, hj_left = left, hj_right = right \<rparr>"
    and sides: "side_rows (probe_is_right h) left_rows right_rows = (B, P)"
  shows "\<exists>M. hash_rows tx run outer h left_rows right_rows =
      Ok (concat (map (\<lambda>p. let out = filter (row_holds tx run outer (left @ right) kept') (map (\<lambda>b. combine_rows h b p) (filter (\<lambda>b. M b p) B))
        in if outer_probe h then or_else (null_extended h p) out else out) P)) \<and>
    (\<forall>b \<in> set B. \<forall>p \<in> set P. row_holds tx run outer (left @ right) cs (combine_rows h b p) \<longleftrightarrow>
      row_holds tx run outer (left @ right) kept (combine_rows h b p) \<and> M b p)"
proof -
  from extract_meaning [OF ex, of tx run outer] obtain ps where ps: "key_indices ls left = Some (map fst ps)" "key_indices rs right = Some (map snd ps)"
    "\<forall>p \<in> set ps. fst p < length left \<and> snd p < length right" "set kept \<subseteq> set cs"
    "\<And>l r. row_fits left l \<and> row_fits right r \<and> separate left right \<and>
        (\<forall>c \<in> set cs. truth tx run (Some (EvalCtx (RowScope (left @ right) (l @ r)) outer)) c) \<Longrightarrow>
      row_holds tx run outer (left @ right) cs (l @ r) \<longleftrightarrow>
       row_holds tx run outer (left @ right) kept (l @ r) \<and> (\<forall>p \<in> set ps. same_key (l ! fst p) (r ! snd p))"
    unfolding row_holds_def by blast
  let ?f = "probe_is_right h"
  let ?bi = "if ?f then map fst ps else map snd ps" and ?pi = "if ?f then map snd ps else map fst ps"
  let ?bs = "if ?f then left else right" and ?psc = "if ?f then right else left"
  have side: "build_side h = (?bs, if ?f then ls else rs)" "probe_side h = (?psc, if ?f then rs else ls)"
    by (simp_all add: build_side_def probe_side_def h)
  have rows: "\<And>b. b \<in> set B \<Longrightarrow> row_fits ?bs b" "\<And>p. p \<in> set P \<Longrightarrow> row_fits ?psc p"
    using ok sides by (auto simp: joinable_def side_rows_def split: if_splits)
  have psne: "ps \<noteq> []" using ls ps(1) by (cases ls) (auto split: option.splits)
  have "key_indices (snd (build_side h)) (fst (build_side h)) = Some ?bi" "?bi \<noteq> []" "\<forall>i \<in> set ?bi. i < length (fst (build_side h))"
    using ps psne by (auto simp: side)
  from hash_build_spec [OF this, of B tx run] rows(1) obtain t where t: "hash_build tx run h (concat B) = Ok t" "ht_values t = concat B" "ht_cols t = length ?bs"
    "\<And>key. matches_of t key = filter (\<lambda>i. key \<noteq> None \<and> side_key (B ! i) ?bi = key) [0..<length B]" by (auto simp: side)
  define M where "M = side_match ?f ps"
  have M: "M b p \<longleftrightarrow> side_key p ?pi \<noteq> None \<and> side_key b ?bi = side_key p ?pi" for b p by (simp add: M_def side_match_def Let_def)
  note pair = side_match_pair [OF sides ok ps(3), folded M_def]
  have meaning: "row_holds tx run outer (left @ right) cs (combine_rows h b p) \<longleftrightarrow> row_holds tx run outer (left @ right) kept (combine_rows h b p) \<and> M b p"
    and res: "join_matches tx run outer (hj_schema h) (hk_residual (hj_keys h)) (combine_rows h b p) = Ok (row_holds tx run outer (left @ right) kept' (combine_rows h b p))"
    if bp: "b \<in> set B" "p \<in> set P" for b p
  proof -
    from pair [OF bp] obtain l r where lr: "combine_rows h b p = l @ r" "l \<in> set left_rows" "r \<in> set right_rows" "M b p \<longleftrightarrow> (\<forall>q \<in> set ps. same_key (l ! fst q) (r ! snd q))" by blast
    with ok ps(5) [of l r] show "row_holds tx run outer (left @ right) cs (combine_rows h b p) \<longleftrightarrow> row_holds tx run outer (left @ right) kept (combine_rows h b p) \<and> M b p"
      by (simp add: joinable_def)
    have "\<forall>c \<in> set kept'. truth tx run (Some (EvalCtx (RowScope (left @ right) (l @ r)) outer)) c"
      using ok lr(2,3) residual(2) ps(4) by (auto simp: joinable_def)
    from combine_and_truth [OF this] show "join_matches tx run outer (hj_schema h) (hk_residual (hj_keys h)) (combine_rows h b p) = Ok (row_holds tx run outer (left @ right) kept' (combine_rows h b p))"
      unfolding lr(1) row_holds_def by (simp add: h hj_schema_def residual(1))
  qed
  have key: "row_key tx run (probe_side h) p = Ok (side_key p ?pi)" if "p \<in> set P" for p
    using indices_key_fits [OF rows(2) [OF that], of ?pi] ps by (auto simp: row_key_def side)
  have lens: "\<forall>b \<in> set B. length b = length ?bs" using rows(1) row_fits_length by blast
  have "concatR (\<lambda>p. bindR (row_key tx run (probe_side h) p) (\<lambda>key. join_probe_row tx run outer h t (matches_of t key) p)) P =
     Ok (concat (map (\<lambda>p. let out = filter (row_holds tx run outer (left @ right) kept') (map (\<lambda>b. combine_rows h b p) (filter (\<lambda>b. M b p) B))
        in if outer_probe h then or_else (null_extended h p) out else out) P))"
    unfolding M
  proof (rule concatR_Ok)
    fix p
    assume p: "p \<in> set P"
    show "bindR (row_key tx run (probe_side h) p) (\<lambda>key. join_probe_row tx run outer h t (matches_of t key) p) =
      Ok (let out = filter (row_holds tx run outer (left @ right) kept') (map (\<lambda>b. combine_rows h b p) (filter (\<lambda>b. side_key p ?pi \<noteq> None \<and> side_key b ?bi = side_key p ?pi) B))
        in if outer_probe h then or_else (null_extended h p) out else out)"
      unfolding key [OF p] bindR.simps by (rule join_probe_row_spec [OF t(2,3) lens t(4) res [OF _ p]])
  qed
  then have "hash_rows tx run outer h left_rows right_rows =
     Ok (concat (map (\<lambda>p. let out = filter (row_holds tx run outer (left @ right) kept') (map (\<lambda>b. combine_rows h b p) (filter (\<lambda>b. M b p) B))
        in if outer_probe h then or_else (null_extended h p) out else out) P))"
    using sides t(1) by (simp add: hash_rows_def side_rows_def)
  with meaning show ?thesis by blast
qed

lemma nested_matching:
  assumes "joinable tx run outer left right (split_conjuncts e) left_rows right_rows"
    "\<And>x. x \<in> set xs \<Longrightarrow> \<exists>l r. x = l @ r \<and> l \<in> set left_rows \<and> r \<in> set right_rows"
  shows "filterR (join_matches tx run outer (left @ right) (Some e)) xs = Ok (filter (row_holds tx run outer (left @ right) (split_conjuncts e)) xs)"
proof (rule filterR_Ok)
  fix x
  assume "x \<in> set xs"
  with assms(2) obtain l r where "x = l @ r" "l \<in> set left_rows" "r \<in> set right_rows" by blast
  with assms(1) show "join_matches tx run outer (left @ right) (Some e) x = Ok (row_holds tx run outer (left @ right) (split_conjuncts e) x)"
    by (simp add: condition_truth joinable_def row_holds_def)
qed

lemma filter_pairs:
  "(\<And>b. b \<in> set B \<Longrightarrow> P (f b) \<longleftrightarrow> Q (f b) \<and> M b) \<Longrightarrow> filter Q (map f (filter M B)) = filter P (map f B)"
  by (induction B) auto

lemma hash_rows_nested:
  assumes keys: "analyze_hash_join kind (Some e) left right = Some keys" and ok: "joinable tx run outer left right (split_conjuncts e) left_rows right_rows"
  shows "hash_rows tx run outer \<lparr> hj_kind = kind, hj_keys = keys, hj_left = left, hj_right = right \<rparr> left_rows right_rows =
    nested_rows tx run outer kind (Some e) left right left_rows right_rows"
proof -
  let ?h = "\<lparr> hj_kind = kind, hj_keys = keys, hj_left = left, hj_right = right \<rparr>" and ?C = "row_holds tx run outer (left @ right) (split_conjuncts e)"
  obtain ls rs kept where ex: "extract_hash_keys (split_conjuncts e) left right = (ls, rs, kept)" by (cases "extract_hash_keys (split_conjuncts e) left right") auto
  with keys have kind: "kind \<noteq> Cross" and ls: "ls \<noteq> []" and k: "keys = \<lparr> hk_left = ls, hk_right = rs, hk_residual = combine_and kept \<rparr>"
    by (auto simp: analyze_hash_join_def split: if_splits)
  obtain B P where sides: "side_rows (probe_is_right ?h) left_rows right_rows = (B, P)" by (cases "side_rows (probe_is_right ?h) left_rows right_rows")
  from hash_rows_spec [OF ex ls ok refl subset_refl, of ?h kind B P] sides k obtain M where
    M: "hash_rows tx run outer ?h left_rows right_rows =
      Ok (concat (map (\<lambda>p. let out = filter (row_holds tx run outer (left @ right) kept) (map (\<lambda>b. combine_rows ?h b p) (filter (\<lambda>b. M b p) B))
        in if outer_probe ?h then or_else (null_extended ?h p) out else out) P))"
    "\<forall>b \<in> set B. \<forall>p \<in> set P. ?C (combine_rows ?h b p) \<longleftrightarrow> row_holds tx run outer (left @ right) kept (combine_rows ?h b p) \<and> M b p" by auto
  have "filter (row_holds tx run outer (left @ right) kept) (map (\<lambda>b. combine_rows ?h b p) (filter (\<lambda>b. M b p) B)) = filter ?C (map (\<lambda>b. combine_rows ?h b p) B)"
    if "p \<in> set P" for p using M(2) that by (intro filter_pairs) auto
  then have "hash_rows tx run outer ?h left_rows right_rows =
      Ok (concat (map (\<lambda>p. let out = filter ?C (map (\<lambda>b. combine_rows ?h b p) B) in if outer_probe ?h then or_else (null_extended ?h p) out else out) P))"
    unfolding M(1) by (intro arg_cong [where f = "\<lambda>xs. Ok (concat xs)"] map_cong refl) simp
  also have "\<dots> = nested_rows tx run outer kind (Some e) left right left_rows right_rows"
  proof (cases kind)
    case RightJoin
    with sides have "B = left_rows" "P = right_rows" by (simp_all add: side_rows_def probe_is_right_def)
    with RightJoin show ?thesis
      by (simp add: nested_rows_def probe_is_right_def outer_probe_def null_extended_def combine_rows_def Let_def)
        (rule sym, rule concatR_Ok, subst nested_matching [OF ok], auto)
  next
    case LeftJoin
    with sides have "B = right_rows" "P = left_rows" by (simp_all add: side_rows_def probe_is_right_def)
    with LeftJoin show ?thesis
      by (simp add: nested_rows_def probe_is_right_def outer_probe_def null_extended_def combine_rows_def Let_def)
        (rule sym, rule concatR_Ok, subst nested_matching [OF ok], auto)
  next
    case Inner
    with sides have "B = right_rows" "P = left_rows" by (simp_all add: side_rows_def probe_is_right_def)
    with Inner show ?thesis
      by (simp add: nested_rows_def probe_is_right_def outer_probe_def null_extended_def combine_rows_def Let_def)
        (rule sym, rule concatR_Ok, subst nested_matching [OF ok], auto)
  qed (use kind in simp)
  finally show ?thesis .
qed

lemma comma_join_nested:
  assumes ex: "extract_hash_keys (split_conjuncts e) left right = (ls, rs, kept)" "ls \<noteq> []"
    and ok: "joinable tx run outer left right (split_conjuncts e) left_rows right_rows"
  shows "bindR (hash_rows tx run outer \<lparr> hj_kind = Cross, hj_keys = \<lparr> hk_left = ls, hk_right = rs, hk_residual = None \<rparr>, hj_left = left, hj_right = right \<rparr> left_rows right_rows)
      (filterR (join_matches tx run outer (left @ right) (combine_and kept))) =
    bindR (nested_rows tx run outer Cross None left right left_rows right_rows) (filterR (join_matches tx run outer (left @ right) (Some e)))"
proof -
  let ?h = "\<lparr> hj_kind = Cross, hj_keys = \<lparr> hk_left = ls, hk_right = rs, hk_residual = None \<rparr>, hj_left = left, hj_right = right \<rparr>"
  let ?C = "row_holds tx run outer (left @ right) (split_conjuncts e)" and ?K = "row_holds tx run outer (left @ right) kept"
  have sides: "side_rows (probe_is_right ?h) left_rows right_rows = (right_rows, left_rows)" by (simp add: side_rows_def probe_is_right_def)
  have none: "None = combine_and []" by (simp add: combine_and_def)
  from hash_rows_spec [OF ex ok none _ refl sides] obtain M where
    M: "hash_rows tx run outer ?h left_rows right_rows = Ok (concat (map (\<lambda>l. map (\<lambda>r. l @ r) (filter (\<lambda>r. M r l) right_rows)) left_rows))"
    "\<And>l r. l \<in> set left_rows \<Longrightarrow> r \<in> set right_rows \<Longrightarrow> ?C (l @ r) \<longleftrightarrow> ?K (l @ r) \<and> M r l"
    by (auto simp: row_holds_def [where cs = "[]"] combine_rows_def probe_is_right_def outer_probe_def)
  have kept: "set kept \<subseteq> set (split_conjuncts e)" using extract_meaning [OF ex(1)] by blast
  have "filterR (join_matches tx run outer (left @ right) (combine_and kept)) (concat (map (\<lambda>l. map (\<lambda>r. l @ r) (filter (\<lambda>r. M r l) right_rows)) left_rows)) =
      Ok (filter ?K (concat (map (\<lambda>l. map (\<lambda>r. l @ r) (filter (\<lambda>r. M r l) right_rows)) left_rows)))"
  proof (rule filterR_Ok)
    fix x
    assume "x \<in> set (concat (map (\<lambda>l. map (\<lambda>r. l @ r) (filter (\<lambda>r. M r l) right_rows)) left_rows))"
    then obtain l r where x: "x = l @ r" "l \<in> set left_rows" "r \<in> set right_rows" by auto
    with ok kept have "\<forall>c \<in> set kept. truth tx run (Some (EvalCtx (RowScope (left @ right) x) outer)) c" unfolding joinable_def by blast
    then show "join_matches tx run outer (left @ right) (combine_and kept) x = Ok (?K x)" unfolding row_holds_def by (rule combine_and_truth)
  qed
  also have "filter ?K (concat (map (\<lambda>l. map (\<lambda>r. l @ r) (filter (\<lambda>r. M r l) right_rows)) left_rows)) =
      concat (map (\<lambda>l. filter ?K (map (\<lambda>r. l @ r) (filter (\<lambda>r. M r l) right_rows))) left_rows)" by (simp add: filter_concat comp_def)
  also have "\<dots> = concat (map (\<lambda>l. filter ?C (map (\<lambda>r. l @ r) right_rows)) left_rows)"
    using M(2) by (intro arg_cong [where f = concat] map_cong refl filter_pairs) auto
  also have "\<dots> = filter ?C (concat (map (\<lambda>l. map (\<lambda>r. l @ r) right_rows) left_rows))" by (simp add: filter_concat comp_def)
  finally have hashed: "bindR (hash_rows tx run outer ?h left_rows right_rows) (filterR (join_matches tx run outer (left @ right) (combine_and kept))) =
      Ok (filter ?C (concat (map (\<lambda>l. map (\<lambda>r. l @ r) right_rows) left_rows)))" unfolding M(1) by simp
  have "nested_rows tx run outer Cross None left right left_rows right_rows = Ok (concat (map (\<lambda>l. map (\<lambda>r. l @ r) right_rows) left_rows))"
    by (auto simp: nested_rows_def join_matches_def intro!: concatR_Ok filterR_all)
  moreover have "filterR (join_matches tx run outer (left @ right) (Some e)) (concat (map (\<lambda>l. map (\<lambda>r. l @ r) right_rows) left_rows)) =
      Ok (filter ?C (concat (map (\<lambda>l. map (\<lambda>r. l @ r) right_rows) left_rows)))"
    by (rule nested_matching [OF ok]) auto
  ultimately show ?thesis unfolding hashed by simp
qed

subsection \<open>The stream of joined rows\<close>

fun expand_source :: "('a \<Rightarrow> 'b list result) \<Rightarrow> 'a list \<Rightarrow> error option \<Rightarrow> 'b source" where
  "expand_source f [] e = ([], e)"
| "expand_source f (x # xs) e = (case f x of Err err \<Rightarrow> ([], Some err) | Ok ys \<Rightarrow> apfst ((@) ys) (expand_source f xs e))"

definition hash_remaining :: "(chunk \<Rightarrow> row list result) \<Rightarrow> ('s \<Rightarrow> chunk source) \<Rightarrow> 's hash_join_op \<Rightarrow> row source" where
  "hash_remaining probe remaining j =
     apfst ((@) (ho_pending j)) (if ho_done j then ([], None) else expand_source probe (fst (remaining (ho_probe j))) (snd (remaining (ho_probe j))))"

lemma apfst_append_Nil: "apfst ((@) []) p = p" "apfst ((@) (x # xs)) p = (x # xs @ fst p, snd p)"
  by (cases p; simp)+

lemma hash_stream:
  assumes stream: "row_stream pull remaining good"
  shows "row_stream (hash_next (fill_output tx run outer h t pull)) (hash_remaining (probe_chunk tx run outer h t) remaining) (\<lambda>j. good (ho_probe j))"
proof
  let ?fill = "fill_output tx run outer h t pull" and ?probe = "probe_chunk tx run outer h t"
  let ?yields = "\<lambda>j. yields (hash_next ?fill j) (hash_remaining ?probe remaining) (\<lambda>j. good (ho_probe j)) (hash_remaining ?probe remaining j)"
  have pending: "?yields j" if "ho_pending j \<noteq> []" "good (ho_probe j)" for j
    using that by (cases "ho_pending j") (simp_all add: hash_next.simps [of ?fill j] hash_remaining_def apfst_append_Nil prod.expand)
  have pull: "?yields j" if "ho_pending j = []" "\<not> ho_done j" "good (ho_probe j)" "remaining (ho_probe j) = (cks, e)" for j cks e
    using that
  proof (induction cks arbitrary: j)
    case Nil
    then show ?case using row_stream.pull [OF stream, of "ho_probe j"]
      by (cases e) (auto simp: hash_next.simps [of ?fill j] fill_output_def [of tx run outer h t pull j] hash_remaining_def)
  next
    case (Cons ck cks)
    then obtain s where s: "pull (ho_probe j) = Some (Ok (Some ck, s))" "good s" "remaining s = (cks, e)"
      using row_stream.pull [OF stream, of "ho_probe j"] by auto
    note step = hash_next.simps [of ?fill j]
    show ?case
    proof (cases "?probe ck")
      case (Err x)
      with s Cons.prems show ?thesis by (simp add: step fill_output_def [of tx run outer h t pull j] hash_remaining_def)
    next
      case (Ok rs)
      let ?k = "j\<lparr> ho_probe := s, ho_pending := rs \<rparr>"
      have next_k: "hash_next ?fill j = hash_next ?fill ?k" using Ok s Cons.prems by (simp add: step fill_output_def [of tx run outer h t pull j])
      have rem_k: "hash_remaining ?probe remaining j = hash_remaining ?probe remaining ?k"
        using Ok s Cons.prems by (simp add: hash_remaining_def apfst_append_Nil)
      show ?thesis unfolding next_k rem_k
      proof (cases "rs = []")
        case True
        show "?yields ?k" by (rule Cons.IH) (use True s Cons.prems in simp_all)
      next
        case False
        show "?yields ?k" by (rule pending) (use False s in simp_all)
      qed
    qed
  qed
  fix j :: "'a hash_join_op"
  assume good: "good (ho_probe j)"
  show "?yields j"
  proof (cases "ho_pending j = []")
    case True
    show ?thesis
    proof (cases "ho_done j")
      assume "ho_done j"
      with True good show ?thesis by (simp add: hash_next.simps [of ?fill j] fill_output_def [of tx run outer h t pull j] hash_remaining_def)
    next
      assume "\<not> ho_done j"
      with True good show ?thesis using pull [of j "fst (remaining (ho_probe j))" "snd (remaining (ho_probe j))"] by simp
    qed
  qed (use good pending in simp)
qed

lemma expand_source_Ok:
  "(\<And>x. x \<in> set xs \<Longrightarrow> f x = Ok (g x)) \<Longrightarrow> expand_source f xs None = (concat (map g xs), None)"
  by (induction xs) auto

lemma concatR_append: "concatR f (xs @ ys) = bindR (concatR f xs) (\<lambda>a. bindR (concatR f ys) (\<lambda>b. Ok (a @ b)))"
proof (induction xs)
  case Nil
  show ?case by (cases "mapR f ys") (simp_all add: concatR_def)
next
  case (Cons x xs)
  then show ?case by (cases "f x"; cases "mapR f xs"; cases "mapR f ys"; cases "mapR f (xs @ ys)") (simp_all add: concatR_def)
qed

lemma expand_source_collected: "collected (expand_source (concatR f) xss None) = concatR f (concat xss)"
proof (induction xss)
  case (Cons xs xss)
  then have "concatR f (concat xss) = collected (expand_source (concatR f) xss None)" by simp
  then show ?case
    by (cases "concatR f xs"; cases "expand_source (concatR f) xss None"; cases "snd (expand_source (concatR f) xss None)")
      (simp_all add: concatR_append collected_def after_def)
qed (simp add: collected_def after_def concatR_def)

lemma concatR_cong: "(\<And>x. x \<in> set xs \<Longrightarrow> f x = g x) \<Longrightarrow> concatR f xs = concatR g xs"
  unfolding concatR_def by (simp cong: mapR_cong)

lemma expand_source_map: "(\<And>x. x \<in> set xs \<Longrightarrow> f x = g (h x)) \<Longrightarrow> expand_source f xs e = expand_source g (map h xs) e"
  by (induction xs) (auto split: result.split)

lemma probe_key_row:
  assumes ck: "chunk_ok ck" "length (ck_columns ck) = length (fst side)" "i < ck_len ck"
    and ix: "key_indices (snd side) (fst side) = Some is" "\<forall>c \<in> set is. c < length (fst side)"
  shows "probe_key_into tx run side ck i = row_key tx run side (chunk_rows ck ! i)"
proof -
  have len: "length (chunk_rows ck ! i) = length (fst side)" using ck by (simp add: chunk_rows_def)
  have "key_into (\<lambda>index. bindR (chunk_column_at ck index) (\<lambda>col. column_value col i)) js out = key_into (idx (chunk_rows ck ! i)) js out"
    if "\<forall>c \<in> set js. c < length (fst side)" for js out
    using that
  proof (induction js arbitrary: out)
    case (Cons c js)
    then have "bindR (chunk_column_at ck c) (\<lambda>col. column_value col i) = idx (chunk_rows ck ! i) c"
      using chunk_cell [OF ck(1,3), of c] ck(2) len by (simp add: idx_def)
    moreover have "key_into (\<lambda>index. bindR (chunk_column_at ck index) (\<lambda>col. column_value col i)) js = key_into (idx (chunk_rows ck ! i)) js"
      using Cons by (intro ext) simp
    ultimately show ?case by simp
  qed simp
  with ix show ?thesis by (simp add: probe_key_into_def row_key_def indices_key_into_def)
qed

lemma mapR_map: "mapR f (map g xs) = mapR (\<lambda>x. f (g x)) xs"
  by (induction xs) simp_all

lemma probe_chunk_rows:
  assumes ck: "chunk_ok ck" "length (ck_columns ck) = length (fst (probe_side h))"
    and ix: "key_indices (snd (probe_side h)) (fst (probe_side h)) = Some is" "\<forall>c \<in> set is. c < length (fst (probe_side h))"
  shows "probe_chunk tx run outer h t ck =
    concatR (\<lambda>r. bindR (row_key tx run (probe_side h) r) (\<lambda>key. join_probe_row tx run outer h t (matches_of t key) r)) (chunk_rows ck)"
proof -
  let ?f = "\<lambda>r. bindR (row_key tx run (probe_side h) r) (\<lambda>key. join_probe_row tx run outer h t (matches_of t key) r)"
  have "probe_chunk tx run outer h t ck = concatR (\<lambda>i. ?f (chunk_rows ck ! i)) [0..<ck_len ck]"
    unfolding probe_chunk_def
  proof (rule concatR_cong)
    fix i
    assume "i \<in> set [0..<ck_len ck]"
    then have i: "i < ck_len ck" by simp
    have row: "chunk_row ck i = Ok (chunk_rows ck ! i)" using chunk_row_ok [OF ck(1) i] i by (simp add: chunk_rows_def)
    have "join_probe_row tx run outer h t [] r = Ok []" if "\<not> outer_probe h" for r using that by (simp add: join_probe_row_def filterR_def)
    then show "bindR (probe_key_into tx run (probe_side h) ck i) (\<lambda>key.
         let ms = matches_of t key in if ms = [] \<and> \<not> outer_probe h then Ok [] else bindR (chunk_row ck i) (join_probe_row tx run outer h t ms)) =
        ?f (chunk_rows ck ! i)"
      unfolding probe_key_row [OF ck i ix] by (intro bindR_cong refl) (simp add: row Let_def)
  qed
  also have "\<dots> = concatR ?f (map ((!) (chunk_rows ck)) [0..<ck_len ck])" by (simp add: concatR_def mapR_map comp_def)
  also have "map ((!) (chunk_rows ck)) [0..<ck_len ck] = chunk_rows ck" using map_nth [of "chunk_rows ck"] by (simp add: chunk_rows_def)
  finally show ?thesis .
qed

lemma hash_join_stream_rows:
  assumes ex: "extract_hash_keys cs left right = (ls, rs, kept)"
    and h: "h = \<lparr> hj_kind = kind, hj_keys = \<lparr> hk_left = ls, hk_right = rs, hk_residual = residual \<rparr>, hj_left = left, hj_right = right \<rparr>"
    and build: "row_stream pull_build rem_build good_build" "good_build b" "rem_build b = (B, None)" "fused_build = None \<or> fused_build = Some (B, None)"
    and probe: "row_stream pull rem good" "good s" "rem s = (cks, None)" "chunks_ok (fst (probe_side h)) cks"
    and sides: "side_rows (probe_is_right h) left_rows right_rows = (B, rows_of cks)"
    and rows: "hash_rows tx run outer h left_rows right_rows = Ok out"
  shows "\<exists>t j. hash_open tx run h fused_build pull_build b s = Some (Ok (t, j)) \<and>
    drain (hash_next (fill_output tx run outer h t pull)) [] j = Some (Ok out)"
proof -
  let ?f = "\<lambda>t r. bindR (row_key tx run (probe_side h) r) (\<lambda>key. join_probe_row tx run outer h t (matches_of t key) r)"
  from rows sides obtain t where t: "hash_build tx run h (concat B) = Ok t" "concatR (?f t) (rows_of cks) = Ok out"
    by (auto simp: hash_rows_def side_rows_def bindR_Ok_iff split: if_splits)
  let ?j = "\<lparr> ho_probe = s, ho_done = False, ho_pending = [] \<rparr>"
  from extract_meaning [OF ex] obtain ps where ps: "key_indices ls left = Some (map fst ps)" "key_indices rs right = Some (map snd ps)"
    "\<forall>p \<in> set ps. fst p < length left \<and> snd p < length right" by blast
  let ?is = "if probe_is_right h then map snd ps else map fst ps"
  have ix: "key_indices (snd (probe_side h)) (fst (probe_side h)) = Some ?is" "\<forall>c \<in> set ?is. c < length (fst (probe_side h))"
    using ps by (auto simp: probe_side_def h)
  have "expand_source (probe_chunk tx run outer h t) cks None = expand_source (concatR (?f t)) (map chunk_rows cks) None"
    by (rule expand_source_map) (use probe(4) probe_chunk_rows [OF _ _ ix] in \<open>simp add: chunks_ok_def\<close>)
  then have "collected (hash_remaining (probe_chunk tx run outer h t) rem ?j) = Ok out"
    using probe(3) t(2) expand_source_collected [of "?f t" "map chunk_rows cks"] by (simp add: hash_remaining_def apfst_append_Nil rows_of_def)
  then have "drain (hash_next (fill_output tx run outer h t pull)) [] ?j = Some (Ok out)"
    using row_stream.drain_returns [OF hash_stream [OF probe(1)], of ?j tx run outer h t] probe(2) by simp
  moreover have "hash_open tx run h fused_build pull_build b s = Some (Ok (t, ?j))"
    using row_stream.drain_returns [OF build(1,2)] build(3,4) t(1) by (auto simp: hash_open_def drain_into_def collected_def after_def)
  ultimately show ?thesis by blast
qed

lemma nested_rows_Ok:
  assumes "joinable tx run outer left right (split_conjuncts e) left_rows right_rows" "analyze_hash_join kind (Some e) left right = Some keys"
  shows "\<exists>out. nested_rows tx run outer kind (Some e) left right left_rows right_rows = Ok out"
proof -
  obtain ls rs kept where ex: "extract_hash_keys (split_conjuncts e) left right = (ls, rs, kept)" by (cases "extract_hash_keys (split_conjuncts e) left right") auto
  with assms(2) have ls: "ls \<noteq> []" and k: "keys = \<lparr> hk_left = ls, hk_right = rs, hk_residual = combine_and kept \<rparr>"
    by (auto simp: analyze_hash_join_def split: if_splits)
  let ?h = "\<lparr> hj_kind = kind, hj_keys = keys, hj_left = left, hj_right = right \<rparr>"
  obtain B P where "side_rows (probe_is_right ?h) left_rows right_rows = (B, P)" by (cases "side_rows (probe_is_right ?h) left_rows right_rows")
  from hash_rows_spec [OF ex ls assms(1) refl subset_refl _ this] k hash_rows_nested [OF assms(2,1)] show ?thesis by auto
qed

text \<open>
  C35: The hash join is the nested loop. Take an inner, left or right join whose condition yields hash keys, over rows of the
  declared types on which the conjuncts of the condition have a truth value. Opening the hash join, which streams or pulls its build
  side, and pulling it to the end
  returns after finitely many steps with exactly the rows of the nested loop over the same condition, in the same order:
  matches by the key bytes and the residual predicate are the matches of the condition, and a row without a
  match is extended with nulls in the same places.
\<close>

theorem hash_join_is_nested_loop:
  assumes "analyze_hash_join kind (Some e) left right = Some keys" "joinable tx run outer left right (split_conjuncts e) left_rows right_rows"
    and "h = \<lparr> hj_kind = kind, hj_keys = keys, hj_left = left, hj_right = right \<rparr>"
    and "row_stream pull_build rem_build good_build" "good_build b" "rem_build b = (if kind = RightJoin then left_rows else right_rows, None)"
    and "fused_build = None \<or> fused_build = Some (if kind = RightJoin then left_rows else right_rows, None)"
    and "row_stream pull rem good" "good s" "rem s = (cks, None)" "chunks_ok (fst (probe_side h)) cks" "rows_of cks = (if kind = RightJoin then right_rows else left_rows)"
  shows "\<exists>t j. hash_open tx run h fused_build pull_build b s = Some (Ok (t, j)) \<and>
    drain (hash_next (fill_output tx run outer h t pull)) [] j = Some (nested_rows tx run outer kind (Some e) left right left_rows right_rows)"
proof -
  obtain ls rs kept where ex: "extract_hash_keys (split_conjuncts e) left right = (ls, rs, kept)" by (cases "extract_hash_keys (split_conjuncts e) left right") auto
  with assms(1) have k: "keys = \<lparr> hk_left = ls, hk_right = rs, hk_residual = combine_and kept \<rparr>" by (auto simp: analyze_hash_join_def split: if_splits)
  obtain out where out: "nested_rows tx run outer kind (Some e) left right left_rows right_rows = Ok out" using nested_rows_Ok [OF assms(2,1)] by blast
  have rows: "hash_rows tx run outer h left_rows right_rows = Ok out" unfolding assms(3) hash_rows_nested [OF assms(1,2)] out ..
  have sides: "side_rows (probe_is_right h) left_rows right_rows = (if kind = RightJoin then left_rows else right_rows, rows_of cks)"
    unfolding assms(3,12) by (simp add: side_rows_def probe_is_right_def)
  from hash_join_stream_rows [OF ex assms(3) [unfolded k] assms(4-11) sides rows] show ?thesis unfolding out .
qed

text \<open>
  C36: Equalities of the where clause may become the keys of a comma join. When the conjuncts of the where clause that
  compare a column of each side are taken as hash keys and only the rest stays in the filter, the filtered rows are those
  of the cross product filtered by the whole clause.
\<close>

theorem comma_join_pushdown:
  assumes "plan_joins left [((Cross, None), right)] (split_conjuncts e) False = Ok ([step], kept, True)"
    "joinable tx run outer left right (split_conjuncts e) left_rows right_rows"
  shows "bindR (run_join tx run outer step left_rows right_rows) (filterR (join_matches tx run outer (left @ right) (post_filter (Some e) kept True))) =
    bindR (nested_rows tx run outer Cross None left right left_rows right_rows) (filterR (join_matches tx run outer (left @ right) (Some e)))"
proof -
  obtain ls rs kept' where ex: "extract_hash_keys (split_conjuncts e) left right = (ls, rs, kept')" by (cases "extract_hash_keys (split_conjuncts e) left right") auto
  with assms(1) have ls: "ls \<noteq> []" and "kept' = kept"
    and "step = HashStep \<lparr> hj_kind = Cross, hj_keys = \<lparr> hk_left = ls, hk_right = rs, hk_residual = None \<rparr>, hj_left = left, hj_right = right \<rparr>"
    by (auto simp: Let_def nested_new_def split: if_splits)
  with comma_join_nested [OF ex ls assms(2)] show ?thesis by (simp add: post_filter_def)
qed

subsection \<open>Examples\<close>

definition key_column :: "byte \<Rightarrow> schema" where
  "key_column owner = [plain_column (Some [owner]) [107] TInt]"

definition keys_equal :: "byte \<Rightarrow> byte \<Rightarrow> expr" where
  "keys_equal a b = EBinary Eq (EQualified [a] [107]) (EQualified [b] [107])"

definition no_subqueries :: subquery_runner where
  "no_subqueries = (\<lambda>_ _. Err Panic)"

lemmas example_simps = key_column_def keys_equal_def plain_column_def column_dtype_def compatible_columns_def analyze_hash_join_def combine_and_def
  nested_rows_def concatR_def filterR_def join_matches_def eval_predicate_bound_def eval_bound_def resolve_column_def scope_lookup_def resolve_def
  idx_def eval_binary_def compare_def or_else_def

lemma keys_equal_eval:
  "eval_bound tx run (keys_equal 97 98) (Some (EvalCtx (RowScope (key_column 97 @ key_column 98) [VInt x, v]) outer)) = eval_binary Eq (VInt x) v"
  by (simp add: example_simps)

theorem hash_join_is_nested_loop_witness:
  "\<exists>t j. hash_open sample_text no_subqueries \<lparr> hj_kind = LeftJoin, hj_keys = \<lparr> hk_left = [EQualified [97] [107]], hk_right = [EQualified [98] [107]], hk_residual = None \<rparr>,
        hj_left = key_column 97, hj_right = key_column 98 \<rparr> (Some ([[VInt 2], [VNull]], None)) buffered_next (buffer_of [[VInt 2], [VNull]]) (buffer_of [[VInt 1], [VInt 2]]) = Some (Ok (t, j)) \<and>
    drain (hash_next (fill_output sample_text no_subqueries None \<lparr> hj_kind = LeftJoin, hj_keys = \<lparr> hk_left = [EQualified [97] [107]], hk_right = [EQualified [98] [107]], hk_residual = None \<rparr>,
        hj_left = key_column 97, hj_right = key_column 98 \<rparr> t (default_next_chunk buffered_next))) [] j = Some (Ok [[VInt 1, VNull], [VInt 2, VInt 2]])"
proof -
  let ?cks = "[\<lparr> ck_columns = [CInt [Some 1]], ck_len = 1 \<rparr>, \<lparr> ck_columns = [CInt [Some 2]], ck_len = 1 \<rparr>]"
  let ?l = "[[VInt 1], [VInt 2]]" and ?r = "[[VInt 2], [VNull]]"
  have keys: "analyze_hash_join LeftJoin (Some (keys_equal 97 98)) (key_column 97) (key_column 98) =
      Some \<lparr> hk_left = [EQualified [97] [107]], hk_right = [EQualified [98] [107]], hk_residual = None \<rparr>" by (simp add: example_simps)
  have "truth sample_text no_subqueries (Some (EvalCtx (RowScope (key_column 97 @ key_column 98) [VInt x, v]) None)) (keys_equal 97 98)" if "v = VNull \<or> v = VInt 2" for x v
  proof -
    from that obtain w where w: "eval_binary Eq (VInt x) v = Ok w" by (auto simp: eval_binary_def compare_def)
    with comparison_tri [OF _ w] show ?thesis unfolding truth_def keys_equal_eval by (auto simp: is_comparison_def)
  qed
  then have ok: "joinable sample_text no_subqueries None (key_column 97) (key_column 98) (split_conjuncts (keys_equal 97 98)) ?l ?r"
    by (simp add: joinable_def separate_def row_fits_def key_column_def plain_column_def keys_equal_def)
  have stream: "row_stream (default_next_chunk buffered_next) (\<lambda>b. project_source chunk_from_row (drop (bf_pos b) (bf_rows b)) None) (\<lambda>_. True)"
    using project_stream [OF buf.row_stream_axioms, of chunk_from_row] by (simp add: default_next_chunk_def)
  have cks: "project_source chunk_from_row (drop (bf_pos (buffer_of ?l)) (bf_rows (buffer_of ?l))) None = (?cks, None)"
    by (simp add: buffer_of_def chunk_from_row_def chunk_from_rows_def column_from_values_def column_for_value_def idx_def upt_rec)
  have "nested_rows sample_text no_subqueries None LeftJoin (Some (keys_equal 97 98)) (key_column 97) (key_column 98) ?l ?r = Ok [[VInt 1, VNull], [VInt 2, VInt 2]]"
    by (simp add: example_simps cmp_by_def)
  with hash_join_is_nested_loop [OF keys ok refl buf.row_stream_axioms, of "buffer_of ?r", OF _ _ _ stream _ cks, of "Some (?r, None)"] show ?thesis
    by (simp add: buffer_of_def probe_side_def probe_is_right_def chunks_ok_def chunk_ok_def key_column_def rows_of_def chunk_rows_def opt_value_def)
qed

lemma keys_equal_truth:
  "truth tx run (Some (EvalCtx (RowScope (key_column 97 @ key_column 98) [VInt x, VInt y]) outer)) (keys_equal 97 98)"
proof -
  obtain w where w: "eval_binary Eq (VInt x) (VInt y) = Ok w" by (auto simp: eval_binary_def compare_def)
  with comparison_tri [OF _ w] show ?thesis unfolding truth_def keys_equal_eval by (auto simp: is_comparison_def)
qed

definition key_hash :: "byte \<Rightarrow> byte \<Rightarrow> hash_keys" where
  "key_hash a b = \<lparr> hk_left = [EQualified [a] [107]], hk_right = [EQualified [b] [107]], hk_residual = None \<rparr>"

theorem comma_join_pushdown_witness:
  "bindR (run_join sample_text no_subqueries None (HashStep \<lparr> hj_kind = Cross, hj_keys = key_hash 97 98, hj_left = key_column 97, hj_right = key_column 98 \<rparr>)
       [[VInt 1], [VInt 2]] [[VInt 2]])
      (filterR (join_matches sample_text no_subqueries None (key_column 97 @ key_column 98) (post_filter (Some (keys_equal 97 98)) [] True))) =
    Ok [[VInt 2, VInt 2]]"
proof -
  let ?e = "keys_equal 97 98" and ?l = "[[VInt 1], [VInt 2]]" and ?r = "[[VInt 2]]"
  have plan: "plan_joins (key_column 97) [((Cross, None), key_column 98)] (split_conjuncts ?e) False =
      Ok ([HashStep \<lparr> hj_kind = Cross, hj_keys = key_hash 97 98, hj_left = key_column 97, hj_right = key_column 98 \<rparr>], [], True)"
    by (simp add: example_simps key_hash_def)
  have "joinable sample_text no_subqueries None (key_column 97) (key_column 98) (split_conjuncts ?e) ?l ?r"
    using keys_equal_truth by (simp add: joinable_def separate_def row_fits_def key_column_def plain_column_def keys_equal_def)
  from comma_join_pushdown [OF plan this] show ?thesis by (simp add: example_simps cmp_by_def)
qed

subsection \<open>Where the filter is lost\<close>

text \<open>
  C37: A right join after a comma join brings rejected rows back. For \<open>from a, b right join c on a.k = c.k where a.k = b.k\<close>
  the planner makes the equality the key of the first join and drops it from the filter. When \<open>a\<close> and \<open>b\<close> have one row each with
  different keys, the planned joins and what is left of the filter return the row of \<open>c\<close> with nulls in front,
  while the joins in the order of the statement, filtered by the where clause, return nothing.
\<close>

theorem pushdown_before_right_join:
  assumes "x \<noteq> y"
  shows "plan_joins (key_column 97) [((Cross, None), key_column 98), ((RightJoin, Some (keys_equal 97 99)), key_column 99)] (split_conjuncts (keys_equal 97 98)) False =
      Ok ([HashStep \<lparr> hj_kind = Cross, hj_keys = key_hash 97 98, hj_left = key_column 97, hj_right = key_column 98 \<rparr>,
           HashStep \<lparr> hj_kind = RightJoin, hj_keys = key_hash 97 99, hj_left = key_column 97 @ key_column 98, hj_right = key_column 99 \<rparr>], [], True) \<and>
    post_filter (Some (keys_equal 97 98)) [] True = None \<and>
    bindR (run_join sample_text no_subqueries None (HashStep \<lparr> hj_kind = Cross, hj_keys = key_hash 97 98, hj_left = key_column 97, hj_right = key_column 98 \<rparr>) [[VInt x]] [[VInt y]])
      (\<lambda>rows. run_join sample_text no_subqueries None
        (HashStep \<lparr> hj_kind = RightJoin, hj_keys = key_hash 97 99, hj_left = key_column 97 @ key_column 98, hj_right = key_column 99 \<rparr>) rows [[VInt z]]) =
      Ok [[VNull, VNull, VInt z]] \<and>
    bindR (nested_rows sample_text no_subqueries None Cross None (key_column 97) (key_column 98) [[VInt x]] [[VInt y]])
      (\<lambda>rows. bindR (nested_rows sample_text no_subqueries None RightJoin (Some (keys_equal 97 99)) (key_column 97 @ key_column 98) (key_column 99) rows [[VInt z]])
        (filterR (join_matches sample_text no_subqueries None (key_column 97 @ key_column 98 @ key_column 99) (Some (keys_equal 97 98))))) = Ok []"
proof (intro conjI)
  have keys: "encode_key (VInt x) \<noteq> encode_key (VInt y)" using assms by (auto simp: encode_key_simps be8_eq flip64)
  have comp: "component (VInt x) \<noteq> component (VInt y)"
    using component_append [of TInt "VInt x" TInt "VInt y" "[]" "[]"] keys by simp
  note key = push_key_component_fits [of TInt "VInt n" for n, simplified]
  note run_simps = hash_rows_def hash_build_def build_side_def probe_side_def probe_is_right_def row_key_def indices_key_into_def key_hash_def key_column_def
    plain_column_def flat_row_def add_match_def key idx_def concatR_def join_probe_row_def matches_of_def filterR_def join_matches_def hj_schema_def combine_rows_def
    outer_probe_def null_extended_def or_else_def
  show "plan_joins (key_column 97) [((Cross, None), key_column 98), ((RightJoin, Some (keys_equal 97 99)), key_column 99)] (split_conjuncts (keys_equal 97 98)) False =
      Ok ([HashStep \<lparr> hj_kind = Cross, hj_keys = key_hash 97 98, hj_left = key_column 97, hj_right = key_column 98 \<rparr>,
           HashStep \<lparr> hj_kind = RightJoin, hj_keys = key_hash 97 99, hj_left = key_column 97 @ key_column 98, hj_right = key_column 99 \<rparr>], [], True)"
    by (simp add: example_simps key_hash_def)
  show "post_filter (Some (keys_equal 97 98)) [] True = None" by (simp add: post_filter_def combine_and_def)
  have first: "hash_rows sample_text no_subqueries None \<lparr> hj_kind = Cross, hj_keys = key_hash 97 98, hj_left = key_column 97, hj_right = key_column 98 \<rparr> [[VInt x]] [[VInt y]] = Ok []"
    using comp by (simp add: run_simps)
  have "hash_rows sample_text no_subqueries None \<lparr> hj_kind = RightJoin, hj_keys = key_hash 97 99, hj_left = key_column 97 @ key_column 98, hj_right = key_column 99 \<rparr> [] [[VInt z]] =
      Ok [[VNull, VNull, VInt z]]" by (simp add: run_simps)
  with first show "bindR (run_join sample_text no_subqueries None (HashStep \<lparr> hj_kind = Cross, hj_keys = key_hash 97 98, hj_left = key_column 97, hj_right = key_column 98 \<rparr>) [[VInt x]] [[VInt y]])
      (\<lambda>rows. run_join sample_text no_subqueries None
        (HashStep \<lparr> hj_kind = RightJoin, hj_keys = key_hash 97 99, hj_left = key_column 97 @ key_column 98, hj_right = key_column 99 \<rparr>) rows [[VInt z]]) =
      Ok [[VNull, VNull, VInt z]]" by simp
  have "sint x \<noteq> sint y" using assms signed_word_eqI by blast
  then show "bindR (nested_rows sample_text no_subqueries None Cross None (key_column 97) (key_column 98) [[VInt x]] [[VInt y]])
      (\<lambda>rows. bindR (nested_rows sample_text no_subqueries None RightJoin (Some (keys_equal 97 99)) (key_column 97 @ key_column 98) (key_column 99) rows [[VInt z]])
        (filterR (join_matches sample_text no_subqueries None (key_column 97 @ key_column 98 @ key_column 99) (Some (keys_equal 97 98))))) = Ok []"
    by (cases "sint x = sint z") (simp_all add: example_simps cmp_by_def)
qed

theorem pushdown_before_right_join_witness:
  "bindR (run_join sample_text no_subqueries None (HashStep \<lparr> hj_kind = Cross, hj_keys = key_hash 97 98, hj_left = key_column 97, hj_right = key_column 98 \<rparr>) [[VInt 1]] [[VInt 2]])
      (\<lambda>rows. run_join sample_text no_subqueries None
        (HashStep \<lparr> hj_kind = RightJoin, hj_keys = key_hash 97 99, hj_left = key_column 97 @ key_column 98, hj_right = key_column 99 \<rparr>) rows [[VInt 3]]) =
      Ok [[VNull, VNull, VInt 3]]"
  using pushdown_before_right_join [of 1 2 3] by simp

end
