(* ===== verification/Wal.thy ===== *)
theory Wal
  imports Table_Storage
begin

section \<open>The write-ahead log\<close>

text \<open>
  \<open>src/src/wal.rs\<close>: the frames of the log, appending to it, and the plan that recovery makes of a log image. The
  log is a byte string; a crash leaves a prefix of it.
\<close>

definition REC_INSERT :: byte where "REC_INSERT = 1"
definition REC_DELETE_MARK :: byte where "REC_DELETE_MARK = 2"
definition REC_COMMIT :: byte where "REC_COMMIT = 3"

definition WAL_HEADER_LEN :: nat where
  "WAL_HEADER_LEN = 9"

lemmas wal_consts = REC_INSERT_def REC_DELETE_MARK_def REC_COMMIT_def WAL_HEADER_LEN_def

datatype wal_record =
    WInsert u32 rid "byte list"
  | WDeleteMark u32 rid u64 u64
  | WCommit

fun frame_body :: "u64 \<Rightarrow> wal_record \<Rightarrow> byte list" where
  "frame_body trx (WInsert file_no r record) =
     REC_INSERT # le_enc 8 (unat trx) @ le_enc 4 (unat file_no) @ le_enc 4 (unat (page_no r)) @ le_enc 2 (unat (slot r)) @ record"
| "frame_body trx (WDeleteMark file_no r deleter next_rid) =
     REC_DELETE_MARK # le_enc 8 (unat trx) @ le_enc 4 (unat file_no) @ le_enc 4 (unat (page_no r)) @ le_enc 2 (unat (slot r)) @
       le_enc 8 (unat deleter) @ le_enc 8 (unat next_rid)"
| "frame_body trx WCommit = REC_COMMIT # le_enc 8 (unat trx)"

definition encode_frame_into :: "byte list \<Rightarrow> u64 \<Rightarrow> wal_record \<Rightarrow> byte list" where
  "encode_frame_into out trx rec =
     (let start = length out; buf = out @ [0, 0, 0, 0] @ frame_body trx rec; len = (word_of_nat (length buf - start - 4) :: u32)
      in patch buf start (le_enc 4 (unat len)))"

definition encode_frame :: "u64 \<Rightarrow> wal_record \<Rightarrow> byte list" where
  "encode_frame trx rec = encode_frame_into [] trx rec"

definition decode_payload_of :: "byte \<Rightarrow> byte list \<Rightarrow> wal_record option" where
  "decode_payload_of ty payload =
     (if ty = REC_INSERT then
        (if length payload < 10 then None
         else Some (WInsert (dec_u32 payload 0) (Rid (dec_u32 payload 4) (dec_u16 payload 8)) (drop 10 payload)))
      else if ty = REC_DELETE_MARK then
        (if length payload < 26 then None
         else Some (WDeleteMark (dec_u32 payload 0) (Rid (dec_u32 payload 4) (dec_u16 payload 8)) (dec_u64 payload 10) (dec_u64 payload 18)))
      else if ty = REC_COMMIT then Some WCommit
      else None)"

definition decode_frame :: "byte list \<Rightarrow> (u64 \<times> wal_record \<times> nat) option" where
  "decode_frame bytes =
     (if length bytes < 4 then None
      else let len = unat (dec_u32 bytes 0) in
        if len < WAL_HEADER_LEN \<or> length bytes < 4 + len then None
        else (case decode_payload_of (bytes ! 4) (subl bytes 13 (4 + len)) of
                None \<Rightarrow> None
              | Some rec \<Rightarrow> Some (dec_u64 bytes 5, rec, 4 + len)))"

lemma decode_frame_length: "decode_frame bytes = Some (trx, rec, n) \<Longrightarrow> 13 \<le> n \<and> n \<le> length bytes"
  by (auto simp: decode_frame_def wal_consts Let_def split: if_splits option.splits)

subsection \<open>The log file\<close>

type_synonym wal_file = "byte list"

definition wal_append :: "wal_file \<Rightarrow> u64 \<Rightarrow> wal_record \<Rightarrow> wal_file" where
  "wal_append log trx rec = log @ encode_frame trx rec"

definition append_frames :: "wal_file \<Rightarrow> byte list \<Rightarrow> wal_file" where
  "append_frames log frames = (if frames = [] then log else log @ frames)"

definition wal_len :: "wal_file \<Rightarrow> nat" where
  "wal_len log = length log"

definition wal_is_empty :: "wal_file \<Rightarrow> bool" where
  "wal_is_empty log = (wal_len log = 0)"

definition wal_truncate :: "wal_file \<Rightarrow> wal_file" where
  "wal_truncate log = []"

text \<open>What \<open>Database::commit_trx\<close> writes: the buffered frames of the transaction, then its commit record.\<close>

definition log_commit :: "wal_file \<Rightarrow> u64 \<Rightarrow> byte list \<Rightarrow> wal_file" where
  "log_commit log trx buffered = wal_append (append_frames log buffered) trx WCommit"

subsection \<open>The recovery plan\<close>

record recovery_plan =
  rp_committed :: "(nat \<times> u64 \<times> wal_record list) list"
  rp_committed_ids :: "u64 list"
  rp_max_trx_id :: u64

record scan_state =
  sc_records :: "(u64 \<times> wal_record list) list"
  sc_commit_pos :: "(u64 \<times> nat) list"
  sc_max :: u64
  sc_pos :: nat

definition push_record :: "u64 \<Rightarrow> wal_record \<Rightarrow> (u64 \<times> wal_record list) list \<Rightarrow> (u64 \<times> wal_record list) list" where
  "push_record trx rec m = bt_insert trx ((case map_of m trx of None \<Rightarrow> [] | Some rs \<Rightarrow> rs) @ [rec]) m"

definition scan_step :: "scan_state \<Rightarrow> u64 \<Rightarrow> wal_record \<Rightarrow> nat \<Rightarrow> scan_state" where
  "scan_step s trx rec frame_len =
     (let pos = sc_pos s + frame_len; s' = s\<lparr> sc_pos := pos, sc_max := max (sc_max s) trx \<rparr> in
      if rec = WCommit then s'\<lparr> sc_commit_pos := bt_or_insert trx pos (sc_commit_pos s) \<rparr>
      else s'\<lparr> sc_records := push_record trx rec (sc_records s) \<rparr>)"

function scan_frames :: "scan_state \<Rightarrow> byte list \<Rightarrow> scan_state" where
  "scan_frames s bytes =
     (case decode_frame bytes of
        None \<Rightarrow> s
      | Some (trx, rec, n) \<Rightarrow> scan_frames (scan_step s trx rec n) (drop n bytes))"
  by pat_completeness auto
termination
  by (relation "measure (\<lambda>(s, bytes). length bytes)") (auto dest!: decode_frame_length)

declare scan_frames.simps [simp del]

definition scan_start :: scan_state where
  "scan_start = \<lparr> sc_records = [], sc_commit_pos = [], sc_max = 0, sc_pos = 0 \<rparr>"

definition plan_recovery :: "byte list \<Rightarrow> recovery_plan" where
  "plan_recovery bytes =
     (let s = scan_frames scan_start bytes;
          committed = List.map_filter (\<lambda>(trx, pos). map_option (\<lambda>recs. (pos, trx, recs)) (map_of (sc_records s) trx)) (sc_commit_pos s)
      in \<lparr> rp_committed = sort_key fst committed, rp_committed_ids = map fst (sc_commit_pos s), rp_max_trx_id = sc_max s \<rparr>)"

subsection \<open>Frames\<close>

lemma encode_frame_into_eq:
  assumes "length (frame_body trx rec) < 2 ^ 32"
  shows "encode_frame_into out trx rec = out @ le_enc 4 (length (frame_body trx rec)) @ frame_body trx rec"
  using assms by (simp add: encode_frame_into_def patch_def Let_def unat_u32_of_nat del: unat_of_nat)

lemma length_frame_body: "9 \<le> length (frame_body trx rec)"
  by (cases rec) auto

lemma decode_payload_body:
  "decode_payload_of (hd (frame_body trx rec)) (drop 9 (frame_body trx rec)) = Some rec"
proof (cases rec)
  case (WInsert f r bs)
  then show ?thesis
    using dec_words(2) [of "[]" 0 f] dec_words(2) [of "le_enc 4 (unat f)" 4 "page_no r"]
      dec_words(1) [of "le_enc 4 (unat f) @ le_enc 4 (unat (page_no r))" 8 "slot r"]
    by (simp add: decode_payload_of_def wal_consts)
next
  case (WDeleteMark f r d n)
  then show ?thesis
    using dec_words(2) [of "[]" 0 f] dec_words(2) [of "le_enc 4 (unat f)" 4 "page_no r"]
      dec_words(1) [of "le_enc 4 (unat f) @ le_enc 4 (unat (page_no r))" 8 "slot r"]
      dec_words(3) [of "le_enc 4 (unat f) @ le_enc 4 (unat (page_no r)) @ le_enc 2 (unat (slot r))" 10 d]
      dec_words(3) [of "le_enc 4 (unat f) @ le_enc 4 (unat (page_no r)) @ le_enc 2 (unat (slot r)) @ le_enc 8 (unat d)" 18 n "[]"]
    by (simp add: decode_payload_of_def wal_consts)
next
  case WCommit
  then show ?thesis by (simp add: decode_payload_of_def wal_consts)
qed

lemma frame_body_parts: "frame_body trx rec = hd (frame_body trx rec) # le_enc 8 (unat trx) @ drop 9 (frame_body trx rec)"
  by (cases rec) auto

definition small_record :: "wal_record \<Rightarrow> bool" where
  "small_record rec \<longleftrightarrow> length (frame_body 0 rec) < 2 ^ 32"

lemma small_record_body: "small_record rec \<Longrightarrow> length (frame_body trx rec) < 2 ^ 32"
  by (cases rec) (auto simp: small_record_def)

lemma encode_frame_eq: "small_record rec \<Longrightarrow> encode_frame trx rec = le_enc 4 (length (frame_body trx rec)) @ frame_body trx rec"
  by (simp add: encode_frame_def encode_frame_into_eq [OF small_record_body])

lemma encode_frame_append: "small_record rec \<Longrightarrow> encode_frame_into out trx rec = out @ encode_frame trx rec"
  by (simp add: encode_frame_eq encode_frame_into_eq [OF small_record_body])

lemma length_encode_frame: "small_record rec \<Longrightarrow> 13 \<le> length (encode_frame trx rec)"
  using length_frame_body [of trx rec] by (simp add: encode_frame_eq)

lemma frame_length_field:
  "n < 2 ^ 32 \<Longrightarrow> unat (dec_u32 (le_enc 4 n @ xs) 0) = n"
  using dec_words(2) [of "[]" 0 "word_of_nat n" xs] by (simp add: unat_u32_of_nat del: unat_of_nat)

lemma decode_encode_frame:
  assumes "small_record rec"
  shows "decode_frame (encode_frame trx rec @ rest) = Some (trx, rec, length (encode_frame trx rec))"
proof -
  let ?b = "frame_body trx rec" and ?n = "length (frame_body trx rec)"
  let ?bytes = "le_enc 4 ?n @ ?b @ rest"
  have n: "?n < 2 ^ 32" "9 \<le> ?n" using small_record_body [OF assms] length_frame_body by blast+
  have bytes: "?bytes = le_enc 4 ?n @ [hd ?b] @ le_enc 8 (unat trx) @ drop 9 ?b @ rest"
    by (subst frame_body_parts) simp
  have ty: "?bytes ! 4 = hd ?b" by (subst bytes) (simp add: nth_append)
  have trx: "dec_u64 ?bytes 5 = trx" using dec_words(3) [of "le_enc 4 ?n @ [hd ?b]" 5 trx "drop 9 ?b @ rest"] by (subst bytes) simp
  have payload: "subl ?bytes 13 (4 + ?n) = drop 9 ?b"
    using n(2) subl_mid [of 13 "le_enc 4 ?n @ [hd ?b] @ le_enc 8 (unat trx)" "4 + ?n" "drop 9 ?b" rest] by (subst bytes) simp
  show ?thesis
    using n ty trx payload decode_payload_body [of trx rec]
    by (simp add: encode_frame_eq [OF assms] decode_frame_def frame_length_field Let_def WAL_HEADER_LEN_def del: frame_body.simps)
qed

lemma decode_torn_frame:
  assumes "small_record rec" "k < length (encode_frame trx rec)"
  shows "decode_frame (take k (encode_frame trx rec)) = None"
proof (cases "k < 4")
  case False
  then obtain j where k: "k = 4 + j" using le_Suc_ex [of 4 k] by auto
  then have "take k (encode_frame trx rec) = le_enc 4 (length (frame_body trx rec)) @ take j (frame_body trx rec)"
    by (simp add: encode_frame_eq [OF assms(1)])
  moreover have "j < length (frame_body trx rec)" using assms k by (simp add: encode_frame_eq)
  ultimately show ?thesis using small_record_body [OF assms(1)] by (simp add: decode_frame_def frame_length_field)
qed (simp add: decode_frame_def min_def)

subsection \<open>Logs\<close>

definition log_bytes :: "(u64 \<times> wal_record) list \<Rightarrow> byte list" where
  "log_bytes fs = concat (map (\<lambda>(trx, rec). encode_frame trx rec) fs)"

text \<open>The frames that lie completely in the first \<open>n\<close> bytes.\<close>

fun whole_frames :: "nat \<Rightarrow> (u64 \<times> wal_record) list \<Rightarrow> (u64 \<times> wal_record) list" where
  "whole_frames n [] = []"
| "whole_frames n ((trx, rec) # fs) =
     (let k = length (encode_frame trx rec) in if k \<le> n then (trx, rec) # whole_frames (n - k) fs else [])"

definition scan_all :: "scan_state \<Rightarrow> (u64 \<times> wal_record) list \<Rightarrow> scan_state" where
  "scan_all s fs = foldl (\<lambda>s (trx, rec). scan_step s trx rec (length (encode_frame trx rec))) s fs"

lemma scan_log:
  "\<forall>f \<in> set fs. small_record (snd f) \<Longrightarrow> scan_frames s (take n (log_bytes fs)) = scan_all s (whole_frames n fs)"
proof (induction fs arbitrary: s n)
  case Nil
  show ?case by (subst scan_frames.simps) (simp add: log_bytes_def decode_frame_def scan_all_def)
next
  case (Cons f fs)
  obtain trx rec where f: "f = (trx, rec)" by (cases f)
  let ?e = "encode_frame trx rec"
  have small: "small_record rec" using Cons.prems f by simp
  have bytes: "log_bytes (f # fs) = ?e @ log_bytes fs" by (simp add: log_bytes_def f)
  show ?case
  proof (cases "length ?e \<le> n")
    case True
    then have "take n (log_bytes (f # fs)) = ?e @ take (n - length ?e) (log_bytes fs)" by (simp add: bytes)
    with True decode_encode_frame [OF small] Cons show ?thesis
      by (subst scan_frames.simps) (simp add: f scan_all_def Let_def)
  next
    case False
    then have "take n (log_bytes (f # fs)) = take n ?e" by (simp add: bytes)
    with False decode_torn_frame [OF small, of n] show ?thesis
      by (subst scan_frames.simps) (simp add: f scan_all_def)
  qed
qed

text \<open>The redo records of a transaction, and the first commit record of each with the position behind it.\<close>

definition redo :: "u64 \<Rightarrow> (u64 \<times> wal_record) list \<Rightarrow> wal_record list" where
  "redo trx fs = map snd (filter (\<lambda>(t, rec). t = trx \<and> rec \<noteq> WCommit) fs)"

fun first_commits :: "nat \<Rightarrow> u64 set \<Rightarrow> (u64 \<times> wal_record) list \<Rightarrow> (nat \<times> u64) list" where
  "first_commits pos seen [] = []"
| "first_commits pos seen ((trx, rec) # fs) =
     (let pos' = pos + length (encode_frame trx rec) in
      if rec = WCommit \<and> trx \<notin> seen then (pos', trx) # first_commits pos' (insert trx seen) fs
      else first_commits pos' seen fs)"

lemma log_bytes_simps: "log_bytes [] = []" "log_bytes (fs @ gs) = log_bytes fs @ log_bytes gs" "log_bytes [(trx, rec)] = encode_frame trx rec"
    "log_bytes ((trx, rec) # fs) = encode_frame trx rec @ log_bytes fs"
  by (simp_all add: log_bytes_def)

lemma first_commits_snoc:
  "first_commits pos seen (fs @ [(trx, rec)]) = first_commits pos seen fs @
     (if rec = WCommit \<and> trx \<notin> seen \<and> trx \<notin> snd ` set (first_commits pos seen fs)
      then [(pos + length (log_bytes fs) + length (encode_frame trx rec), trx)] else [])"
proof (induction fs arbitrary: pos seen)
  case Nil
  show ?case by (simp add: log_bytes_simps Let_def)
next
  case (Cons g fs)
  obtain t r where g: "g = (t, r)" by (cases g)
  let ?p = "pos + length (encode_frame t r)"
  show ?case
  proof (cases "r = WCommit \<and> t \<notin> seen")
    case True
    then have step: "first_commits pos seen (g # zs) = (?p, t) # first_commits ?p (insert t seen) zs" for zs by (simp add: g Let_def)
    show ?thesis using True unfolding append_Cons step Cons [of ?p "insert t seen"] by (auto simp: g log_bytes_simps add.assoc)
  next
    case False
    then have step: "first_commits pos seen (g # zs) = first_commits ?p seen zs" for zs unfolding g first_commits.simps Let_def by (rule if_not_P)
    show ?thesis unfolding append_Cons step Cons [of ?p seen] by (simp add: g log_bytes_simps add.assoc)
  qed
qed

lemma first_commits_trx: "snd ` set (first_commits 0 {} fs) = {t. (t, WCommit) \<in> set fs}"
proof (induction fs rule: rev_induct)
  case (snoc f fs)
  obtain trx rec where f: "f = (trx, rec)" by (cases f)
  show ?case
  proof (cases "rec = WCommit \<and> (trx, WCommit) \<notin> set fs")
    case True
    with snoc f show ?thesis by (simp add: first_commits_snoc image_Un) auto
  qed (use snoc f in \<open>auto simp: first_commits_snoc\<close>)
qed simp

lemma first_commits_pos: "p \<in> fst ` set (first_commits 0 {} fs) \<Longrightarrow> p \<le> length (log_bytes fs)"
proof (induction fs rule: rev_induct)
  case (snoc f fs)
  obtain trx rec where "f = (trx, rec)" by (cases f)
  with snoc show ?case by (fastforce simp: first_commits_snoc log_bytes_simps split: if_splits)
qed simp

lemma first_commits_sorted:
  "\<forall>f \<in> set fs. small_record (snd f) \<Longrightarrow> sorted_wrt (<) (map fst (first_commits 0 {} fs)) \<and> distinct (map snd (first_commits 0 {} fs))"
proof (induction fs rule: rev_induct)
  case (snoc f fs)
  obtain trx rec where f: "f = (trx, rec)" by (cases f)
  then have "0 < length (encode_frame trx rec)" using snoc.prems length_encode_frame [of rec trx] by force
  moreover have "\<forall>q \<in> set (first_commits 0 {} fs). fst q \<le> length (log_bytes fs)" using first_commits_pos by blast
  ultimately have later: "\<forall>q \<in> set (first_commits 0 {} fs). fst q < length (log_bytes fs) + length (encode_frame trx rec)"
    by (meson add_less_cancel_left le_less_trans less_add_same_cancel1)
  have IH: "sorted_wrt (<) (map fst (first_commits 0 {} fs))" "distinct (map snd (first_commits 0 {} fs))" using snoc by simp_all
  show ?case
  proof (cases "rec = WCommit \<and> trx \<notin> snd ` set (first_commits 0 {} fs)")
    case True
    with IH later show ?thesis unfolding f first_commits_snoc by (simp add: sorted_wrt_append)
  next
    case False
    with IH show ?thesis unfolding f first_commits_snoc by auto
  qed
qed simp

subsection \<open>The state of the scan\<close>

lemma redo_snoc: "redo t (fs @ [(trx, rec)]) = redo t fs @ (if t = trx \<and> rec \<noteq> WCommit then [rec] else [])"
  by (simp add: redo_def)

lemma scan_all_snoc: "scan_all s (fs @ [(trx, rec)]) = scan_step (scan_all s fs) trx rec (length (encode_frame trx rec))"
  by (simp add: scan_all_def)

lemma scan_all_spec:
  "ascending (sc_records (scan_all scan_start fs)) \<and>
   (\<forall>t. map_of (sc_records (scan_all scan_start fs)) t = (if redo t fs = [] then None else Some (redo t fs))) \<and>
   ascending (sc_commit_pos (scan_all scan_start fs)) \<and>
   (\<forall>t p. map_of (sc_commit_pos (scan_all scan_start fs)) t = Some p \<longleftrightarrow> (p, t) \<in> set (first_commits 0 {} fs)) \<and>
   sc_pos (scan_all scan_start fs) = length (log_bytes fs) \<and> sc_max (scan_all scan_start fs) = Max (insert 0 (fst ` set fs))"
proof (induction fs rule: rev_induct)
  case Nil
  show ?case by (simp add: scan_all_def scan_start_def redo_def log_bytes_def)
next
  case (snoc f fs)
  obtain trx rec where f: "f = (trx, rec)" by (cases f)
  let ?s = "scan_all scan_start fs"
  let ?p = "length (log_bytes fs) + length (encode_frame trx rec)"
  note IH = snoc [THEN conjunct1] snoc [THEN conjunct2, THEN conjunct1, rule_format] snoc [THEN conjunct2, THEN conjunct2, THEN conjunct1]
    snoc [THEN conjunct2, THEN conjunct2, THEN conjunct2, THEN conjunct1, rule_format]
    snoc [THEN conjunct2, THEN conjunct2, THEN conjunct2, THEN conjunct2]
  have none: "map_of (sc_commit_pos ?s) t = None \<longleftrightarrow> t \<notin> snd ` set (first_commits 0 {} fs)" for t
  proof (cases "map_of (sc_commit_pos ?s) t")
    case (Some p)
    with IH(4) have "(p, t) \<in> set (first_commits 0 {} fs)" by blast
    with Some show ?thesis by force
  qed (use IH(4) [of t] in force)
  have "Max (insert 0 (insert trx (fst ` set fs))) = max trx (Max (insert 0 (fst ` set fs)))"
    by (subst insert_commute) (rule Max_insert, simp_all)
  then have max: "sc_max (scan_step ?s trx rec k) = Max (insert 0 (fst ` set (fs @ [f])))" for k
    using IH(5) by (simp add: scan_step_def Let_def max.commute [of trx] f del: Max_insert)
  show ?case
  proof (cases "rec = WCommit")
    case True
    have "map_of (bt_or_insert trx ?p (sc_commit_pos ?s)) t = Some p \<longleftrightarrow> (p, t) \<in> set (first_commits 0 {} (fs @ [(trx, rec)]))" for t p
    proof (cases "map_of (sc_commit_pos ?s) t")
      case None
      with none [of t] show ?thesis using IH(3) IH(4) [of t p] none [of trx] True by (auto simp: bt_simps first_commits_snoc)
    next
      case (Some q)
      with none [of t] show ?thesis using IH(3) IH(4) [of t p] True by (auto simp: bt_simps first_commits_snoc)
    qed
    then show ?thesis using IH(1,2,3,5) True max [of "length (encode_frame trx rec)"]
      unfolding f by (simp add: scan_all_snoc scan_step_def Let_def redo_snoc log_bytes_simps)
  next
    case False
    have "map_of (push_record trx rec (sc_records ?s)) t = Some (redo t (fs @ [(trx, rec)]))" if "redo t (fs @ [(trx, rec)]) \<noteq> []" for t
      using IH(1) IH(2) [of t] IH(2) [of trx] False that by (auto simp: push_record_def bt_simps redo_snoc split: if_splits)
    moreover have "map_of (push_record trx rec (sc_records ?s)) t = None" if "redo t (fs @ [(trx, rec)]) = []" for t
      using IH(1) IH(2) [of t] IH(2) [of trx] False that by (auto simp: push_record_def bt_simps redo_snoc split: if_splits)
    ultimately show ?thesis using IH(1,3,4,5) False max [of "length (encode_frame trx rec)"]
      unfolding f by (simp add: scan_all_snoc scan_step_def Let_def first_commits_snoc log_bytes_simps push_record_def)
  qed
qed

lemma sort_key_unique:
  assumes "sorted (map f ys)" "distinct (map f ys)" "set xs = set ys" "distinct (map f xs)"
  shows "sort_key f xs = ys"
proof (rule map_sorted_distinct_set_unique [where f = f])
  show "inj_on f (set (sort_key f xs) \<union> set ys)" using assms by (simp add: distinct_map)
qed (use assms in \<open>simp_all add: distinct_map\<close>)

lemma commit_positions:
  "distinct (map fst (sc_commit_pos (scan_all scan_start fs)))"
  "((t, p) \<in> set (sc_commit_pos (scan_all scan_start fs))) = ((p, t) \<in> set (first_commits 0 {} fs))"
proof -
  show d: "distinct (map fst (sc_commit_pos (scan_all scan_start fs)))" using scan_all_spec [of fs] by (auto intro: ascending_distinct)
  show "((t, p) \<in> set (sc_commit_pos (scan_all scan_start fs))) = ((p, t) \<in> set (first_commits 0 {} fs))"
    unfolding map_of_eq_Some_iff [OF d, symmetric] using scan_all_spec [of fs] by simp
qed

lemma plan_committed:
  assumes "\<forall>f \<in> set fs. small_record (snd f)"
  shows "sort_key fst (List.map_filter (\<lambda>(trx, pos). map_option (\<lambda>recs. (pos, trx, recs)) (map_of (sc_records (scan_all scan_start fs)) trx))
      (sc_commit_pos (scan_all scan_start fs))) =
    map (\<lambda>(pos, trx). (pos, trx, redo trx fs)) (filter (\<lambda>(pos, trx). redo trx fs \<noteq> []) (first_commits 0 {} fs))" (is "sort_key fst ?xs = ?ys")
proof -
  note spec = scan_all_spec [of fs]
  let ?cs = "sc_commit_pos (scan_all scan_start fs)"
  note d = commit_positions(1) [of fs] and cs = commit_positions(2) [of _ _ fs]
  have xs: "?xs = map (\<lambda>(trx, pos). (pos, trx, redo trx fs)) (filter (\<lambda>(trx, pos). redo trx fs \<noteq> []) ?cs)"
  proof -
    have recs: "map_of (sc_records (scan_all scan_start fs)) t = (if redo t fs = [] then None else Some (redo t fs))" for t using spec by blast
    have "List.map_filter (\<lambda>(trx, pos). map_option (\<lambda>recs. (pos, trx, recs)) (if redo trx fs = [] then None else Some (redo trx fs))) zs =
        map (\<lambda>(trx, pos). (pos, trx, redo trx fs)) (filter (\<lambda>(trx, pos). redo trx fs \<noteq> []) zs)" for zs
      by (induction zs) (auto simp: List.map_filter_simps)
    then show ?thesis unfolding recs .
  qed
  have ordered: "sorted_wrt (<) (map fst (first_commits 0 {} fs))" "distinct (map snd (first_commits 0 {} fs))"
    using first_commits_sorted [OF assms] by simp_all
  then have inj: "p = q \<longleftrightarrow> t = u" if "(p, t) \<in> set (first_commits 0 {} fs)" "(q, u) \<in> set (first_commits 0 {} fs)" for p q t u
    using that by (metis distinct_map eq_snd_iff fst_conv inj_onD strict_sorted_iff)
  have sets: "set ?xs = set ?ys" unfolding xs using cs by force
  have sy: "sorted (map fst ?ys)" "distinct (map fst ?ys)"
  proof -
    have eq: "map fst ?ys = map fst (filter (\<lambda>(pos, trx). redo trx fs \<noteq> []) (first_commits 0 {} fs))" by (simp add: case_prod_unfold comp_def)
    have st: "sorted_wrt (<) (map fst (filter (\<lambda>(pos, trx). redo trx fs \<noteq> []) (first_commits 0 {} fs)))"
      using ordered(1) by (rule ascending_filter)
    show "sorted (map fst ?ys)" "distinct (map fst ?ys)" unfolding eq using st strict_sorted_iff by blast+
  qed
  have dx: "distinct (map fst ?xs)"
  proof -
    have "distinct (filter (\<lambda>(trx, pos). redo trx fs \<noteq> []) ?cs)" using d by (simp add: distinct_map)
    moreover have "t = u" if "(p, t) \<in> set (first_commits 0 {} fs)" "(p, u) \<in> set (first_commits 0 {} fs)" for p t u
      using inj [OF that] by simp
    ultimately show ?thesis unfolding xs using cs d by (auto simp: distinct_map inj_on_def)
  qed
  show ?thesis using sy sets dx by (rule sort_key_unique)
qed

lemma whole_frames_prefix: "\<exists>rest. fs = whole_frames n fs @ rest"
  by (induction n fs rule: whole_frames.induct) (auto simp: Let_def)

lemma whole_frames_contains:
  "length (log_bytes (pre @ [x])) \<le> n \<Longrightarrow> \<exists>more. whole_frames n (pre @ x # post) = pre @ x # more"
proof (induction pre arbitrary: n)
  case Nil
  then show ?case by (cases x) (simp add: log_bytes_simps Let_def)
next
  case (Cons y pre)
  obtain t r where y: "y = (t, r)" by (cases y)
  with Cons.prems have "length (log_bytes (pre @ [x])) \<le> n - length (encode_frame t r)" "length (encode_frame t r) \<le> n"
    by (simp_all add: log_bytes_simps)
  with Cons.IH [of "n - length (encode_frame t r)"] y show ?case by (auto simp: Let_def)
qed

lemma redo_append: "redo t (fs @ gs) = redo t fs @ redo t gs"
  by (simp add: redo_def)

text \<open>
  C38: The log survives a crash at any byte. Let the log hold any interleaving of frames and let a crash leave its first \<open>n\<close>
  bytes. Recovery redoes exactly the transactions whose commit record lies completely in that prefix, each with all its
  records that do, in log order, and the transactions in the order of their commits; it never redoes anything of another
  transaction, and it reports every id it has seen as used. A transaction whose commit record is in the prefix has
  everything it logged before the commit redone.
\<close>

theorem wal_recovery:
  assumes "\<forall>f \<in> set fs. small_record (snd f)"
  shows "(let plan = plan_recovery (take n (log_bytes fs)); whole = whole_frames n fs in
    rp_committed plan = map (\<lambda>(pos, trx). (pos, trx, redo trx whole)) (filter (\<lambda>(pos, trx). redo trx whole \<noteq> []) (first_commits 0 {} whole)) \<and>
    set (rp_committed_ids plan) = {t. (t, WCommit) \<in> set whole} \<and> sorted_wrt (<) (rp_committed_ids plan) \<and>
    rp_max_trx_id plan = Max (insert 0 (fst ` set whole)) \<and>
    (\<forall>pre t post. fs = pre @ (t, WCommit) # post \<and> length (log_bytes (pre @ [(t, WCommit)])) \<le> n \<longrightarrow>
       t \<in> set (rp_committed_ids plan) \<and> (\<exists>more. redo t whole = redo t pre @ more)))"
proof -
  let ?w = "whole_frames n fs"
  obtain rest where "fs = ?w @ rest" using whole_frames_prefix by blast
  then have "set ?w \<subseteq> set fs" by (metis Un_upper1 set_append)
  then have small: "\<forall>f \<in> set ?w. small_record (snd f)" using assms by blast
  have scan: "scan_frames scan_start (take n (log_bytes fs)) = scan_all scan_start ?w" using scan_log [OF assms] .
  note spec = scan_all_spec [of ?w]
  let ?ids = "map fst (sc_commit_pos (scan_all scan_start ?w))"
  have ids: "set ?ids = {t. (t, WCommit) \<in> set ?w}"
  proof -
    have "set ?ids = snd ` set (first_commits 0 {} ?w)" using commit_positions(2) [of _ _ ?w] by force
    then show ?thesis by (simp add: first_commits_trx)
  qed
  have durable: "t \<in> set ?ids \<and> (\<exists>more. redo t ?w = redo t pre @ more)"
    if "fs = pre @ (t, WCommit) # post" "length (log_bytes (pre @ [(t, WCommit)])) \<le> n" for pre t post
    using whole_frames_contains [OF that(2), of post] that(1) ids by (auto simp: redo_append)
  have plan: "plan_recovery (take n (log_bytes fs)) =
      \<lparr> rp_committed = map (\<lambda>(pos, trx). (pos, trx, redo trx ?w)) (filter (\<lambda>(pos, trx). redo trx ?w \<noteq> []) (first_commits 0 {} ?w)),
        rp_committed_ids = ?ids, rp_max_trx_id = Max (insert 0 (fst ` set ?w)) \<rparr>"
    unfolding plan_recovery_def Let_def scan plan_committed [OF small] using spec by simp
  have asc: "ascending (sc_commit_pos (scan_all scan_start ?w))" using spec by blast
  show ?thesis unfolding Let_def plan recovery_plan.simps using ids asc durable by blast
qed

theorem wal_recovery_witness:
  "map snd (rp_committed (plan_recovery (take 51 (log_bytes [(1, WInsert 0 (Rid 1 0) []), (2, WCommit), (1, WCommit), (3, WCommit)])))) =
     [(1, [WInsert 0 (Rid 1 0) []])] \<and>
   rp_committed_ids (plan_recovery (take 51 (log_bytes [(1, WInsert 0 (Rid 1 0) []), (2, WCommit), (1, WCommit), (3, WCommit)]))) = [1, 2]"
proof -
  let ?fs = "[(1, WInsert 0 (Rid 1 0) []), (2, WCommit), (1, WCommit), (3, WCommit)] :: (u64 \<times> wal_record) list"
  let ?plan = "plan_recovery (take 51 (log_bytes ?fs))"
  have small: "\<forall>f \<in> set ?fs. small_record (snd f)" by (simp add: small_record_def)
  have len: "length (encode_frame t WCommit) = 13" "length (encode_frame t (WInsert 0 (Rid 1 0) [])) = 23" for t
    by (simp_all add: encode_frame_eq small_record_def)
  have whole: "whole_frames 51 ?fs = [(1, WInsert 0 (Rid 1 0) []), (2, WCommit), (1, WCommit)]" by (simp add: Let_def len)
  note plan = wal_recovery [OF small, of 51, unfolded whole Let_def]
  have "map snd (rp_committed ?plan) = [(1, [WInsert 0 (Rid 1 0) []])]"
    using plan by (simp add: redo_def Let_def)
  moreover have "set (rp_committed_ids ?plan) = {1, 2}" "sorted_wrt (<) (rp_committed_ids ?plan)" using plan by auto
  then have "rp_committed_ids ?plan = sorted_list_of_set {1, 2}" using sorted_list_of_set_unique [of "{1, 2}" "rp_committed_ids ?plan"]
    by (metis strict_sorted_iff sorted_list_of_set.idem_if_sorted_distinct)
  ultimately show ?thesis by simp
qed

end
