(* ===== verification/Disk.thy ===== *)
theory Disk
  imports Table_Storage Value
begin

section \<open>Data files and the double-write buffer\<close>

text \<open>
  \<open>src/src/storage/disk.rs\<close> and \<open>src/src/storage/dwb.rs\<close>: paged files over a file system, and the staging file that repairs
  pages torn by a crash. The file system maps paths to contents; a call of the operating system succeeds unless the file it
  names is missing or, on creation, present, or a page is read across the end of the file. Paths are UTF-8 texts. Errors carry the fixed part of their text.
\<close>

type_synonym path = "byte list"
type_synonym file_system = "path \<Rightarrow> byte list option"

record disk =
  dk_files :: "u32 \<Rightarrow> path option"
  dk_next :: u32
  dk_dwb :: "path option"
  dk_fs :: file_system

definition disk_new :: "file_system \<Rightarrow> disk" where
  "disk_new fs = \<lparr> dk_files = Map.empty, dk_next = 0, dk_dwb = None, dk_fs = fs \<rparr>"

definition page_offset :: "u32 \<Rightarrow> nat" where
  "page_offset no = unat no * PAGE_SIZE"

text \<open>Writing at an offset, with zeros in a gap before it.\<close>

definition write_at :: "byte list \<Rightarrow> nat \<Rightarrow> byte list \<Rightarrow> byte list" where
  "write_at content off data =
     (let filled = content @ replicate (off - length content) 0 in take off filled @ data @ drop (off + length data) filled)"

definition register :: "disk \<Rightarrow> path \<Rightarrow> u32 \<times> disk" where
  "register d p = (dk_next d, d\<lparr> dk_next := dk_next d + 1, dk_files := (dk_files d)(dk_next d \<mapsto> p) \<rparr>)"

definition create_file :: "disk \<Rightarrow> path \<Rightarrow> (u32 \<times> disk) result" where
  "create_file d p =
     (case dk_fs d p of
        Some _ \<Rightarrow> Err (Runtime ''cannot create file'')
      | None \<Rightarrow> Ok (register (d\<lparr> dk_fs := (dk_fs d)(p \<mapsto> []) \<rparr>) p))"

definition open_file :: "disk \<Rightarrow> path \<Rightarrow> (u32 \<times> disk) result" where
  "open_file d p = (case dk_fs d p of None \<Rightarrow> Err (Runtime ''cannot open file'') | Some _ \<Rightarrow> Ok (register d p))"

definition close_file :: "disk \<Rightarrow> u32 \<Rightarrow> (path \<times> disk) result" where
  "close_file d file =
     (case dk_files d file of
        None \<Rightarrow> Err (Runtime ''unknown file id'')
      | Some p \<Rightarrow> Ok (p, d\<lparr> dk_files := (dk_files d)(file := None) \<rparr>))"

definition file_slot :: "disk \<Rightarrow> u32 \<Rightarrow> path result" where
  "file_slot d file = (case dk_files d file of None \<Rightarrow> Err (Runtime ''unknown file id'') | Some p \<Rightarrow> Ok p)"

definition with_file :: "disk \<Rightarrow> u32 \<Rightarrow> (path \<Rightarrow> byte list \<Rightarrow> 'a result) \<Rightarrow> 'a result" where
  "with_file d file f =
     bindR (file_slot d file) (\<lambda>p. case dk_fs d p of None \<Rightarrow> Err (Runtime ''io error'') | Some content \<Rightarrow> f p content)"

definition put_file :: "disk \<Rightarrow> path \<Rightarrow> byte list \<Rightarrow> disk" where
  "put_file d p content = d\<lparr> dk_fs := (dk_fs d)(p \<mapsto> content) \<rparr>"

definition disk_read_page :: "disk \<Rightarrow> u32 \<Rightarrow> u32 \<Rightarrow> page result" where
  "disk_read_page d file no =
     with_file d file (\<lambda>_ content.
       let offset = page_offset no in
       if length content \<le> offset then Ok zeroed_page
       else if offset + PAGE_SIZE \<le> length content then Ok (subl content offset (offset + PAGE_SIZE))
       else Err (Runtime ''io error''))"

definition disk_write_page :: "disk \<Rightarrow> u32 \<Rightarrow> u32 \<Rightarrow> page \<Rightarrow> disk result" where
  "disk_write_page d file no buf =
     with_file d file (\<lambda>p content. Ok (put_file d p (write_at content (page_offset no) buf)))"

definition disk_alloc_page :: "disk \<Rightarrow> u32 \<Rightarrow> (u32 \<times> disk) result" where
  "disk_alloc_page d file =
     with_file d file (\<lambda>p content.
       Ok (word_of_nat (length content div PAGE_SIZE), put_file d p (write_at content (length content) zeroed_page)))"

definition disk_page_count :: "disk \<Rightarrow> u32 \<Rightarrow> u32 result" where
  "disk_page_count d file = with_file d file (\<lambda>_ content. Ok (word_of_nat (length content div PAGE_SIZE)))"

definition disk_truncate_file :: "disk \<Rightarrow> u32 \<Rightarrow> disk result" where
  "disk_truncate_file d file = with_file d file (\<lambda>p _. Ok (put_file d p []))"

definition sync_file :: "disk \<Rightarrow> u32 \<Rightarrow> unit result" where
  "sync_file d file = with_file d file (\<lambda>_ _. Ok ())"

subsection \<open>The double-write buffer\<close>

definition enable_double_write :: "disk \<Rightarrow> path \<Rightarrow> disk" where
  "enable_double_write d p =
     d\<lparr> dk_dwb := Some p, dk_fs := (case dk_fs d p of None \<Rightarrow> (dk_fs d)(p \<mapsto> []) | Some _ \<Rightarrow> dk_fs d) \<rparr>"

definition dwb_entry :: "path \<Rightarrow> u32 \<Rightarrow> page \<Rightarrow> byte list" where
  "dwb_entry target no buf = le_enc 4 (length target) @ target @ le_enc 4 (unat no) @ buf"

definition dwb_stage :: "file_system \<Rightarrow> path \<Rightarrow> path \<Rightarrow> u32 \<Rightarrow> page \<Rightarrow> file_system" where
  "dwb_stage fs dwb target no buf = fs(dwb \<mapsto> (case fs dwb of None \<Rightarrow> [] | Some staged \<Rightarrow> staged) @ dwb_entry target no buf)"

definition stage_page :: "disk \<Rightarrow> u32 \<Rightarrow> u32 \<Rightarrow> page \<Rightarrow> disk result" where
  "stage_page d file no buf =
     bindR (file_slot d file) (\<lambda>p.
       Ok (case dk_dwb d of None \<Rightarrow> d | Some dwb \<Rightarrow> d\<lparr> dk_fs := dwb_stage (dk_fs d) dwb p no buf \<rparr>))"

definition reset_double_write :: "disk \<Rightarrow> disk" where
  "reset_double_write d = (case dk_dwb d of None \<Rightarrow> d | Some dwb \<Rightarrow> d\<lparr> dk_fs := (dk_fs d)(dwb \<mapsto> []) \<rparr>)"

definition write_page_at :: "file_system \<Rightarrow> path \<Rightarrow> u32 \<Rightarrow> page \<Rightarrow> file_system" where
  "write_page_at fs target no buf =
     (case fs target of None \<Rightarrow> fs | Some content \<Rightarrow> fs(target \<mapsto> write_at content (page_offset no) buf))"

function recover_pages :: "file_system \<Rightarrow> byte list \<Rightarrow> file_system result" where
  "recover_pages fs data =
     (if length data < 4 then Ok fs
      else let path_len = unat (dec_u32 data 0); rec_len = 4 + path_len + 4 + PAGE_SIZE in
        if length data < rec_len then Ok fs
        else let target = subl data 4 (4 + path_len) in
          if \<not> utf8_valid target then Err (Runtime ''corrupt double-write path'')
          else recover_pages (write_page_at fs target (dec_u32 data (4 + path_len)) (subl data (8 + path_len) rec_len)) (drop rec_len data))"
  by pat_completeness auto
termination
  by (relation "measure (\<lambda>(fs, data). length data)") auto

declare recover_pages.simps [simp del]

definition dwb_recover :: "file_system \<Rightarrow> path \<Rightarrow> file_system result" where
  "dwb_recover fs dwb =
     (case fs dwb of
        None \<Rightarrow> Ok fs
      | Some data \<Rightarrow> bindR (recover_pages fs data) (\<lambda>fs'. Ok (fs'(dwb \<mapsto> []))))"

subsection \<open>Pages of a file\<close>

definition page_of :: "byte list \<Rightarrow> u32 \<Rightarrow> page" where
  "page_of content no =
     (if page_offset no + PAGE_SIZE \<le> length content then subl content (page_offset no) (page_offset no + PAGE_SIZE) else zeroed_page)"

lemma write_at_inside: "off + length data \<le> length content \<Longrightarrow> write_at content off data = patch content off data"
  by (simp add: write_at_def patch_def)

lemma length_write_at: "length (write_at content off data) = max (length content) (off + length data)"
  by (simp add: write_at_def Let_def)

lemma nth_write_at:
  assumes "i < max (length content) (off + length data)"
  shows "write_at content off data ! i = (if off \<le> i \<and> i < off + length data then data ! (i - off) else if i < length content then content ! i else 0)"
proof -
  let ?f = "content @ replicate (off - length content) 0"
  have f: "?f ! j = (if j < length content then content ! j else 0)" if "j < length ?f" for j
    using that by (auto simp: nth_append)
  have eq: "write_at content off data = take off ?f @ data @ drop (off + length data) ?f" by (simp add: write_at_def)
  have len: "length ?f = max (length content) off" by simp
  then have l: "length (take off ?f) = off" by simp
  consider "i < off" | "off \<le> i" "i < off + length data" | "off + length data \<le> i" by linarith
  then show ?thesis
  proof cases
    case 1
    then have "write_at content off data ! i = ?f ! i" unfolding eq nth_append [of "take off ?f"] l by (simp del: take_append)
    with 1 f [of i] len show ?thesis by simp
  next
    case 2
    then have "write_at content off data ! i = data ! (i - off)" unfolding eq nth_append [of "take off ?f"] l by (auto simp: nth_append)
    with 2 show ?thesis by simp
  next
    case 3
    then have "write_at content off data ! i = drop (off + length data) ?f ! (i - off - length data)"
      unfolding eq nth_append [of "take off ?f"] l by (auto simp: nth_append [of data])
    also have "\<dots> = ?f ! i" using 3 assms len by (subst nth_drop) (simp_all del: drop_append)
    finally have "write_at content off data ! i = ?f ! i" .
    moreover have "i < length content" using 3 assms by auto
    ultimately show ?thesis using 3 f [of i] len by simp
  qed
qed

lemma PAGE_SIZE_pos: "0 < PAGE_SIZE"
  by (simp add: PAGE_SIZE_def)

lemma page_offset_less: "a \<noteq> b \<Longrightarrow> page_offset a + PAGE_SIZE \<le> page_offset b \<or> page_offset b + PAGE_SIZE \<le> page_offset a"
proof -
  assume "a \<noteq> b"
  then have "unat a < unat b \<or> unat b < unat a" by (metis linorder_neqE_nat word_unat_eq_iff)
  then have "Suc (unat a) * PAGE_SIZE \<le> unat b * PAGE_SIZE \<or> Suc (unat b) * PAGE_SIZE \<le> unat a * PAGE_SIZE"
    using mult_le_mono1 [of "Suc (unat a)" "unat b"] mult_le_mono1 [of "Suc (unat b)" "unat a"] by auto
  then show ?thesis by (auto simp: page_offset_def)
qed

subsection \<open>Recovery\<close>

type_synonym staged_page = "path \<times> u32 \<times> page"

definition staged_bytes :: "staged_page list \<Rightarrow> byte list" where
  "staged_bytes ps = concat (map (\<lambda>(target, no, buf). dwb_entry target no buf) ps)"

definition write_pages :: "file_system \<Rightarrow> staged_page list \<Rightarrow> file_system" where
  "write_pages fs ps = foldl (\<lambda>fs (target, no, buf). write_page_at fs target no buf) fs ps"

definition entry_ok :: "staged_page \<Rightarrow> bool" where
  "entry_ok = (\<lambda>(target, no, buf). utf8_valid target \<and> length target < 2 ^ 32 \<and> length buf = PAGE_SIZE)"

lemma length_dwb_entry: "length buf = PAGE_SIZE \<Longrightarrow> length (dwb_entry target no buf) = 8 + length target + PAGE_SIZE"
  by (simp add: dwb_entry_def)

lemma entry_path_len: "n < 2 ^ 32 \<Longrightarrow> unat (dec_u32 (le_enc 4 n @ xs) 0) = n"
  using dec_words(2) [of "[]" 0 "word_of_nat n" xs] by (simp add: unat_u32_of_nat del: unat_of_nat)

lemma recover_entry:
  assumes "entry_ok (target, no, buf)"
  shows "recover_pages fs (dwb_entry target no buf @ rest) = recover_pages (write_page_at fs target no buf) rest"
proof -
  have ok: "utf8_valid target" "length target < 2 ^ 32" "length buf = PAGE_SIZE" using assms by (simp_all add: entry_ok_def)
  let ?d = "le_enc 4 (length target) @ target @ le_enc 4 (unat no) @ buf @ rest"
  have n: "unat (dec_u32 ?d 0) = length target" using entry_path_len [OF ok(2)] .
  have t: "subl ?d 4 (4 + length target) = target" by (rule subl_mid) simp_all
  have no: "dec_u32 ?d (4 + length target) = no"
    using dec_words(2) [of "le_enc 4 (length target) @ target" "4 + length target" no "buf @ rest"] by simp
  have b: "subl ?d (8 + length target) (8 + length target + PAGE_SIZE) = buf"
    using subl_mid [of "8 + length target" "le_enc 4 (length target) @ target @ le_enc 4 (unat no)" "8 + length target + PAGE_SIZE" buf rest] ok(3) by simp
  have r: "drop (8 + length target + PAGE_SIZE) ?d = rest" using ok(3) by simp
  have "recover_pages fs ?d = recover_pages (write_page_at fs target no buf) rest"
    by (subst recover_pages.simps) (simp add: n t no b r ok Let_def del: drop_append append_assoc)
  then show ?thesis by (simp add: dwb_entry_def)
qed

lemma recover_torn_entry:
  assumes "entry_ok (target, no, buf)" "k < length (dwb_entry target no buf)"
  shows "recover_pages fs (take k (dwb_entry target no buf)) = Ok fs"
proof (cases "k < 4")
  case False
  have ok: "length target < 2 ^ 32" "length buf = PAGE_SIZE" using assms by (simp_all add: entry_ok_def)
  from False obtain j where k: "k = 4 + j" using le_Suc_ex [of 4 k] by auto
  have "take k (dwb_entry target no buf) = le_enc 4 (length target) @ take j (target @ le_enc 4 (unat no) @ buf)"
    by (simp add: dwb_entry_def k)
  then have n: "unat (dec_u32 (take k (dwb_entry target no buf)) 0) = length target" using entry_path_len [OF ok(1)] by metis
  have "length (take k (dwb_entry target no buf)) < 4 + length target + 4 + PAGE_SIZE"
    using assms(2) ok(2) by (simp add: length_dwb_entry)
  with n False show ?thesis by (subst recover_pages.simps) (simp add: Let_def)
qed (subst recover_pages.simps, simp add: min_def)

lemma recover_prefix:
  "\<forall>e \<in> set ps. entry_ok e \<Longrightarrow>
    \<exists>k. recover_pages fs (take n (staged_bytes ps)) = Ok (write_pages fs (take k ps)) \<and> (length (staged_bytes ps) \<le> n \<longrightarrow> take k ps = ps)"
proof (induction ps arbitrary: fs n)
  case Nil
  show ?case by (subst recover_pages.simps) (simp add: staged_bytes_def write_pages_def)
next
  case (Cons e ps)
  obtain t no b where e: "e = (t, no, b)" by (cases e)
  have ok: "entry_ok (t, no, b)" using Cons.prems e by simp
  have bytes: "staged_bytes (e # ps) = dwb_entry t no b @ staged_bytes ps" by (simp add: staged_bytes_def e)
  show ?case
  proof (cases "length (dwb_entry t no b) \<le> n")
    case True
    let ?n = "n - length (dwb_entry t no b)"
    from Cons.IH [of "write_page_at fs t no b" ?n] Cons.prems obtain k where
      k: "recover_pages (write_page_at fs t no b) (take ?n (staged_bytes ps)) = Ok (write_pages (write_page_at fs t no b) (take k ps))"
      "length (staged_bytes ps) \<le> ?n \<longrightarrow> take k ps = ps" by auto
    have "take n (staged_bytes (e # ps)) = dwb_entry t no b @ take ?n (staged_bytes ps)" using True by (simp add: bytes)
    with k show ?thesis unfolding bytes by (intro exI [of _ "Suc k"]) (auto simp: recover_entry [OF ok] write_pages_def e)
  next
    case False
    then have "take n (staged_bytes (e # ps)) = take n (dwb_entry t no b)" by (simp add: bytes)
    with False recover_torn_entry [OF ok, of n fs] show ?thesis by (intro exI [of _ 0]) (simp add: write_pages_def bytes)
  qed
qed

text \<open>Two file systems that differ at most inside the given pages, as a crash in the middle of writing them leaves them.\<close>

definition covered :: "staged_page list \<Rightarrow> path \<Rightarrow> nat \<Rightarrow> bool" where
  "covered ps p i \<longleftrightarrow> (\<exists>(target, no, buf) \<in> set ps. target = p \<and> page_offset no \<le> i \<and> i < page_offset no + PAGE_SIZE)"

definition torn :: "staged_page list \<Rightarrow> file_system \<Rightarrow> file_system \<Rightarrow> bool" where
  "torn ps fs fs' \<longleftrightarrow>
     (\<forall>p. rel_option (\<lambda>c c'. length c' = length c \<and> (\<forall>i < length c. \<not> covered ps p i \<longrightarrow> c' ! i = c ! i)) (fs p) (fs' p))"

lemma torn_nil: "torn [] fs fs' \<Longrightarrow> fs = fs'"
proof
  fix p
  assume "torn [] fs fs'"
  then have "rel_option (\<lambda>c c'. length c' = length c \<and> (\<forall>i < length c. c' ! i = c ! i)) (fs p) (fs' p)"
    by (simp add: torn_def covered_def)
  then show "fs p = fs' p" by (cases "fs p"; cases "fs' p") (auto intro: nth_equalityI)
qed

lemma torn_write:
  assumes "torn (e # ps) fs fs'" "e = (target, no, buf)" "length buf = PAGE_SIZE"
  shows "torn ps (write_page_at fs target no buf) (write_page_at fs' target no buf)"
  unfolding torn_def
proof
  fix p
  have rel: "rel_option (\<lambda>c c'. length c' = length c \<and> (\<forall>i < length c. \<not> covered (e # ps) p i \<longrightarrow> c' ! i = c ! i)) (fs p) (fs' p)"
    and relt: "rel_option (\<lambda>c c'. length c' = length c) (fs target) (fs' target)"
    using assms(1) by (auto simp: torn_def elim!: option.rel_mono_strong)
  show "rel_option (\<lambda>c c'. length c' = length c \<and> (\<forall>i < length c. \<not> covered ps p i \<longrightarrow> c' ! i = c ! i))
      (write_page_at fs target no buf p) (write_page_at fs' target no buf p)"
  proof (cases "p = target")
    case False
    then have "covered (e # ps) p i = covered ps p i" for i using assms(2) by (auto simp: covered_def)
    with rel relt False show ?thesis by (cases "fs target"; cases "fs' target") (simp_all add: write_page_at_def)
  next
    case True
    show ?thesis
    proof (cases "fs target")
      case None
      with relt True show ?thesis by (cases "fs' target") (simp_all add: write_page_at_def)
    next
      case (Some c)
      with rel True obtain c' where c': "fs' target = Some c'" "length c' = length c" "\<And>i. i < length c \<Longrightarrow> \<not> covered (e # ps) target i \<Longrightarrow> c' ! i = c ! i"
        by (cases "fs' target") auto
      have "write_at c' (page_offset no) buf ! i = write_at c (page_offset no) buf ! i"
        if "i < length (write_at c (page_offset no) buf)" "\<not> covered ps target i" for i
        using that c'(2) c'(3) [of i] assms(2,3) by (auto simp: nth_write_at length_write_at covered_def)
      with Some c' True show ?thesis by (simp add: write_page_at_def length_write_at)
    qed
  qed
qed

lemma torn_write_pages: "torn ps fs fs' \<Longrightarrow> \<forall>e \<in> set ps. entry_ok e \<Longrightarrow> write_pages fs' ps = write_pages fs ps"
proof (induction ps arbitrary: fs fs')
  case Nil
  then show ?case using torn_nil [of fs fs'] by (simp add: write_pages_def)
next
  case (Cons e ps)
  obtain t no b where e: "e = (t, no, b)" by (cases e)
  from torn_write [OF Cons.prems(1) e] Cons.prems(2) e have "torn ps (write_page_at fs t no b) (write_page_at fs' t no b)" by (simp add: entry_ok_def)
  with Cons.IH Cons.prems(2) show ?case by (simp add: write_pages_def e)
qed

text \<open>The page a file system holds.\<close>

definition fs_page :: "file_system \<Rightarrow> path \<Rightarrow> u32 \<Rightarrow> page" where
  "fs_page fs p no = (case fs p of None \<Rightarrow> zeroed_page | Some content \<Rightarrow> page_of content no)"

definition inside :: "file_system \<Rightarrow> path \<Rightarrow> u32 \<Rightarrow> bool" where
  "inside fs p no \<longleftrightarrow> (\<exists>content. fs p = Some content \<and> page_offset no + PAGE_SIZE \<le> length content)"

lemma write_page_at_keeps:
  assumes "inside fs target no" "length buf = PAGE_SIZE"
  shows "inside (write_page_at fs target no buf) p k = inside fs p k"
    "fs_page (write_page_at fs target no buf) p k = (if p = target \<and> k = no then buf else fs_page fs p k)"
proof -
  obtain c where c: "fs target = Some c" "page_offset no + PAGE_SIZE \<le> length c" using assms(1) by (auto simp: inside_def)
  have w: "write_at c (page_offset no) buf = patch c (page_offset no) buf" using c(2) assms(2) by (simp add: write_at_inside)
  have len: "length (patch c (page_offset no) buf) = length c" using c(2) assms(2) by (simp add: length_patch)
  show "inside (write_page_at fs target no buf) p k = inside fs p k"
    using c w len by (auto simp: inside_def write_page_at_def)
  have "page_of (patch c (page_offset no) buf) k = (if k = no then buf else page_of c k)"
  proof (cases "k = no")
    case True
    with c(2) assms(2) len show ?thesis by (simp add: page_of_def subl_patch_same)
  next
    case False
    with c(2) assms(2) len page_offset_less [OF False] show ?thesis by (auto simp: page_of_def subl_patch_disjoint)
  qed
  with c w show "fs_page (write_page_at fs target no buf) p k = (if p = target \<and> k = no then buf else fs_page fs p k)"
    by (auto simp: fs_page_def write_page_at_def)
qed

lemma write_pages_page:
  "\<forall>(p, no, buf) \<in> set ps. inside fs p no \<and> length buf = PAGE_SIZE \<Longrightarrow>
    fs_page (write_pages fs ps) p k = fs_page fs p k \<or> (\<exists>buf. (p, k, buf) \<in> set ps \<and> fs_page (write_pages fs ps) p k = buf)"
proof (induction ps arbitrary: fs)
  case (Cons e ps)
  obtain t no b where e: "e = (t, no, b)" by (cases e)
  let ?fs = "write_page_at fs t no b"
  have in_fs: "inside fs t no" "length b = PAGE_SIZE" using Cons.prems e by auto
  have "\<forall>(p, no, buf) \<in> set ps. inside ?fs p no \<and> length buf = PAGE_SIZE" using Cons.prems write_page_at_keeps(1) [OF in_fs] by auto
  from Cons.IH [OF this] write_page_at_keeps(2) [OF in_fs, of p k] show ?case by (auto simp: write_pages_def e split: if_splits)
qed (simp add: write_pages_def)

lemma write_page_at_other: "t \<noteq> q \<Longrightarrow> write_page_at (f(q \<mapsto> x)) t no b = (write_page_at f t no b)(q \<mapsto> x)"
  by (cases "f t") (auto simp: write_page_at_def)

lemma write_pages_Cons: "write_pages fs ((t, no, b) # ps) = write_pages (write_page_at fs t no b) ps"
  by (simp add: write_pages_def)

lemma write_pages_other:
  "\<forall>(p, no, buf) \<in> set qs. p \<noteq> q \<Longrightarrow> (write_pages (f(q \<mapsto> d)) qs)(q \<mapsto> x) = write_pages (f(q \<mapsto> x)) qs"
proof (induction qs arbitrary: f)
  case (Cons e qs)
  obtain t no b where e: "e = (t, no, b)" by (cases e)
  with Cons.prems have t: "t \<noteq> q" and rest: "\<forall>(p, no, buf) \<in> set qs. p \<noteq> q" by auto
  show ?case unfolding e write_pages_Cons write_page_at_other [OF t] by (rule Cons.IH [OF rest])
qed (simp add: write_pages_def)

definition stage_pages :: "file_system \<Rightarrow> path \<Rightarrow> staged_page list \<Rightarrow> file_system" where
  "stage_pages fs dwb ps = foldl (\<lambda>fs (target, no, buf). dwb_stage fs dwb target no buf) fs ps"

lemma stage_pages_bytes: "fs dwb = Some staged \<Longrightarrow> stage_pages fs dwb ps = fs(dwb \<mapsto> staged @ staged_bytes ps)"
proof (induction ps arbitrary: fs staged)
  case Nil
  then show ?case by (auto simp: stage_pages_def staged_bytes_def)
next
  case (Cons e ps)
  obtain t no b where e: "e = (t, no, b)" by (cases e)
  let ?fs = "fs(dwb \<mapsto> staged @ dwb_entry t no b)"
  have "stage_pages fs dwb (e # ps) = stage_pages ?fs dwb ps" using Cons.prems by (simp add: stage_pages_def e dwb_stage_def)
  also have "\<dots> = ?fs(dwb \<mapsto> (staged @ dwb_entry t no b) @ staged_bytes ps)" by (rule Cons.IH) simp
  finally show ?case by (simp add: staged_bytes_def e)
qed

subsection \<open>Files as a store of pages\<close>

text \<open>What the buffer pool needs of the files below it: a written page is read back, and no other page changes.\<close>

locale page_store =
  fixes ok :: "'d \<Rightarrow> bool"
    and valid :: "'d \<Rightarrow> 'k \<Rightarrow> bool"
    and content :: "'d \<Rightarrow> 'k \<Rightarrow> page"
    and put :: "'d \<Rightarrow> 'k \<Rightarrow> page \<Rightarrow> 'd result"
  assumes put_page: "ok d \<Longrightarrow> valid d k \<Longrightarrow> length buf = PAGE_SIZE \<Longrightarrow>
      \<exists>d'. put d k buf = Ok d' \<and> ok d' \<and> valid d' = valid d \<and> content d' = (content d)(k := buf)"
begin

lemma write_list:
  "ok d \<Longrightarrow> \<forall>k \<in> set ks. valid d k \<and> length (buf k) = PAGE_SIZE \<Longrightarrow>
    \<exists>d'. foldR (\<lambda>d k. put d k (buf k)) d ks = Ok d' \<and> ok d' \<and> valid d' = valid d \<and>
      content d' = (\<lambda>k. if k \<in> set ks then buf k else content d k)"
proof (induction ks arbitrary: d)
  case (Cons k ks)
  then obtain d1 where d1: "put d k (buf k) = Ok d1" "ok d1" "valid d1 = valid d" "content d1 = (content d)(k := buf k)"
    using put_page [of d k "buf k"] by auto
  have "(\<lambda>x. if x \<in> set ks then buf x else content d1 x) = (\<lambda>x. if x \<in> set (k # ks) then buf x else content d x)"
    using d1(4) by (intro ext) simp
  with d1 Cons.IH [of d1] Cons.prems(2) show ?case by auto
qed simp

end

definition disk_ok :: "disk \<Rightarrow> bool" where
  "disk_ok d \<longleftrightarrow>
     (\<forall>file p. dk_files d file = Some p \<longrightarrow> dk_dwb d \<noteq> Some p \<and> (\<exists>content. dk_fs d p = Some content \<and> PAGE_SIZE dvd length content)) \<and>
     inj_on (dk_files d) (dom (dk_files d))"

definition is_open :: "disk \<Rightarrow> u32 \<times> u32 \<Rightarrow> bool" where
  "is_open d = (\<lambda>(file, no). dk_files d file \<noteq> None)"

definition disk_page :: "disk \<Rightarrow> u32 \<times> u32 \<Rightarrow> page" where
  "disk_page d = (\<lambda>(file, no). case dk_files d file of None \<Rightarrow> zeroed_page | Some p \<Rightarrow> fs_page (dk_fs d) p no)"

lemma open_file_content:
  assumes "disk_ok d" "is_open d (fid, no)"
  obtains p c where "dk_files d fid = Some p" "dk_fs d p = Some c" "PAGE_SIZE dvd length c" "dk_dwb d \<noteq> Some p"
  using assms that by (fastforce simp: disk_ok_def is_open_def)

lemma length_disk_page [simp]: "length (disk_page d k) = PAGE_SIZE"
  by (auto simp: disk_page_def fs_page_def page_of_def subl_def split: prod.splits option.splits)

lemma disk_read_page_ok:
  assumes "disk_ok d" "is_open d (fid, no)"
  shows "disk_read_page d fid no = Ok (disk_page d (fid, no))"
proof -
  obtain p c where pc: "dk_files d fid = Some p" "dk_fs d p = Some c" "PAGE_SIZE dvd length c" using open_file_content [OF assms] .
  then obtain n where n: "length c = n * PAGE_SIZE" by (metis dvd_div_mult_self)
  have "page_offset no < n * PAGE_SIZE \<Longrightarrow> page_offset no + PAGE_SIZE \<le> n * PAGE_SIZE"
  proof -
    assume "page_offset no < n * PAGE_SIZE"
    then have "Suc (unat no) \<le> n" by (simp add: page_offset_def)
    then have "Suc (unat no) * PAGE_SIZE \<le> n * PAGE_SIZE" by (rule mult_le_mono1)
    then show ?thesis by (simp add: page_offset_def)
  qed
  with pc n show ?thesis
    by (cases "n * PAGE_SIZE \<le> page_offset no")
      (auto simp: disk_read_page_def with_file_def file_slot_def disk_page_def fs_page_def page_of_def Let_def PAGE_SIZE_def)
qed

lemma page_of_write_at:
  assumes "length buf = PAGE_SIZE" "PAGE_SIZE dvd length c"
  shows "page_of (write_at c (page_offset no) buf) k = (if k = no then buf else page_of c k)"
proof (cases "k = no")
  case True
  with assms show ?thesis
    by (auto simp: page_of_def length_write_at nth_write_at subl_def intro!: nth_equalityI)
next
  case False
  let ?w = "write_at c (page_offset no) buf"
  obtain n where n: "length c = n * PAGE_SIZE" using assms(2) by (metis dvd_div_mult_self)
  have beyond: "length c \<le> page_offset k" if "\<not> page_offset k + PAGE_SIZE \<le> length c"
  proof -
    have "n \<le> unat k"
    proof (rule ccontr)
      assume "\<not> n \<le> unat k"
      then have "Suc (unat k) * PAGE_SIZE \<le> n * PAGE_SIZE" by (intro mult_le_mono1) simp
      with that n show False by (simp add: page_offset_def)
    qed
    with n show ?thesis by (simp add: page_offset_def)
  qed
  have nth: "?w ! i = (if i < length c then c ! i else 0)" if "page_offset k \<le> i" "i < page_offset k + PAGE_SIZE" "i < length ?w" for i
    using that page_offset_less [OF False] assms(1) by (auto simp: nth_write_at length_write_at)
  show ?thesis
  proof (cases "page_offset k + PAGE_SIZE \<le> length c")
    case True
    with False nth show ?thesis by (auto simp: page_of_def length_write_at subl_def intro!: nth_equalityI)
  next
    case out: False
    with False nth beyond [OF out] show ?thesis
      by (auto simp: page_of_def length_write_at subl_def zeroed_page_def intro!: nth_equalityI)
  qed
qed

lemma write_at_aligned: "length buf = PAGE_SIZE \<Longrightarrow> PAGE_SIZE dvd length c \<Longrightarrow> PAGE_SIZE dvd length (write_at c (page_offset no) buf)"
  by (simp add: length_write_at page_offset_def max_def)

interpretation dkp: page_store disk_ok is_open disk_page "\<lambda>d (file, no) buf. disk_write_page d file no buf"
proof
  fix d :: disk and k :: "u32 \<times> u32" and buf :: page
  assume ok: "disk_ok d" and k: "is_open d k" and buf: "length buf = PAGE_SIZE"
  obtain fid no where kk: "k = (fid, no)" by (cases k)
  with k have "is_open d (fid, no)" by simp
  then obtain p c where pc: "dk_files d fid = Some p" "dk_fs d p = Some c" "PAGE_SIZE dvd length c" "dk_dwb d \<noteq> Some p"
    using open_file_content [OF ok] by metis
  let ?d = "put_file d p (write_at c (page_offset no) buf)"
  have "disk_write_page d fid no buf = Ok ?d" using pc by (simp add: disk_write_page_def with_file_def file_slot_def)
  moreover have "disk_ok ?d" using ok pc write_at_aligned [OF buf pc(3), of no] by (auto simp: disk_ok_def put_file_def)
  moreover have "is_open ?d = is_open d" by (simp add: is_open_def put_file_def)
  moreover have "disk_page ?d (f, n) = ((disk_page d)((fid, no) := buf)) (f, n)" for f n
  proof (cases "f = fid")
    case True
    with pc page_of_write_at [OF buf pc(3)] show ?thesis by (auto simp: disk_page_def fs_page_def put_file_def)
  next
    case False
    then have "dk_files d f \<noteq> Some p" using ok pc(1) by (auto simp: disk_ok_def inj_on_def dom_def)
    with False show ?thesis by (auto simp: disk_page_def fs_page_def put_file_def split: option.splits)
  qed
  then have "disk_page ?d = (disk_page d)(k := buf)" unfolding kk by (intro ext) (metis surj_pair)
  ultimately show "\<exists>d'. (case k of (fid, no) \<Rightarrow> \<lambda>buf. disk_write_page d fid no buf) buf = Ok d' \<and> disk_ok d' \<and> is_open d' = is_open d \<and>
      disk_page d' = (disk_page d)(k := buf)"
    by (auto simp: kk)
qed

text \<open>
  C39: The double-write buffer repairs torn pages. A flush stages every page, syncs the staging file and only then writes the pages in
  place. If a crash cuts the staging file anywhere, the data files are as before, and recovery writes only pages that were staged
  completely: every page is then wholly the old or wholly the new one. If the crash comes while the pages are written in
  place, whatever it leaves inside these pages, recovery produces exactly the data files of the completed flush.
  Either way the staging file is empty afterwards.
\<close>

theorem double_write_repairs:
  assumes "\<forall>e \<in> set ps. entry_ok e" "\<forall>(p, no, buf) \<in> set ps. inside fs p no \<and> p \<noteq> dwb"
  shows "stage_pages (fs(dwb \<mapsto> [])) dwb ps = fs(dwb \<mapsto> staged_bytes ps) \<and>
    (\<exists>k. dwb_recover (fs(dwb \<mapsto> take n (staged_bytes ps))) dwb = Ok ((write_pages (fs(dwb \<mapsto> [])) (take k ps))) \<and>
      (\<forall>p no. p \<noteq> dwb \<longrightarrow> fs_page (write_pages (fs(dwb \<mapsto> [])) (take k ps)) p no = fs_page fs p no \<or>
        (\<exists>buf. (p, no, buf) \<in> set ps \<and> fs_page (write_pages (fs(dwb \<mapsto> [])) (take k ps)) p no = buf))) \<and>
    (\<forall>fs'. torn ps (fs(dwb \<mapsto> [])) (fs'(dwb \<mapsto> [])) \<longrightarrow>
      dwb_recover (fs'(dwb \<mapsto> staged_bytes ps)) dwb = Ok (write_pages (fs(dwb \<mapsto> [])) ps))"
proof -
  have away: "\<forall>(p, no, buf) \<in> set (take k ps). p \<noteq> dwb" for k using assms(2) in_set_takeD by fastforce
  have recover: "dwb_recover (f(dwb \<mapsto> d)) dwb = bindR (recover_pages (f(dwb \<mapsto> d)) d) (\<lambda>g. Ok (g(dwb \<mapsto> [])))" for f d
    by (simp add: dwb_recover_def)
  obtain k where k: "recover_pages (fs(dwb \<mapsto> take n (staged_bytes ps))) (take n (staged_bytes ps)) = Ok (write_pages (fs(dwb \<mapsto> take n (staged_bytes ps))) (take k ps))"
    using recover_prefix [OF assms(1)] by blast
  have pages: "fs_page (write_pages (fs(dwb \<mapsto> [])) (take k ps)) p no = fs_page fs p no \<or>
        (\<exists>buf. (p, no, buf) \<in> set ps \<and> fs_page (write_pages (fs(dwb \<mapsto> [])) (take k ps)) p no = buf)" if "p \<noteq> dwb" for p no
  proof -
    have "\<forall>(p, no, buf) \<in> set (take k ps). inside (fs(dwb \<mapsto> [])) p no \<and> length buf = PAGE_SIZE"
      using assms in_set_takeD [of _ k ps] by (fastforce simp: inside_def entry_ok_def)
    from write_pages_page [OF this, of p no] that in_set_takeD [of _ k ps] show ?thesis by (auto simp: fs_page_def)
  qed
  have "dwb_recover (fs'(dwb \<mapsto> staged_bytes ps)) dwb = Ok (write_pages (fs(dwb \<mapsto> [])) ps)"
    if "torn ps (fs(dwb \<mapsto> [])) (fs'(dwb \<mapsto> []))" for fs'
  proof -
    have "recover_pages (fs'(dwb \<mapsto> staged_bytes ps)) (staged_bytes ps) = Ok (write_pages (fs'(dwb \<mapsto> staged_bytes ps)) ps)"
      using recover_prefix [OF assms(1), of "fs'(dwb \<mapsto> staged_bytes ps)" "length (staged_bytes ps)"] by auto
    then show ?thesis using torn_write_pages [OF that assms(1)] write_pages_other [of ps dwb fs'] away [of "length ps"] by (simp add: recover)
  qed
  then show ?thesis using k pages write_pages_other [OF away] stage_pages_bytes [of "fs(dwb \<mapsto> [])" dwb "[]" ps] by (auto simp: recover)
qed

definition sample_pages :: "staged_page list" where
  "sample_pages = [([116], 1, replicate PAGE_SIZE 7)]"

definition sample_files :: "byte list \<Rightarrow> file_system" where
  "sample_files page = [[116] \<mapsto> replicate PAGE_SIZE 3 @ page, [100] \<mapsto> []]"

theorem double_write_repairs_witness:
  "list_all entry_ok sample_pages \<and>
   list_all (\<lambda>(p, no, buf). inside (sample_files (replicate PAGE_SIZE 0)) p no \<and> p \<noteq> [100]) sample_pages \<and>
   dwb_recover ((sample_files (replicate 100 7 @ replicate (PAGE_SIZE - 100) 0))([100] \<mapsto> staged_bytes sample_pages)) [100] =
     Ok (write_pages (sample_files (replicate PAGE_SIZE 0)) sample_pages)"
proof -
  let ?fs = "sample_files (replicate PAGE_SIZE 0)"
  let ?fs' = "sample_files (replicate 100 7 @ replicate (PAGE_SIZE - 100) 0)"
  have ok: "\<forall>e \<in> set sample_pages. entry_ok e" by (simp add: sample_pages_def entry_ok_def) code_simp
  have inside: "\<forall>(p, no, buf) \<in> set sample_pages. inside ?fs p no \<and> p \<noteq> [100]"
    by (simp add: sample_pages_def sample_files_def inside_def page_offset_def)
  have same: "f([100] \<mapsto> []) = f" if "f = ?fs \<or> f = ?fs'" for f using that by (auto simp: sample_files_def)
  have at: "i < length c \<Longrightarrow> \<not> covered sample_pages [116] i \<Longrightarrow> i < PAGE_SIZE" if "length c = 2 * PAGE_SIZE" for i and c :: "byte list"
    using that by (auto simp: covered_def sample_pages_def page_offset_def)
  have "torn sample_pages ?fs ?fs'"
    using at [of "replicate PAGE_SIZE 3 @ replicate PAGE_SIZE 0"]
    by (auto simp: torn_def sample_files_def nth_append PAGE_SIZE_def option.rel_sel)
  with double_write_repairs [OF ok inside, of 0] ok inside same [of ?fs] same [of ?fs'] show ?thesis by (simp add: list_all_iff)
qed

end
