(* ===== verification/Replacer.thy ===== *)
theory Replacer
  imports Config
begin

section \<open>Eviction policies\<close>

text \<open>
  \<open>src/src/storage/replacer.rs\<close>: the order of the resident pages under the three policies and the choice of a page to evict.
  What the buffer pool needs of a policy is the locale \<open>replacer\<close>; the three policies interpret it. Pin counts and
  reference bits belong to the frames and are arguments, as the trait \<open>FrameVitals\<close> makes them.
\<close>

type_synonym page_key = "u32 \<times> u32"

subsection \<open>The contract\<close>

locale replacer =
  fixes fresh :: 's
    and keys :: "'s \<Rightarrow> page_key list"
    and push :: "'s \<Rightarrow> page_key \<Rightarrow> 's"
    and record_access :: "'s \<Rightarrow> page_key \<Rightarrow> 's"
    and forget :: "'s \<Rightarrow> page_key \<Rightarrow> 's"
    and choose_victim :: "'s \<Rightarrow> (page_key \<Rightarrow> u32) \<Rightarrow> (page_key \<Rightarrow> bool) \<Rightarrow> page_key option \<times> 's \<times> (page_key \<Rightarrow> bool)"
    and ok :: "'s \<Rightarrow> bool"
  assumes fresh: "ok fresh" "keys fresh = []"
    and ok_distinct: "ok s \<Longrightarrow> distinct (keys s)"
    and push: "ok s \<Longrightarrow> k \<notin> set (keys s) \<Longrightarrow> ok (push s k) \<and> set (keys (push s k)) = insert k (set (keys s))"
    and access: "ok s \<Longrightarrow> k \<in> set (keys s) \<Longrightarrow> ok (record_access s k) \<and> set (keys (record_access s k)) = set (keys s)"
    and forget: "ok s \<Longrightarrow> ok (forget s k) \<and> set (keys (forget s k)) = set (keys s) - {k}"
    and choose_none: "ok s \<Longrightarrow> choose_victim s pins referenced = (None, s', referenced') \<Longrightarrow>
      ok s' \<and> set (keys s') = set (keys s) \<and> (\<forall>k \<in> set (keys s). 0 < pins k)"
    and choose_some: "ok s \<Longrightarrow> choose_victim s pins referenced = (Some k, s', referenced') \<Longrightarrow>
      ok s' \<and> k \<in> set (keys s) \<and> pins k = 0 \<and> set (keys s') = set (keys s) - {k}"
begin

text \<open>An unpinned page is always found.\<close>

lemma victim_exists:
  assumes "ok s" "k \<in> set (keys s)" "pins k = 0"
  obtains v s' referenced' where "choose_victim s pins referenced = (Some v, s', referenced')"
  using assms choose_none [OF assms(1)] by (cases "choose_victim s pins referenced"; cases "fst (choose_victim s pins referenced)") fastforce+

lemma choose_some_card:
  assumes "ok s" "choose_victim s pins referenced = (Some k, s', referenced')"
  shows "card (set (keys s')) < card (set (keys s))"
  using choose_some [OF assms] by (metis List.finite_set card_Diff1_less)

end

subsection \<open>LRU and FIFO\<close>

definition remove_at :: "nat \<Rightarrow> 'a list \<Rightarrow> 'a list" where
  "remove_at i xs = take i xs @ drop (i + 1) xs"

definition pick_oldest :: "page_key list \<Rightarrow> (page_key \<Rightarrow> u32) \<Rightarrow> page_key option \<times> page_key list" where
  "pick_oldest order pins =
     (case position (\<lambda>k. pins k = 0) order of
        None \<Rightarrow> (None, order)
      | Some pos \<Rightarrow> (Some (order ! pos), remove_at pos order))"

definition drop_key :: "page_key list \<Rightarrow> page_key \<Rightarrow> page_key list" where
  "drop_key order key = (case position (\<lambda>k. k = key) order of None \<Rightarrow> order | Some pos \<Rightarrow> remove_at pos order)"

definition order_push :: "page_key list \<Rightarrow> page_key \<Rightarrow> page_key list" where
  "order_push order key = order @ [key]"

definition lru_access :: "page_key list \<Rightarrow> page_key \<Rightarrow> page_key list" where
  "lru_access order key =
     (case position (\<lambda>k. k = key) order of None \<Rightarrow> order | Some pos \<Rightarrow> remove_at pos order @ [key])"

definition fifo_access :: "page_key list \<Rightarrow> page_key \<Rightarrow> page_key list" where
  "fifo_access order key = order"

definition order_victim ::
  "page_key list \<Rightarrow> (page_key \<Rightarrow> u32) \<Rightarrow> (page_key \<Rightarrow> bool) \<Rightarrow> page_key option \<times> page_key list \<times> (page_key \<Rightarrow> bool)" where
  "order_victim order pins referenced = (let (v, order') = pick_oldest order pins in (v, order', referenced))"

lemma remove_at_set: "distinct xs \<Longrightarrow> i < length xs \<Longrightarrow> distinct (remove_at i xs) \<and> set (remove_at i xs) = set xs - {xs ! i}"
proof -
  assume xs: "distinct xs" "i < length xs"
  define as bs where "as = take i xs" and "bs = drop (Suc i) xs"
  have split: "xs = as @ xs ! i # bs" using xs(2) by (simp add: as_def bs_def id_take_nth_drop)
  have "remove_at i xs = as @ bs" by (simp add: remove_at_def as_def bs_def)
  moreover have "distinct (as @ xs ! i # bs)" using xs(1) split by simp
  moreover have "set xs = insert (xs ! i) (set as \<union> set bs)" by (subst split) simp
  ultimately show ?thesis by auto
qed

lemma drop_key_set: "distinct xs \<Longrightarrow> distinct (drop_key xs k) \<and> set (drop_key xs k) = set xs - {k}"
  by (auto simp: drop_key_def remove_at_set position_None dest: position_bound split: option.split)

lemma lru_access_set: "distinct xs \<Longrightarrow> k \<in> set xs \<Longrightarrow> distinct (lru_access xs k) \<and> set (lru_access xs k) = set xs"
  by (auto simp: lru_access_def remove_at_set position_None dest: position_bound split: option.split)

lemma pick_oldest_set:
  assumes "distinct xs" "pick_oldest xs pins = (v, ys)"
  shows "v = None \<Longrightarrow> ys = xs \<and> (\<forall>k \<in> set xs. pins k \<noteq> 0)"
    "v = Some k \<Longrightarrow> distinct ys \<and> k \<in> set xs \<and> pins k = 0 \<and> set ys = set xs - {k}"
  using assms by (auto simp: pick_oldest_def remove_at_set position_None dest: position_bound split: option.splits)

interpretation lru: replacer "[]" "\<lambda>order. order" order_push lru_access drop_key order_victim distinct
  by unfold_locales
    (auto simp: order_push_def drop_key_set lru_access_set order_victim_def word_gt_0 split: prod.splits dest: pick_oldest_set)

interpretation fifo: replacer "[]" "\<lambda>order. order" order_push fifo_access drop_key order_victim distinct
  by unfold_locales
    (auto simp: order_push_def drop_key_set fifo_access_def order_victim_def word_gt_0 split: prod.splits dest: pick_oldest_set)

subsection \<open>CLOCK\<close>

record clock =
  ck_ring :: "page_key list"
  ck_hand :: nat

definition clock_push :: "clock \<Rightarrow> page_key \<Rightarrow> clock" where
  "clock_push c key = c\<lparr> ck_ring := ck_ring c @ [key] \<rparr>"

definition clock_access :: "clock \<Rightarrow> page_key \<Rightarrow> clock" where
  "clock_access c key = c"

definition rewind :: "clock \<Rightarrow> clock" where
  "rewind c = (if length (ck_ring c) \<le> ck_hand c then c\<lparr> ck_hand := 0 \<rparr> else c)"

definition clock_forget :: "clock \<Rightarrow> page_key \<Rightarrow> clock" where
  "clock_forget c key =
     (case position (\<lambda>k. k = key) (ck_ring c) of
        None \<Rightarrow> c
      | Some pos \<Rightarrow> rewind (c\<lparr> ck_ring := remove_at pos (ck_ring c) \<rparr>))"

fun clock_loop ::
  "nat \<Rightarrow> clock \<Rightarrow> (page_key \<Rightarrow> u32) \<Rightarrow> (page_key \<Rightarrow> bool) \<Rightarrow> page_key option \<times> clock \<times> (page_key \<Rightarrow> bool)" where
  "clock_loop 0 c pins referenced = (None, c, referenced)"
| "clock_loop (Suc steps) c pins referenced =
     (let c' = rewind c; key = ck_ring c' ! ck_hand c' in
      if 0 < pins key then clock_loop steps (c'\<lparr> ck_hand := ck_hand c' + 1 \<rparr>) pins referenced
      else if referenced key then clock_loop steps (c'\<lparr> ck_hand := ck_hand c' + 1 \<rparr>) pins (referenced(key := False))
      else (Some key, rewind (c'\<lparr> ck_ring := remove_at (ck_hand c') (ck_ring c') \<rparr>), referenced))"

definition clock_victim ::
  "clock \<Rightarrow> (page_key \<Rightarrow> u32) \<Rightarrow> (page_key \<Rightarrow> bool) \<Rightarrow> page_key option \<times> clock \<times> (page_key \<Rightarrow> bool)" where
  "clock_victim c pins referenced =
     (let n = length (ck_ring c) in if n = 0 then (None, c, referenced) else clock_loop (2 * n + 1) c pins referenced)"

definition clock_ok :: "clock \<Rightarrow> bool" where
  "clock_ok c \<longleftrightarrow> distinct (ck_ring c) \<and> ck_hand c \<le> length (ck_ring c)"

lemma rewind_simps: "ck_ring (rewind c) = ck_ring c" "ck_ring c \<noteq> [] \<Longrightarrow> ck_hand c \<le> length (ck_ring c) \<Longrightarrow> ck_hand (rewind c) = ck_hand c mod length (ck_ring c)"
  "ck_ring c \<noteq> [] \<Longrightarrow> ck_hand (rewind c) < length (ck_ring c)" "clock_ok c \<Longrightarrow> clock_ok (rewind c)" "ck_hand (rewind c) \<le> length (ck_ring c)"
  by (auto simp: rewind_def clock_ok_def)

text \<open>One step of the loop; \<open>turn\<close> moves the hand on.\<close>

definition turn :: "clock \<Rightarrow> clock" where
  "turn c = (rewind c)\<lparr> ck_hand := ck_hand (rewind c) + 1 \<rparr>"

definition at_hand :: "clock \<Rightarrow> page_key" where
  "at_hand c = ck_ring c ! ck_hand (rewind c)"

lemma turn_simps: "ck_ring (turn c) = ck_ring c" "ck_ring c \<noteq> [] \<Longrightarrow> clock_ok c \<Longrightarrow> clock_ok (turn c)"
    "ck_ring c \<noteq> [] \<Longrightarrow> clock_ok c \<Longrightarrow> ck_hand (turn c) mod length (ck_ring c) = (ck_hand c + 1) mod length (ck_ring c)"
  using rewind_simps(3) [of c] by (auto simp: turn_def rewind_simps(1) clock_ok_def Suc_leI rewind_simps(2) mod_Suc_eq)

lemma clock_loop_step:
  "clock_loop (Suc steps) c pins referenced =
     (if 0 < pins (at_hand c) then clock_loop steps (turn c) pins referenced
      else if referenced (at_hand c) then clock_loop steps (turn c) pins (referenced(at_hand c := False))
      else (Some (at_hand c), rewind ((rewind c)\<lparr> ck_ring := remove_at (ck_hand (rewind c)) (ck_ring c) \<rparr>), referenced))"
  by (simp add: Let_def turn_def at_hand_def rewind_simps(1))

declare clock_loop.simps(2) [simp del]

lemma clock_loop_none:
  "ck_ring c \<noteq> [] \<Longrightarrow> clock_ok c \<Longrightarrow> clock_loop steps c pins referenced = (None, c', referenced') \<Longrightarrow> clock_ok c' \<and> ck_ring c' = ck_ring c"
proof (induction steps arbitrary: c referenced)
  case (Suc steps)
  from Suc.prems(3) [unfolded clock_loop_step] obtain ref where "clock_loop steps (turn c) pins ref = (None, c', referenced')" by (auto split: if_splits)
  from Suc.IH [OF _ _ this] Suc.prems(1,2) show ?case by (simp add: turn_simps)
qed simp

lemma clock_loop_some:
  "ck_ring c \<noteq> [] \<Longrightarrow> clock_ok c \<Longrightarrow> clock_loop steps c pins referenced = (Some k, c', referenced') \<Longrightarrow>
    clock_ok c' \<and> k \<in> set (ck_ring c) \<and> pins k = 0 \<and> set (ck_ring c') = set (ck_ring c) - {k}"
proof (induction steps arbitrary: c referenced)
  case (Suc steps)
  have lt: "ck_hand (rewind c) < length (ck_ring c)" using Suc.prems(1) by (rule rewind_simps(3))
  note step = Suc.prems(3) [unfolded clock_loop_step]
  show ?case
  proof (cases "0 < pins (at_hand c) \<or> referenced (at_hand c)")
    case True
    with step obtain ref where "clock_loop steps (turn c) pins ref = (Some k, c', referenced')" by (auto split: if_splits)
    from Suc.IH [OF _ _ this] Suc.prems(1,2) show ?thesis by (simp add: turn_simps)
  next
    case False
    with step have k: "k = at_hand c" and c': "c' = rewind ((rewind c)\<lparr> ck_ring := remove_at (ck_hand (rewind c)) (ck_ring c) \<rparr>)" by simp_all
    from lt Suc.prems(2) remove_at_set [of "ck_ring c" "ck_hand (rewind c)"]
    have rm: "distinct (remove_at (ck_hand (rewind c)) (ck_ring c))" "set (remove_at (ck_hand (rewind c)) (ck_ring c)) = set (ck_ring c) - {k}"
      by (auto simp: clock_ok_def k at_hand_def)
    have "ck_ring c' = remove_at (ck_hand (rewind c)) (ck_ring c)" unfolding c' by (simp add: rewind_simps(1))
    moreover have "ck_hand c' \<le> length (ck_ring c')" unfolding c' by (metis rewind_simps(1,5))
    ultimately show ?thesis using rm lt False k by (auto simp: clock_ok_def at_hand_def word_gt_0)
  qed
qed simp

text \<open>Within two turns of the ring an unpinned page is chosen: the first visit clears its bit, the second takes it.\<close>

definition visited :: "clock \<Rightarrow> nat \<Rightarrow> page_key" where
  "visited c i = ck_ring c ! ((ck_hand c + i) mod length (ck_ring c))"

lemma visited_turn: "ck_ring c \<noteq> [] \<Longrightarrow> clock_ok c \<Longrightarrow> visited (turn c) i = visited c (Suc i)"
proof -
  assume c: "ck_ring c \<noteq> []" "clock_ok c"
  let ?n = "length (ck_ring c)"
  have "(ck_hand (turn c) + i) mod ?n = (ck_hand (turn c) mod ?n + i) mod ?n" by (simp add: mod_add_left_eq)
  also have "\<dots> = ((ck_hand c + 1) mod ?n + i) mod ?n" unfolding turn_simps(3) [OF c] ..
  also have "\<dots> = (ck_hand c + Suc i) mod ?n" by (simp add: mod_add_left_eq)
  finally show ?thesis by (simp add: visited_def turn_simps(1))
qed

lemma visited_0: "ck_ring c \<noteq> [] \<Longrightarrow> clock_ok c \<Longrightarrow> visited c 0 = at_hand c"
  by (simp add: visited_def at_hand_def rewind_simps(2) clock_ok_def)

lemma unreferenced_visit_pinned:
  "ck_ring c \<noteq> [] \<Longrightarrow> clock_ok c \<Longrightarrow> clock_loop steps c pins referenced = (None, c', referenced') \<Longrightarrow> j < steps \<Longrightarrow> \<not> referenced (visited c j) \<Longrightarrow>
    0 < pins (visited c j)"
proof (induction steps arbitrary: c referenced j)
  case (Suc steps)
  note step = Suc.prems(3) [unfolded clock_loop_step]
  show ?case
  proof (cases j)
    case 0
    with Suc.prems(1,2,5) step show ?thesis by (auto simp: visited_0 split: if_splits)
  next
    case (Suc i)
    from step obtain ref where ref: "clock_loop steps (turn c) pins ref = (None, c', referenced')" "\<not> ref (visited c j)"
      using Suc.prems(5) by (auto split: if_splits)
    with Suc.IH [OF _ _ ref(1), of i] Suc Suc.prems show ?thesis by (simp add: turn_simps visited_turn)
  qed
qed simp

lemma second_visit_pinned:
  "ck_ring c \<noteq> [] \<Longrightarrow> clock_ok c \<Longrightarrow> clock_loop steps c pins referenced = (None, c', referenced') \<Longrightarrow> i < j \<Longrightarrow> j < steps \<Longrightarrow> visited c i = visited c j \<Longrightarrow>
    0 < pins (visited c j)"
proof (induction steps arbitrary: c referenced i j)
  case (Suc steps)
  note step = Suc.prems(3) [unfolded clock_loop_step]
  obtain l where j: "j = Suc l" using Suc.prems(4) by (cases j) auto
  have ok: "ck_ring (turn c) \<noteq> []" "clock_ok (turn c)" using Suc.prems by (simp_all add: turn_simps)
  show ?case
  proof (cases i)
    case 0
    show ?thesis
    proof (rule ccontr)
      assume np: "\<not> 0 < pins (visited c j)"
      with 0 Suc.prems(1,2,6) have h: "at_hand c = visited c j" by (simp add: visited_0)
      with np step have "clock_loop steps (turn c) pins (referenced(at_hand c := False)) = (None, c', referenced')" by (auto split: if_splits)
      from unreferenced_visit_pinned [OF ok this, of l] h np j Suc.prems show False by (simp add: visited_turn)
    qed
  next
    case (Suc h)
    from step obtain ref where ref: "clock_loop steps (turn c) pins ref = (None, c', referenced')" by (auto split: if_splits)
    with Suc.IH [OF ok ref, of h l] j Suc Suc.prems show ?thesis by (simp add: visited_turn)
  qed
qed simp

lemma clock_victim_pinned:
  assumes "clock_ok c" "clock_victim c pins referenced = (None, c', referenced')" "k \<in> set (ck_ring c)"
  shows "0 < pins k"
proof -
  let ?n = "length (ck_ring c)"
  from assms(3) have ne: "ck_ring c \<noteq> []" by auto
  from assms(3) obtain p where p: "p < ?n" "ck_ring c ! p = k" by (auto simp: in_set_conv_nth)
  obtain i where i: "i < ?n" "(ck_hand c + i) mod ?n = p"
  proof -
    have "(ck_hand c + (?n - ck_hand c mod ?n + p)) mod ?n = p"
    proof -
      have "(ck_hand c + (?n - ck_hand c mod ?n + p)) mod ?n = ((ck_hand c mod ?n) + (?n - ck_hand c mod ?n + p)) mod ?n" by (simp add: mod_add_left_eq)
      also have "(ck_hand c mod ?n) + (?n - ck_hand c mod ?n + p) = ?n + p" using mod_less_divisor [of ?n "ck_hand c"] p(1) by linarith
      finally show ?thesis using p(1) by simp
    qed
    then have "(ck_hand c + (?n - ck_hand c mod ?n + p) mod ?n) mod ?n = p" by (simp add: mod_add_right_eq)
    moreover have "(?n - ck_hand c mod ?n + p) mod ?n < ?n" using ne by (intro mod_less_divisor) simp
    ultimately show ?thesis using that by blast
  qed
  then have v: "visited c i = k" "visited c (i + ?n) = k" using p(2) by (simp_all add: visited_def add.assoc [symmetric])
  have "clock_loop (2 * ?n + 1) c pins referenced = (None, c', referenced')" using assms(2) ne by (simp add: clock_victim_def)
  from second_visit_pinned [OF ne assms(1) this, of i "i + ?n"] i(1) v ne show ?thesis by simp
qed

interpretation clk: replacer "\<lparr> ck_ring = [], ck_hand = 0 \<rparr>" ck_ring clock_push clock_access clock_forget clock_victim clock_ok
proof
  fix s k and pins :: "page_key \<Rightarrow> u32" and referenced s' referenced'
  assume ok: "clock_ok s"
  show "clock_ok (clock_forget s k) \<and> set (ck_ring (clock_forget s k)) = set (ck_ring s) - {k}"
  proof (cases "position (\<lambda>x. x = k) (ck_ring s)")
    case (Some p)
    with position_bound [OF Some] ok remove_at_set [of "ck_ring s" p] show ?thesis
      by (auto simp: clock_forget_def clock_ok_def rewind_simps(1) rewind_def)
  next
    case None
    then have "k \<notin> set (ck_ring s)" by (auto simp: position_None)
    with None ok show ?thesis by (simp add: clock_forget_def)
  qed
  show "clock_ok s' \<and> set (ck_ring s') = set (ck_ring s) \<and> (\<forall>k \<in> set (ck_ring s). 0 < pins k)"
    if "clock_victim s pins referenced = (None, s', referenced')"
  proof (cases "ck_ring s = []")
    case True
    with that ok show ?thesis by (simp add: clock_victim_def)
  next
    case False
    with that have "clock_loop (2 * length (ck_ring s) + 1) s pins referenced = (None, s', referenced')" by (simp add: clock_victim_def)
    from clock_loop_none [OF False ok this] clock_victim_pinned [OF ok that] show ?thesis by simp
  qed
  show "clock_ok s' \<and> k \<in> set (ck_ring s) \<and> pins k = 0 \<and> set (ck_ring s') = set (ck_ring s) - {k}"
    if "clock_victim s pins referenced = (Some k, s', referenced')"
  proof (cases "ck_ring s = []")
    case False
    with that have "clock_loop (2 * length (ck_ring s) + 1) s pins referenced = (Some k, s', referenced')" by (simp add: clock_victim_def)
    from clock_loop_some [OF False ok this] show ?thesis .
  qed (use that in \<open>simp add: clock_victim_def\<close>)
qed (auto simp: clock_ok_def clock_push_def clock_access_def)

subsection \<open>The configured policy\<close>

datatype policy_state = LruOrder "page_key list" | FifoOrder "page_key list" | ClockRing clock

fun from_policy :: "eviction_policy \<Rightarrow> policy_state" where
  "from_policy Lru = LruOrder []"
| "from_policy Clock = ClockRing \<lparr> ck_ring = [], ck_hand = 0 \<rparr>"
| "from_policy Fifo = FifoOrder []"

fun rp_keys :: "policy_state \<Rightarrow> page_key list" where
  "rp_keys (LruOrder order) = order"
| "rp_keys (FifoOrder order) = order"
| "rp_keys (ClockRing c) = ck_ring c"

fun rp_push :: "policy_state \<Rightarrow> page_key \<Rightarrow> policy_state" where
  "rp_push (LruOrder order) k = LruOrder (order_push order k)"
| "rp_push (FifoOrder order) k = FifoOrder (order_push order k)"
| "rp_push (ClockRing c) k = ClockRing (clock_push c k)"

fun rp_record_access :: "policy_state \<Rightarrow> page_key \<Rightarrow> policy_state" where
  "rp_record_access (LruOrder order) k = LruOrder (lru_access order k)"
| "rp_record_access (FifoOrder order) k = FifoOrder (fifo_access order k)"
| "rp_record_access (ClockRing c) k = ClockRing (clock_access c k)"

fun rp_forget :: "policy_state \<Rightarrow> page_key \<Rightarrow> policy_state" where
  "rp_forget (LruOrder order) k = LruOrder (drop_key order k)"
| "rp_forget (FifoOrder order) k = FifoOrder (drop_key order k)"
| "rp_forget (ClockRing c) k = ClockRing (clock_forget c k)"

fun rp_choose_victim ::
  "policy_state \<Rightarrow> (page_key \<Rightarrow> u32) \<Rightarrow> (page_key \<Rightarrow> bool) \<Rightarrow> page_key option \<times> policy_state \<times> (page_key \<Rightarrow> bool)" where
  "rp_choose_victim (LruOrder order) pins referenced = (let (v, order', r) = order_victim order pins referenced in (v, LruOrder order', r))"
| "rp_choose_victim (FifoOrder order) pins referenced = (let (v, order', r) = order_victim order pins referenced in (v, FifoOrder order', r))"
| "rp_choose_victim (ClockRing c) pins referenced = (let (v, c', r) = clock_victim c pins referenced in (v, ClockRing c', r))"

fun policy_ok :: "policy_state \<Rightarrow> bool" where
  "policy_ok (LruOrder order) = distinct order"
| "policy_ok (FifoOrder order) = distinct order"
| "policy_ok (ClockRing c) = clock_ok c"

interpretation pol: replacer "from_policy p" rp_keys rp_push rp_record_access rp_forget rp_choose_victim policy_ok for p
proof
  fix s k and pins :: "page_key \<Rightarrow> u32" and referenced s' referenced'
  show "policy_ok (from_policy p)" "rp_keys (from_policy p) = []" by (cases p; simp add: clk.fresh)+
  assume ok: "policy_ok s"
  then show "distinct (rp_keys s)" by (cases s) (auto dest: clk.ok_distinct)
  show "policy_ok (rp_push s k) \<and> set (rp_keys (rp_push s k)) = insert k (set (rp_keys s))" if "k \<notin> set (rp_keys s)"
    using that ok lru.push clk.push by (cases s) auto
  show "policy_ok (rp_record_access s k) \<and> set (rp_keys (rp_record_access s k)) = set (rp_keys s)" if "k \<in> set (rp_keys s)"
    using that ok lru.access fifo.access clk.access by (cases s) auto
  show "policy_ok (rp_forget s k) \<and> set (rp_keys (rp_forget s k)) = set (rp_keys s) - {k}"
    using ok lru.forget clk.forget by (cases s) auto
  show "policy_ok s' \<and> set (rp_keys s') = set (rp_keys s) \<and> (\<forall>k \<in> set (rp_keys s). 0 < pins k)"
    if "rp_choose_victim s pins referenced = (None, s', referenced')"
  proof (cases s)
    case (LruOrder xs)
    with that obtain ys where "order_victim xs pins referenced = (None, ys, referenced')" "s' = LruOrder ys" by (auto split: prod.splits)
    with lru.choose_none [of xs pins referenced] ok LruOrder show ?thesis by simp
  next
    case (FifoOrder xs)
    with that obtain ys where "order_victim xs pins referenced = (None, ys, referenced')" "s' = FifoOrder ys" by (auto split: prod.splits)
    with lru.choose_none [of xs pins referenced] ok FifoOrder show ?thesis by simp
  next
    case (ClockRing c)
    with that obtain d where "clock_victim c pins referenced = (None, d, referenced')" "s' = ClockRing d" by (auto split: prod.splits)
    with clk.choose_none [of c pins referenced] ok ClockRing show ?thesis by simp
  qed
  show "policy_ok s' \<and> k \<in> set (rp_keys s) \<and> pins k = 0 \<and> set (rp_keys s') = set (rp_keys s) - {k}"
    if "rp_choose_victim s pins referenced = (Some k, s', referenced')"
  proof (cases s)
    case (LruOrder xs)
    with that obtain ys where "order_victim xs pins referenced = (Some k, ys, referenced')" "s' = LruOrder ys" by (auto split: prod.splits)
    with lru.choose_some [of xs pins referenced] ok LruOrder show ?thesis by simp
  next
    case (FifoOrder xs)
    with that obtain ys where "order_victim xs pins referenced = (Some k, ys, referenced')" "s' = FifoOrder ys" by (auto split: prod.splits)
    with lru.choose_some [of xs pins referenced] ok FifoOrder show ?thesis by simp
  next
    case (ClockRing c)
    with that obtain d where "clock_victim c pins referenced = (Some k, d, referenced')" "s' = ClockRing d" by (auto split: prod.splits)
    with clk.choose_some [of c pins referenced] ok ClockRing show ?thesis by simp
  qed
qed

text \<open>
  C40: Every policy finds a victim when there is one. Under LRU, FIFO and CLOCK the page chosen for eviction is resident and not pinned
  and is removed from the order, and nothing else is; no page is chosen exactly when every resident page is pinned. In
  particular two turns of the clock are always enough. LRU moves a page that is hit to the far end, the others leave the
  order alone.
\<close>

theorem eviction_policy_contract:
  assumes "policy_ok s"
  shows "(case rp_choose_victim s pins referenced of
      (None, s', _) \<Rightarrow> policy_ok s' \<and> set (rp_keys s') = set (rp_keys s)
    | (Some k, s', _) \<Rightarrow> policy_ok s' \<and> k \<in> set (rp_keys s) \<and> pins k = 0 \<and> set (rp_keys s') = set (rp_keys s) - {k}) \<and>
    (fst (rp_choose_victim s pins referenced) = None \<longleftrightarrow> (\<forall>k \<in> set (rp_keys s). 0 < pins k)) \<and>
    (k \<in> set (rp_keys s) \<longrightarrow> rp_keys (rp_record_access s k) = (case s of LruOrder order \<Rightarrow> filter (\<lambda>x. x \<noteq> k) order @ [k] | _ \<Rightarrow> rp_keys s))"
proof (intro conjI impI)
  obtain v s' r where c: "rp_choose_victim s pins referenced = (v, s', r)" by (cases "rp_choose_victim s pins referenced")
  show "case rp_choose_victim s pins referenced of
      (None, s', _) \<Rightarrow> policy_ok s' \<and> set (rp_keys s') = set (rp_keys s)
    | (Some k, s', _) \<Rightarrow> policy_ok s' \<and> k \<in> set (rp_keys s) \<and> pins k = 0 \<and> set (rp_keys s') = set (rp_keys s) - {k}"
    using pol.choose_none [OF assms] pol.choose_some [OF assms] c by (cases v) auto
  show "fst (rp_choose_victim s pins referenced) = None \<longleftrightarrow> (\<forall>k \<in> set (rp_keys s). 0 < pins k)"
    using pol.choose_none [OF assms] pol.choose_some [OF assms] c by (cases v) fastforce+
  show "rp_keys (rp_record_access s k) = (case s of LruOrder order \<Rightarrow> filter (\<lambda>x. x \<noteq> k) order @ [k] | _ \<Rightarrow> rp_keys s)" if k: "k \<in> set (rp_keys s)"
  proof (cases s)
    case (LruOrder order)
    with k obtain p where p: "position (\<lambda>x. x = k) order = Some p" by (cases "position (\<lambda>x. x = k) order") (auto simp: position_None)
    from position_Some [OF p] obtain a b where ab: "order = a @ k # b" "length a = p" using position_bound [OF p] by auto
    moreover have "k \<notin> set a \<union> set b" using assms LruOrder ab(1) by auto
    then have "filter (\<lambda>x. x \<noteq> k) a = a" "filter (\<lambda>x. x \<noteq> k) b = b" by (auto simp: filter_id_conv)
    ultimately show ?thesis using LruOrder p by (simp add: lru_access_def remove_at_def)
  qed (simp_all add: fifo_access_def clock_access_def)
qed

theorem eviction_policy_contract_witness:
  "fst (rp_choose_victim (ClockRing \<lparr> ck_ring = [(0, 1), (0, 2)], ck_hand = 1 \<rparr>) (\<lambda>k. if k = (0, 2) then 1 else 0) (\<lambda>_. True)) \<noteq> None"
  using eviction_policy_contract [of "ClockRing \<lparr> ck_ring = [(0, 1), (0, 2)], ck_hand = 1 \<rparr>" "\<lambda>k. if k = (0, 2) then 1 else 0" "\<lambda>_. True"]
  by (simp add: clock_ok_def)

end
