(* ===== verification/Spec2Isabelle.thy ===== *)
theory Spec2Isabelle
  imports Persist Lsm_Engine Transaction Lockmgr Codec Index_Key Datetime Joins Wal Disk Replacer
begin

text \<open>
  A verification library for chibidb, a relational database in Rust (\<open>src/src\<close>).

  \<^bold>\<open>The program.\<close> Statements are parsed into the types of \<open>sql/ast.rs\<close>, planned into pull operators
  (\<open>exec/operator.rs\<close>) that evaluate expressions (\<open>exec/eval.rs\<close>) over rows or columnar chunks, and run inside
  a transaction (\<open>db/\<close>). Rows are encoded records (\<open>storage/codec.rs\<close>) with the ids of the creating and the deleting
  transaction in front; large values live in their own files. A table is stored by one of several engines behind one
  interface; the log-structured one (\<open>storage/lsm\<close>) is modelled from its byte formats up to the table interface.

  \<^bold>\<open>Conventions.\<close> Rust functions are HOL functions with the state passed explicitly. A \<open>Result\<close> is \<open>Ok\<close> or \<open>Err\<close> with the
  variants of \<open>error.rs\<close>; a panic (slice out of range, \<open>unwrap\<close>, arithmetic overflow in a checked build) is \<open>Err Panic\<close>.
  Machine integers are words wherever the width matters, \<open>usize\<close> is \<open>nat\<close>, floats are the 64 bits of the IEEE pattern.
  Loops are recursion. Loops without a bound in the code are \<open>partial_function (option)\<close>, where \<open>None\<close> is
  running forever, and the properties about them state that they return. No definition uses fuel.

  \<^bold>\<open>Prelude\<close>: results, loops over lists that may fail, bytes, little and big endian integers, shared lemmas.

  \<^bold>\<open>Log-structured storage.\<close>
  \<^item> \<open>Coding\<close>, \<open>Block\<close>, \<open>Bloom\<close>, \<open>Memtable\<close>, \<open>SSTable\<close>: \<open>coding.rs\<close>, \<open>block.rs\<close>, \<open>bloom.rs\<close>, \<open>memtable.rs\<close>,
    \<open>sstable.rs\<close>. Encoders and decoders are inverse, a lookup finds what was added, the filter has no false negatives.
  \<^item> \<open>Sorted_Tables\<close>: the locale \<open>sorted_table\<close>, what the store needs of a table; interpreted by the table format.
  \<^item> \<open>Store\<close>: \<open>store.rs\<close>. Writes, flushes, cascaded merges and compactions refine one map.
  \<^item> \<open>Persist\<close>: \<open>persist.rs\<close> as sequences of effects on a directory; after a crash between any two effects the reopened
    store holds the data of before or of after.
  \<^item> \<open>Table_Storage\<close>, \<open>Lsm_Engine\<close>: the locale \<open>table_storage\<close> for row storage and its interpretation by \<open>engine.rs\<close>.

  \<^bold>\<open>Transactions.\<close>
  \<^item> \<open>Commit_Log\<close>, \<open>Clog\<close>: the locale \<open>commit_log\<close> and its interpretation by the commit bitmap of \<open>clog.rs\<close>.
  \<^item> \<open>Transaction\<close>: \<open>transaction.rs\<close> and \<open>trx.rs\<close>, their actions interleaved between lock scopes: what a snapshot sees,
    that it never changes, and when it is not what had committed at one moment.
  \<^item> \<open>Ssi\<close>: the conflict tracking of \<open>ssi.rs\<close>; which write skews it finds and which it loses.
  \<^item> \<open>Lockmgr\<close>: \<open>lockmgr.rs\<close> as a step relation of interleaved calls: one holder per row, first come first served;
    every call ends once the clock passes its timeout.

  \<^bold>\<open>Values and records.\<close> \<open>Value\<close>, \<open>Lob\<close>, \<open>Codec\<close>, \<open>Index_Key\<close>, \<open>Datetime\<close>, \<open>Config\<close>: \<open>sql/value.rs\<close>,
  \<open>storage/lob.rs\<close>, \<open>storage/codec.rs\<close>, \<open>index/key.rs\<close>, \<open>sql/datetime.rs\<close>, \<open>config.rs\<close>. Records decode to the rows they
  encode, keys compare as the values do, dates and day numbers correspond.

  \<^bold>\<open>Queries.\<close>
  \<^item> \<open>Ast\<close>, \<open>Catalog\<close>: the syntax types of \<open>sql/ast.rs\<close> and the catalog of \<open>catalog/mod.rs\<close> with its invariant.
  \<^item> \<open>Float64\<close>, \<open>Eval\<close>: \<open>exec/eval.rs\<close>. Three-valued logic, exact integer arithmetic, \<open>LIKE\<close>, no panics.
  \<^item> \<open>Chunk\<close>, \<open>Subquery\<close>, \<open>Aggregate\<close>: \<open>exec/chunk.rs\<close>, \<open>subquery.rs\<close>, \<open>aggregate.rs\<close>. The streaming and
    columnar aggregates agree with grouping rows and evaluating expressions on the groups, unless chunks of one column differ in type.
  \<^item> \<open>Operators\<close>, \<open>Columnar\<close>: the pull operators of \<open>exec/operator.rs\<close>. The locale \<open>row_stream\<close> says what an operator
    delivers when it is pulled; every operator that is built over a stream is one. Pulling a pipeline ends with the
    rows of the query; the columnar operators agree with the row operators.
  \<^item> \<open>Joins\<close>: nested loop and hash join, the extraction of hash keys and the choice of joins in \<open>build_select\<close>. The hash
    join delivers the rows of the nested loop; moving where conditions into the keys of a comma join is sound on its own and
    not before a right join.

  \<^bold>\<open>Files, pages and recovery.\<close>
  \<^item> \<open>Wal\<close>: \<open>wal.rs\<close>. Recovery of any prefix of the log redoes the transactions whose commit frame is whole.
  \<^item> \<open>Disk\<close>: \<open>storage/disk.rs\<close> and \<open>dwb.rs\<close> over a map from paths to contents. The double-write buffer repairs torn pages.
  \<^item> \<open>Replacer\<close>: \<open>storage/replacer.rs\<close>. The locale \<open>replacer\<close> is what the buffer pool needs of an eviction policy; LRU, FIFO, the
    clock and their dispatch interpret it.

  \<^bold>\<open>Parameters.\<close> Case mapping of Unicode text and decimal printing of floats (\<open>text_ops\<close>), running a subquery (\<open>run\<close>),
  TOML parsing and the file system's canonical paths are arguments of the definitions that use them.

  \<^bold>\<open>Not modelled.\<close> The lexer (\<open>sql/lexer.rs\<close>) because its branch for string literals does not type check, and with it the
  parser; the buffer pool, the pages of the heap engine and the B+tree, which work in place on latched
  pages; the \<open>Database\<close> object, instances and users, which tie these together; the
  network front ends and the command line, which are input and output.

\<close>

end
